(* ===== verification/SL_Prelude.thy ===== *)
theory SL_Prelude
  imports Main "HOL-Library.Word"
begin

text \<open>
  Shared material of the development: the machine-integer types of the C++ sources, the
  exceptions they throw as values of a sum type, the collections of rewrite rules the component
  theories fill, and generic facts on words, lists and ring indices.
\<close>

unbundle bit_operations_syntax

section \<open>Types\<close>

type_synonym u8 = "8 word"
type_synonym u16 = "16 word"
type_synonym u32 = "32 word"
type_synonym u64 = "64 word"
type_synonym bytes = "8 word list"

text \<open>
  A thrown \<^verbatim>\<open>std::exception\<close> is a value of \<open>exn\<close>, named after the C++ class and carrying
  the text passed to its constructor; a function that may throw returns \<open>exn + 'a\<close>.
\<close>

datatype exn =
    Out_of_range string
  | Invalid_argument string
  | Runtime_error string
  | Bad_alloc

type_synonym 'a result = "exn + 'a"

definition bind_result :: "'a result \<Rightarrow> ('a \<Rightarrow> 'b result) \<Rightarrow> 'b result" where
  "bind_result r f = (case r of Inl e \<Rightarrow> Inl e | Inr x \<Rightarrow> f x)"

section \<open>Collections\<close>

named_theorems header_defs \<open>definitions of the header accessors\<close>
named_theorems field_simps_tab \<open>accessors as entries of the bit-field table\<close>
named_theorems step_defs \<open>definitions of the step functions of a component\<close>

section \<open>Generic lemmas\<close>

lemma bind_result_simps [simp]:
  "bind_result (Inl e) f = Inl e"
  "bind_result (Inr x) f = f x"
  by (simp_all add: bind_result_def)

lemma bind_result_Inr_iff:
  "bind_result r f = Inr y \<longleftrightarrow> (\<exists>x. r = Inr x \<and> f x = Inr y)"
  by (cases r) auto

lemma unat_ucast_up:
  fixes w :: "'a::len word"
  assumes "LENGTH('a) \<le> LENGTH('b::len)"
  shows "unat (ucast w :: 'b word) = unat w"
proof -
  have "unat w < 2 ^ LENGTH('a)" by (rule unsigned_less)
  also have "\<dots> \<le> 2 ^ LENGTH('b)" using assms by simp
  finally show ?thesis by (simp add: unsigned_ucast_eq take_bit_nat_eq_self)
qed

lemma ucast_ucast_up [simp]:
  fixes x :: "'a::len word"
  assumes "LENGTH('a) \<le> LENGTH('b::len)"
  shows "ucast (ucast x :: 'b word) = x"
  using assms by (intro bit_word_eqI) (auto simp: bit_simps)

lemma word_less_unat: "a < b \<longleftrightarrow> unat a < unat (b :: 'a::len word)"
  by (simp add: word_less_nat_alt)

lemma word_eq_unat: "a = b \<longleftrightarrow> unat a = unat (b :: 'a::len word)"
  by (simp add: word_unat_eq_iff)

text \<open>Addition and multiplication that do not wrap.\<close>

lemma unat_add_exact:
  fixes a b :: "'a::len word"
  assumes "unat a + unat b < 2 ^ LENGTH('a)"
  shows "unat (a + b) = unat a + unat b"
  using assms by (simp add: unat_word_ariths)

lemma unat_mult_exact:
  fixes a b :: "'a::len word"
  assumes "unat a * unat b < 2 ^ LENGTH('a)"
  shows "unat (a * b) = unat a * unat b"
  using assms by (simp add: unat_word_ariths)

lemma unat_sub_exact:
  fixes a b :: "'a::len word"
  assumes "unat b \<le> unat a"
  shows "unat (a - b) = unat a - unat b"
  using assms by (simp add: unat_sub word_le_nat_alt)

text \<open>Lists cut in groups of a fixed size.\<close>

lemma nth_list_update_if:
  "i < length xs \<Longrightarrow> xs[i := x] ! j = (if i = j then x else xs ! j)"
  by simp

lemma drop_list_update_before: "i < n \<Longrightarrow> drop n (xs[i := x]) = drop n xs"
  by simp

text \<open>The difference of two ring positions with the same residue.\<close>

lemma mod_eq_close:
  fixes a b n :: nat
  assumes "a mod n = b mod n" "a \<le> b" "b < a + n"
  shows "a = b"
proof -
  from assms(1,2) have "n dvd b - a"
    by (metis mod_eq_dvd_iff_nat)
  moreover have "b - a < n" using assms by linarith
  ultimately have "b - a = 0" by (meson dvd_imp_le not_gr_zero not_less)
  with assms(2) show ?thesis by simp
qed

end
