(* ===== verification/Vdif.thy ===== *)
theory Vdif
  imports SL_Prelude
begin

text \<open>
  The VDIF frame header of \<^verbatim>\<open>include/vdif.hpp\<close> (class \<^verbatim>\<open>VDIF\<close>): the 32 header bytes, the
  little-endian word accessors, every bit-field getter and setter, the metadata reader used for
  each received packet, \<^verbatim>\<open>setPacketId\<close> and \<^verbatim>\<open>configureBaseband\<close>.

  The accessors are shown to be entries of one bit-field table (word index, shift, width), which
  gives all read-back and independence facts from two generic lemmas. The locale
  \<open>header_field\<close> is the contract of one getter/setter pair; it is interpreted for each pair.
\<close>

section \<open>The header and its words\<close>

record VDIF =
  header_bytes :: bytes

definition HEADER_SIZE :: nat where "HEADER_SIZE = 32"
definition WORDS :: nat where "WORDS = 8"
definition FRAMES_PER_SECOND :: u32 where "FRAMES_PER_SECOND = 62500"
definition DEFAULT_PAYLOAD_BYTES :: nat where "DEFAULT_PAYLOAD_BYTES = 8192"

definition new_VDIF :: VDIF where
  "new_VDIF = \<lparr>header_bytes = replicate HEADER_SIZE 0\<rparr>"

definition clear :: "VDIF \<Rightarrow> VDIF" where
  "clear v = v\<lparr>header_bytes := replicate HEADER_SIZE 0\<rparr>"

text \<open>
  \<^verbatim>\<open>copyIn\<close> and \<^verbatim>\<open>copyOut\<close>: the buffer is \<open>None\<close> for a null pointer; \<open>len\<close> is the length the
  caller passes, which the code trusts.
\<close>

definition copyIn :: "VDIF \<Rightarrow> bytes option \<Rightarrow> nat \<Rightarrow> VDIF result" where
  "copyIn v buf len =
     (case buf of
        None \<Rightarrow> Inl (Invalid_argument ''buffer too small'')
      | Some bs \<Rightarrow>
          if len < HEADER_SIZE then Inl (Invalid_argument ''buffer too small'')
          else Inr (v\<lparr>header_bytes := take HEADER_SIZE bs\<rparr>))"

definition copyOut :: "VDIF \<Rightarrow> bytes option \<Rightarrow> nat \<Rightarrow> bytes result" where
  "copyOut v buf len =
     (case buf of
        None \<Rightarrow> Inl (Invalid_argument ''buffer too small'')
      | Some bs \<Rightarrow>
          if len < HEADER_SIZE then Inl (Invalid_argument ''buffer too small'')
          else Inr (header_bytes v @ drop HEADER_SIZE bs))"

definition readLE32 :: "bytes \<Rightarrow> u32" where
  "readLE32 p = ucast (p ! 0) OR push_bit 8 (ucast (p ! 1))
     OR push_bit 16 (ucast (p ! 2)) OR push_bit 24 (ucast (p ! 3))"

text \<open>\<open>writeLE32 i v p\<close> stores the four bytes at \<^verbatim>\<open>p + i\<close> of the buffer.\<close>

definition writeLE32 :: "nat \<Rightarrow> u32 \<Rightarrow> bytes \<Rightarrow> bytes" where
  "writeLE32 i v p = p[i := ucast (v AND 0xff), i + 1 := ucast (drop_bit 8 v AND 0xff),
     i + 2 := ucast (drop_bit 16 v AND 0xff), i + 3 := ucast (drop_bit 24 v AND 0xff)]"

definition getWord :: "VDIF \<Rightarrow> nat \<Rightarrow> u32 result" where
  "getWord v index =
     (if index \<ge> WORDS then Inl (Out_of_range ''word'')
      else Inr (readLE32 (drop (index * 4) (header_bytes v))))"

definition setWord :: "nat \<Rightarrow> u32 \<Rightarrow> VDIF \<Rightarrow> VDIF result" where
  "setWord index val v =
     (if index \<ge> WORDS then Inl (Out_of_range ''word'')
      else Inr (v\<lparr>header_bytes := writeLE32 (index * 4) val (header_bytes v)\<rparr>))"

text \<open>
  The field accessors call \<^verbatim>\<open>getWord\<close> and \<^verbatim>\<open>setWord\<close> with a literal index below \<^verbatim>\<open>WORDS\<close>; the
  range check then never throws, and they use the value of the non-throwing branch.
\<close>

definition word_at :: "nat \<Rightarrow> VDIF \<Rightarrow> u32" where
  "word_at index v = readLE32 (drop (index * 4) (header_bytes v))"

definition put_word :: "nat \<Rightarrow> u32 \<Rightarrow> VDIF \<Rightarrow> VDIF" where
  "put_word index val v = v\<lparr>header_bytes := writeLE32 (index * 4) val (header_bytes v)\<rparr>"

lemma getWord_literal: "index < WORDS \<Longrightarrow> getWord v index = Inr (word_at index v)"
  by (simp add: getWord_def word_at_def)

lemma setWord_literal: "index < WORDS \<Longrightarrow> setWord index w v = Inr (put_word index w v)"
  by (simp add: setWord_def put_word_def)

section \<open>Word 0: invalid, legacy, seconds from the reference epoch\<close>

definition getSecondsFromEpoch :: "VDIF \<Rightarrow> u32" where
  [header_defs]: "getSecondsFromEpoch v = word_at 0 v AND 0x3fffffff"

definition setSecondsFromEpoch :: "u32 \<Rightarrow> VDIF \<Rightarrow> VDIF" where
  [header_defs]: "setSecondsFromEpoch sec v =
     put_word 0 ((word_at 0 v AND 0xc0000000) OR (sec AND 0x3fffffff)) v"

definition getInvalid :: "VDIF \<Rightarrow> bool" where
  [header_defs]: "getInvalid v \<longleftrightarrow> drop_bit 30 (word_at 0 v) AND 1 \<noteq> 0"

definition setInvalid :: "bool \<Rightarrow> VDIF \<Rightarrow> VDIF" where
  [header_defs]: "setInvalid b v =
     put_word 0 (if b then word_at 0 v OR push_bit 30 1
                 else word_at 0 v AND NOT (push_bit 30 1)) v"

definition getLegacy :: "VDIF \<Rightarrow> bool" where
  [header_defs]: "getLegacy v \<longleftrightarrow> drop_bit 31 (word_at 0 v) AND 1 \<noteq> 0"

definition setLegacy :: "bool \<Rightarrow> VDIF \<Rightarrow> VDIF" where
  [header_defs]: "setLegacy b v =
     put_word 0 (if b then word_at 0 v OR push_bit 31 1
                 else word_at 0 v AND NOT (push_bit 31 1)) v"

section \<open>Word 1: reference epoch, frame number\<close>

definition getFrameNumber :: "VDIF \<Rightarrow> u32" where
  [header_defs]: "getFrameNumber v = word_at 1 v AND 0xffffff"

definition setFrameNumber :: "u32 \<Rightarrow> VDIF \<Rightarrow> VDIF" where
  [header_defs]: "setFrameNumber n v =
     put_word 1 ((word_at 1 v AND 0xff000000) OR (n AND 0xffffff)) v"

definition getReferenceEpoch :: "VDIF \<Rightarrow> u8" where
  [header_defs]: "getReferenceEpoch v = ucast (drop_bit 24 (word_at 1 v) AND 0x3f)"

definition setReferenceEpoch :: "u8 \<Rightarrow> VDIF \<Rightarrow> VDIF" where
  [header_defs]: "setReferenceEpoch e v =
     put_word 1 ((word_at 1 v AND 0x00ffffff) OR push_bit 24 (ucast (e AND 0x3f))) v"

section \<open>Word 2: version, channels, frame length\<close>

definition getVDIFVersion :: "VDIF \<Rightarrow> u8" where
  [header_defs]: "getVDIFVersion v = ucast (drop_bit 29 (word_at 2 v) AND 0x7)"

definition setVDIFVersion :: "u8 \<Rightarrow> VDIF \<Rightarrow> VDIF" where
  [header_defs]: "setVDIFVersion x v =
     put_word 2 ((word_at 2 v AND NOT (push_bit 29 0x7)) OR push_bit 29 (ucast (x AND 0x7))) v"

definition getLog2Channels :: "VDIF \<Rightarrow> u8" where
  [header_defs]: "getLog2Channels v = ucast (drop_bit 24 (word_at 2 v) AND 0x1f)"

definition setLog2Channels :: "u8 \<Rightarrow> VDIF \<Rightarrow> VDIF" where
  [header_defs]: "setLog2Channels x v =
     put_word 2 ((word_at 2 v AND NOT (push_bit 24 0x1f)) OR push_bit 24 (ucast (x AND 0x1f))) v"

definition getFrameLength :: "VDIF \<Rightarrow> u32" where
  [header_defs]: "getFrameLength v = (word_at 2 v AND 0xffffff) * 8"

definition setFrameLength :: "u32 \<Rightarrow> VDIF \<Rightarrow> VDIF" where
  [header_defs]: "setFrameLength n v =
     put_word 2 ((word_at 2 v AND 0xff000000) OR ((n div 8) AND 0xffffff)) v"

section \<open>Word 3: complex, bits per sample, thread, station\<close>

definition getComplex :: "VDIF \<Rightarrow> bool" where
  [header_defs]: "getComplex v \<longleftrightarrow> drop_bit 31 (word_at 3 v) AND 1 \<noteq> 0"

definition setComplex :: "bool \<Rightarrow> VDIF \<Rightarrow> VDIF" where
  [header_defs]: "setComplex b v =
     put_word 3 (if b then word_at 3 v OR push_bit 31 1
                 else word_at 3 v AND NOT (push_bit 31 1)) v"

definition getBitsPerSample :: "VDIF \<Rightarrow> u8" where
  [header_defs]: "getBitsPerSample v = ucast ((drop_bit 26 (word_at 3 v) AND 0x1f) + 1)"

text \<open>\<^verbatim>\<open>bits - 1\<close> is computed as an \<^verbatim>\<open>int\<close> and then converted to 32 bits, unmasked.\<close>

definition setBitsPerSample :: "u8 \<Rightarrow> VDIF \<Rightarrow> VDIF" where
  [header_defs]: "setBitsPerSample bits v =
     put_word 3 ((word_at 3 v AND NOT (push_bit 26 0x1f)) OR push_bit 26 (ucast bits - 1)) v"

definition getThreadID :: "VDIF \<Rightarrow> u16" where
  [header_defs]: "getThreadID v = ucast (drop_bit 16 (word_at 3 v) AND 0x3ff)"

definition setThreadID :: "u16 \<Rightarrow> VDIF \<Rightarrow> VDIF" where
  [header_defs]: "setThreadID x v =
     put_word 3 ((word_at 3 v AND NOT (push_bit 16 0x3ff)) OR push_bit 16 (ucast (x AND 0x3ff))) v"

definition getStationID :: "VDIF \<Rightarrow> u16" where
  [header_defs]: "getStationID v = ucast (word_at 3 v AND 0xffff)"

definition setStationID :: "u16 \<Rightarrow> VDIF \<Rightarrow> VDIF" where
  [header_defs]: "setStationID x v =
     put_word 3 ((word_at 3 v AND 0xffff0000) OR ucast x) v"

section \<open>Words 4 to 7: extended data and noise source state\<close>

definition getEDV :: "VDIF \<Rightarrow> u8" where
  [header_defs]: "getEDV v = ucast (drop_bit 24 (word_at 4 v))"

definition setEDV :: "u8 \<Rightarrow> VDIF \<Rightarrow> VDIF" where
  [header_defs]: "setEDV x v =
     put_word 4 ((word_at 4 v AND 0x00ffffff) OR push_bit 24 (ucast x)) v"

definition getExtendedUserData :: "VDIF \<Rightarrow> u32" where
  [header_defs]: "getExtendedUserData v = word_at 4 v AND 0xffffff"

definition setExtendedUserData :: "u32 \<Rightarrow> VDIF \<Rightarrow> VDIF" where
  [header_defs]: "setExtendedUserData x v =
     put_word 4 ((word_at 4 v AND 0xff000000) OR (x AND 0xffffff)) v"

definition getExtendedData :: "VDIF \<Rightarrow> nat \<Rightarrow> u32 result" where
  "getExtendedData v word =
     (if word < 5 \<or> word > 7 then Inl (Out_of_range ''extended word'') else getWord v word)"

definition setExtendedData :: "nat \<Rightarrow> u32 \<Rightarrow> VDIF \<Rightarrow> VDIF result" where
  "setExtendedData word val v =
     (if word < 5 \<or> word > 7 then Inl (Out_of_range ''extended word'') else setWord word val v)"

definition getNoiseSourceState :: "VDIF \<Rightarrow> bool" where
  [header_defs]: "getNoiseSourceState v \<longleftrightarrow> word_at 7 v AND 0x1 \<noteq> 0"

definition setNoiseSourceState :: "bool \<Rightarrow> VDIF \<Rightarrow> VDIF" where
  [header_defs]: "setNoiseSourceState on v =
     setEDV 1 (put_word 7 (if on then word_at 7 v OR 1 else word_at 7 v AND NOT 1) v)"

section \<open>Metadata, packet identifiers and the recorder's header rewrite\<close>

record Metadata =
  seconds_from_epoch :: u32
  frame_number :: u32
  noise_source_state :: u8

definition packet_id :: "Metadata \<Rightarrow> u64" where
  "packet_id m = ucast (seconds_from_epoch m) * ucast FRAMES_PER_SECOND + ucast (frame_number m)"

definition readMetadata :: "bytes \<Rightarrow> bool \<Rightarrow> Metadata" where
  "readMetadata buf read_noise_source =
     (let word0 = readLE32 buf; word1 = readLE32 (drop 4 buf)
      in \<lparr>seconds_from_epoch = word0 AND 0x3fffffff,
          frame_number = word1 AND 0x00ffffff,
          noise_source_state =
            ucast (if read_noise_source then readLE32 (drop 28 buf) AND 0x1 else 0)\<rparr>)"

definition setPacketId :: "u64 \<Rightarrow> VDIF \<Rightarrow> VDIF" where
  "setPacketId pid v =
     setFrameNumber (ucast (pid mod ucast FRAMES_PER_SECOND))
       (setSecondsFromEpoch (ucast (pid div ucast FRAMES_PER_SECOND)) v)"

text \<open>
  \<^verbatim>\<open>size_t\<close> is 64 bits wide: the products are 64-bit, guarded by the overflow test of the code.
\<close>

definition configureBaseband :: "u8 \<Rightarrow> u16 \<Rightarrow> u64 \<Rightarrow> VDIF \<Rightarrow> VDIF result" where
  "configureBaseband bits_per_sample thread_id payload_bytes v =
     (if bits_per_sample = 0 \<or> bits_per_sample > 32
         \<or> payload_bytes > (- 1) div ucast bits_per_sample
         \<or> (payload_bytes * ucast bits_per_sample) mod 8 \<noteq> 0
      then Inl (Invalid_argument ''invalid baseband sample format'')
      else
        let packed_payload_bytes = payload_bytes * ucast bits_per_sample div 8;
            frame_bytes = of_nat HEADER_SIZE + packed_payload_bytes
        in if frame_bytes mod 8 \<noteq> 0 \<or> frame_bytes > 0x00ffffff * 8
           then Inl (Invalid_argument ''invalid VDIF frame length'')
           else Inr (setThreadID thread_id (setVDIFVersion 1 (setLog2Channels 0
                  (setBitsPerSample bits_per_sample (setComplex True
                  (setFrameLength (ucast frame_bytes) (setEDV 1 v))))))))"

section \<open>Words of a well-formed header\<close>

definition wf_VDIF :: "VDIF \<Rightarrow> bool" where
  "wf_VDIF v \<longleftrightarrow> length (header_bytes v) = HEADER_SIZE"

lemma readLE32_bytes:
  "readLE32 (ucast (w AND 0xff) # ucast (drop_bit 8 w AND 0xff) # ucast (drop_bit 16 w AND 0xff)
     # ucast (drop_bit 24 w AND 0xff) # bs) = w"
proof (rule bit_word_eqI)
  fix n
  assume "n < LENGTH(32)"
  then have n: "n < 32" by simp
  have m: "(0xff :: u32) = mask 8" by (simp add: mask_eq_exp_minus_1)
  consider "n < 8" | "8 \<le> n \<and> n < 16" | "16 \<le> n \<and> n < 24" | "24 \<le> n" by linarith
  then show "bit (readLE32 (ucast (w AND 0xff) # ucast (drop_bit 8 w AND 0xff)
     # ucast (drop_bit 16 w AND 0xff) # ucast (drop_bit 24 w AND 0xff) # bs)) n = bit w n"
    using n unfolding m readLE32_def by cases (auto simp: bit_simps)
qed

lemma length_writeLE32 [simp]: "length (writeLE32 i w p) = length p"
  by (simp add: writeLE32_def)

lemma wf_put_word [simp]: "wf_VDIF (put_word i w v) \<longleftrightarrow> wf_VDIF v"
  by (simp add: wf_VDIF_def put_word_def)

lemma drop_writeLE32_same:
  assumes "i + 4 \<le> length p"
  shows "drop i (writeLE32 i w p) =
    ucast (w AND 0xff) # ucast (drop_bit 8 w AND 0xff) # ucast (drop_bit 16 w AND 0xff)
     # ucast (drop_bit 24 w AND 0xff) # drop (i + 4) p"
proof -
  have "drop i p = p ! i # p ! (i + 1) # p ! (i + 2) # p ! (i + 3) # drop (i + 4) p"
    using assms by (simp add: Cons_nth_drop_Suc [symmetric] eval_nat_numeral)
  then show ?thesis
    by (simp add: writeLE32_def drop_update_swap)
qed

lemma readLE32_cong:
  "(\<And>k. k < 4 \<Longrightarrow> p ! k = q ! k) \<Longrightarrow> readLE32 p = readLE32 q"
  by (simp add: readLE32_def)

lemma word_at_put_word:
  assumes "wf_VDIF v" "i < WORDS" "j < WORDS"
  shows "word_at j (put_word i w v) = (if i = j then w else word_at j v)"
proof (cases "i = j")
  case True
  have "i * 4 + 4 \<le> length (header_bytes v)"
    using assms by (simp add: wf_VDIF_def WORDS_def HEADER_SIZE_def)
  with True show ?thesis
    by (simp add: word_at_def put_word_def drop_writeLE32_same readLE32_bytes)
next
  case False
  have len: "j * 4 + 4 \<le> length (header_bytes v)"
    using assms by (simp add: wf_VDIF_def WORDS_def HEADER_SIZE_def)
  have "readLE32 (drop (j * 4) (writeLE32 (i * 4) w (header_bytes v)))
      = readLE32 (drop (j * 4) (header_bytes v))"
  proof (rule readLE32_cong)
    fix k :: nat
    assume "k < 4"
    with False have "j * 4 + k \<noteq> i * 4" "j * 4 + k \<noteq> i * 4 + 1"
      "j * 4 + k \<noteq> i * 4 + 2" "j * 4 + k \<noteq> i * 4 + 3"
      by presburger+
    with len \<open>k < 4\<close> show "drop (j * 4) (writeLE32 (i * 4) w (header_bytes v)) ! k
      = drop (j * 4) (header_bytes v) ! k"
      by (simp add: writeLE32_def)
  qed
  with False show ?thesis by (simp add: word_at_def put_word_def)
qed

section \<open>The bit-field table\<close>

definition get_field :: "nat \<Rightarrow> nat \<Rightarrow> nat \<Rightarrow> VDIF \<Rightarrow> u32" where
  "get_field idx sh n v = take_bit n (drop_bit sh (word_at idx v))"

definition set_field :: "nat \<Rightarrow> nat \<Rightarrow> nat \<Rightarrow> u32 \<Rightarrow> VDIF \<Rightarrow> VDIF" where
  "set_field idx sh n x v =
     put_word idx ((word_at idx v AND NOT (push_bit sh (mask n))) OR push_bit sh (take_bit n x)) v"

lemma wf_set_field [simp]: "wf_VDIF (set_field idx sh n x v) \<longleftrightarrow> wf_VDIF v"
  by (simp add: set_field_def)

lemma get_set_field:
  assumes "wf_VDIF v" "idx < WORDS" "n \<le> m" "sh + m \<le> 32"
  shows "get_field idx sh n (set_field idx sh m x v) = take_bit n x"
  using assms
  by (intro bit_word_eqI) (auto simp: get_field_def set_field_def word_at_put_word bit_simps)

lemma get_set_field_other:
  assumes "wf_VDIF v" "idx < WORDS" "jdx < WORDS"
    and "idx \<noteq> jdx \<or> sh + n \<le> sh' \<or> sh' + n' \<le> sh"
  shows "get_field jdx sh' n' (set_field idx sh n x v) = get_field jdx sh' n' v"
  using assms
  by (intro bit_word_eqI)
    (auto simp: get_field_def set_field_def word_at_put_word bit_simps dest: bit_imp_le_length)

lemma set_set_field:
  assumes "wf_VDIF v" "idx < WORDS"
  shows "set_field idx sh n y (set_field idx sh n x v) = set_field idx sh n y v"
proof -
  have "put_word idx b (put_word idx a v) = put_word idx b v" for a b
    by (simp add: put_word_def writeLE32_def list_update_swap)
  moreover have "(((w AND NOT (push_bit sh (mask n))) OR push_bit sh (take_bit n x))
       AND NOT (push_bit sh (mask n))) OR push_bit sh (take_bit n y)
     = (w AND NOT (push_bit sh (mask n))) OR push_bit sh (take_bit n y)" for w :: u32
    by (intro bit_word_eqI) (auto simp: bit_simps)
  ultimately show ?thesis using assms by (simp add: set_field_def word_at_put_word)
qed

lemma masks_32:
  "(0x3fffffff :: u32) = mask 30" "(0xc0000000 :: u32) = NOT (mask 30)"
  "(0xffffff :: u32) = mask 24" "(0xff000000 :: u32) = NOT (mask 24)"
  "(0xffff :: u32) = mask 16" "(0xffff0000 :: u32) = NOT (mask 16)"
  "(0x3f :: u32) = mask 6" "(0x7 :: u32) = mask 3" "(0x1f :: u32) = mask 5"
  "(0x3ff :: u32) = mask 10" 
  by (simp_all add: mask_eq_exp_minus_1)



lemma bool_field_get: "(w :: u32) AND 1 \<noteq> 0 \<longleftrightarrow> take_bit (Suc 0) w \<noteq> 0"
  by (simp add: take_bit_eq_mask mask_eq_exp_minus_1)

lemma bool_field_set:
  "(if b then w OR push_bit sh 1 else w AND NOT (push_bit sh 1)) =
     (w AND NOT (push_bit sh (mask (Suc 0))))
       OR push_bit sh (take_bit (Suc 0) (if b then 1 else (0 :: u32)))"
  by (intro bit_word_eqI) (auto simp: bit_simps)

lemma take_bit_fits: "x < 2 ^ n \<Longrightarrow> take_bit n x = (x :: 'a::len word)"
  by (simp add: take_bit_eq_mask less_mask_eq)

lemma ucast_take_fits:
  fixes x :: "'a::len word"
  assumes "x < 2 ^ n" "LENGTH('a) \<le> 32"
  shows "ucast (take_bit n (ucast x :: u32)) = x"
proof (rule bit_word_eqI)
  fix k
  assume k: "k < LENGTH('a)"
  have "bit x k \<longleftrightarrow> bit (take_bit n x) k" using assms(1) by (simp add: take_bit_fits)
  with k assms(2) show "bit (ucast (take_bit n (ucast x :: u32)) :: 'a word) k = bit x k"
    by (auto simp: bit_simps)
qed

section \<open>The contract of an accessor pair\<close>

text \<open>
  A getter and a setter for one field of the table. The getter reads \<open>n\<close> bits, the setter replaces
  \<open>m \<ge> n\<close> bits (the epoch setter also clears the two unassigned bits above the field). \<open>dec\<close> and
  \<open>enc\<close> translate between the field's C++ type and its bits, \<open>ok\<close> says which values fit.
  Read-back, overwriting and independence of other fields follow.
\<close>

locale header_field =
  fixes getf :: "VDIF \<Rightarrow> 'a" and setf :: "'a \<Rightarrow> VDIF \<Rightarrow> VDIF"
    and idx sh n m :: nat and dec :: "u32 \<Rightarrow> 'a" and enc :: "'a \<Rightarrow> u32" and ok :: "'a \<Rightarrow> bool"
  assumes getf_table: "getf v = dec (get_field idx sh n v)"
    and setf_table: "ok x \<Longrightarrow> setf x v = set_field idx sh m (enc x) v"
    and dec_enc: "ok x \<Longrightarrow> dec (take_bit n (enc x)) = x"
    and in_header: "idx < WORDS" "n \<le> m" "sh + m \<le> 32"
begin

lemma get_set: "wf_VDIF v \<Longrightarrow> ok x \<Longrightarrow> getf (setf x v) = x"
  by (simp add: getf_table setf_table dec_enc get_set_field in_header)

lemma set_set: "wf_VDIF v \<Longrightarrow> ok x \<Longrightarrow> ok y \<Longrightarrow> setf y (setf x v) = setf y v"
  by (simp add: setf_table set_set_field in_header)

lemma wf_set: "ok x \<Longrightarrow> wf_VDIF (setf x v) \<longleftrightarrow> wf_VDIF v"
  by (simp add: setf_table)

lemma frame:
  "wf_VDIF v \<Longrightarrow> ok x \<Longrightarrow> jdx < WORDS \<Longrightarrow> idx \<noteq> jdx \<or> sh + m \<le> sh' \<or> sh' + n' \<le> sh \<Longrightarrow>
     get_field jdx sh' n' (setf x v) = get_field jdx sh' n' v"
  by (simp add: setf_table get_set_field_other in_header)

end

lemmas table_defs = get_field_def set_field_def take_bit_eq_mask masks_32 WORDS_def

lemma ucast_take_bit_up:
  "LENGTH('a) \<le> 32 \<Longrightarrow> ucast (take_bit n x) = take_bit n (ucast x :: u32)" for x :: "'a::len word"
  by (intro bit_word_eqI) (auto simp: bit_simps dest: bit_imp_le_length)

lemma masks_8_16: "(0x3f :: u8) = mask 6" "(0x7 :: u8) = mask 3" "(0x1f :: u8) = mask 5"
  "(0x3ff :: u16) = mask 10"
  by (simp_all add: mask_eq_exp_minus_1)

text \<open>The complement of a high field, as the code writes it for the epoch and the EDV byte.\<close>

lemma low24_mask: "(0xffffff :: u32) = NOT (push_bit 24 (mask 8))"
  by (simp add: mask_eq_exp_minus_1 push_bit_eq_mult)

lemmas small_field_simps = set_field_def get_field_def WORDS_def masks_8_16 masks_32
  ucast_take_bit_up ucast_take_fits take_bit_eq_mask [symmetric]

interpretation seconds: header_field getSecondsFromEpoch setSecondsFromEpoch 0 0 30 30 id id
  "\<lambda>x. x < 2 ^ 30"
  by unfold_locales (simp_all add: header_defs table_defs less_mask_eq)

interpretation invalid: header_field getInvalid setInvalid 0 30 1 1 "\<lambda>x. x \<noteq> 0"
  "\<lambda>b. if b then 1 else 0" "\<lambda>_. True"
  by unfold_locales
    (simp_all add: header_defs get_field_def set_field_def WORDS_def bool_field_get bool_field_set)

interpretation legacy: header_field getLegacy setLegacy 0 31 1 1 "\<lambda>x. x \<noteq> 0"
  "\<lambda>b. if b then 1 else 0" "\<lambda>_. True"
  by unfold_locales
    (simp_all add: header_defs get_field_def set_field_def WORDS_def bool_field_get bool_field_set)

interpretation frame_no: header_field getFrameNumber setFrameNumber 1 0 24 24 id id
  "\<lambda>x. x < 2 ^ 24"
  by unfold_locales (simp_all add: header_defs table_defs less_mask_eq)

interpretation epoch: header_field getReferenceEpoch setReferenceEpoch 1 24 6 8 ucast ucast
  "\<lambda>x. x < 2 ^ 6"
proof unfold_locales
  fix x :: u8 and v
  assume x: "x < 2 ^ 6"
  then show "ucast (take_bit 6 (ucast x :: u32)) = x" by (simp add: ucast_take_fits)
  from x have "x AND 0x3f = x" by (simp add: masks_8_16 less_mask_eq)
  moreover have "take_bit 8 (ucast x :: u32) = ucast x"
    by (intro bit_word_eqI) (auto simp: bit_simps dest: bit_imp_le_length)
  ultimately show "setReferenceEpoch x v = set_field 1 24 8 (ucast x) v"
    by (simp add: header_defs set_field_def low24_mask)
qed (simp_all add: header_defs table_defs)

interpretation version: header_field getVDIFVersion setVDIFVersion 2 29 3 3 ucast ucast
  "\<lambda>x. x < 2 ^ 3"
  by unfold_locales
    (simp_all add: header_defs small_field_simps)

interpretation log2_channels: header_field getLog2Channels setLog2Channels 2 24 5 5 ucast ucast
  "\<lambda>x. x < 2 ^ 5"
  by unfold_locales
    (simp_all add: header_defs small_field_simps)

interpretation complex_flag: header_field getComplex setComplex 3 31 1 1 "\<lambda>x. x \<noteq> 0"
  "\<lambda>b. if b then 1 else 0" "\<lambda>_. True"
  by unfold_locales
    (simp_all add: header_defs get_field_def set_field_def WORDS_def bool_field_get bool_field_set)

interpretation thread_id: header_field getThreadID setThreadID 3 16 10 10 ucast ucast
  "\<lambda>x. x < 2 ^ 10"
  by unfold_locales
    (simp_all add: header_defs small_field_simps)

interpretation frame_length: header_field getFrameLength setFrameLength 2 0 24 24 "\<lambda>x. x * 8"
  "\<lambda>x. x div 8" "\<lambda>x. x mod 8 = 0 \<and> x \<le> 0x00ffffff * 8"
proof unfold_locales
  fix x :: u32
  assume x: "x mod 8 = 0 \<and> x \<le> 0x00ffffff * 8"
  then have "unat x \<le> 0xffffff * 8" by (simp add: word_le_nat_alt)
  then have "unat x div 8 < 2 ^ 24" by simp
  then have "x div 8 < 2 ^ 24"
    by (simp add: word_less_nat_alt unat_div)
  then have "take_bit 24 (x div 8) = x div 8" by (rule take_bit_fits)
  moreover have "x div 8 * 8 = x" using x by (metis add.right_neutral div_mult_mod_eq)
  ultimately show "take_bit 24 (x div 8) * 8 = x" by simp
qed (simp_all add: header_defs small_field_simps)

lemma bits_minus_one:
  fixes x :: u8
  assumes "x \<noteq> 0 \<and> x \<le> 32"
  shows "take_bit 5 (ucast x - 1 :: u32) = ucast x - 1"
proof (rule take_bit_fits)
  from assms have "unat x \<noteq> 0" "unat x \<le> 32"
    by (simp_all add: word_le_nat_alt unat_eq_0)
  moreover have u: "unat (ucast x :: u32) = unat x" by (simp add: unat_ucast_up)
  ultimately have "unat (ucast x - 1 :: u32) < 32"
    by (subst unat_sub_exact) simp_all
  then show "(ucast x - 1 :: u32) < 2 ^ 5" by (simp add: word_less_nat_alt)
qed

interpretation bits_per_sample: header_field getBitsPerSample setBitsPerSample 3 26 5 5
  "\<lambda>x. ucast (x + 1)" "\<lambda>x. ucast x - 1" "\<lambda>x. x \<noteq> 0 \<and> x \<le> 32"
proof unfold_locales
  fix x :: u8 and v
  assume x: "x \<noteq> 0 \<and> x \<le> 32"
  show "setBitsPerSample x v = set_field 3 26 5 (ucast x - 1) v"
    by (simp add: header_defs set_field_def bits_minus_one [OF x] masks_32)
  show "ucast (take_bit 5 (ucast x - 1 :: u32) + 1) = x"
    by (simp add: bits_minus_one [OF x])
qed (simp_all add: header_defs small_field_simps)

interpretation station_id: header_field getStationID setStationID 3 0 16 16 ucast ucast
  "\<lambda>_. True"
proof unfold_locales
  fix x :: u16 and v
  have up: "take_bit 16 (ucast x :: u32) = ucast x"
    by (intro bit_word_eqI) (auto simp: bit_simps dest: bit_imp_le_length)
  show "setStationID x v = set_field 3 0 16 (ucast x) v"
    by (simp add: header_defs set_field_def masks_32 up)
  show "ucast (take_bit 16 (ucast x :: u32)) = x" by (simp add: up)
qed (simp_all add: header_defs small_field_simps)

lemma take_bit_8_ucast: "take_bit 8 (ucast (x :: u8) :: u32) = ucast x"
  by (intro bit_word_eqI) (auto simp: bit_simps dest: bit_imp_le_length)

interpretation edv: header_field getEDV setEDV 4 24 8 8 ucast ucast "\<lambda>_. True"
proof unfold_locales
  fix x :: u8 and v
  show "setEDV x v = set_field 4 24 8 (ucast x) v"
    by (simp add: header_defs set_field_def low24_mask take_bit_8_ucast)
  show "ucast (take_bit 8 (ucast x :: u32)) = x" by (simp add: take_bit_8_ucast)
  show "getEDV v = ucast (get_field 4 24 8 v)"
    unfolding getEDV_def get_field_def
    by (intro bit_word_eqI) (auto simp: bit_simps)
qed (simp_all add: WORDS_def)

interpretation user_data: header_field getExtendedUserData setExtendedUserData 4 0 24 24 id id
  "\<lambda>x. x < 2 ^ 24"
  by unfold_locales (simp_all add: header_defs table_defs less_mask_eq)

text \<open>The noise bit is set together with the EDV byte.\<close>

lemma setNoiseSourceState_table:
  "setNoiseSourceState on v =
     setEDV 1 (set_field 7 0 1 (if on then 1 else 0) v)"
proof -
  have "(if on then word_at 7 v OR 1 else word_at 7 v AND NOT 1) =
     (word_at 7 v AND NOT (push_bit 0 (mask 1))) OR push_bit 0 (take_bit 1 (if on then 1 else 0))"
    by (intro bit_word_eqI) (auto simp: bit_simps)
  then show ?thesis by (simp only: setNoiseSourceState_def set_field_def)
qed

lemma getNoiseSourceState_table: "getNoiseSourceState v \<longleftrightarrow> get_field 7 0 1 v \<noteq> 0"
  by (simp add: getNoiseSourceState_def get_field_def bool_field_get)

lemmas fields_table =
  seconds.getf_table seconds.setf_table invalid.getf_table invalid.setf_table
  legacy.getf_table legacy.setf_table frame_no.getf_table frame_no.setf_table
  epoch.getf_table epoch.setf_table version.getf_table version.setf_table
  log2_channels.getf_table log2_channels.setf_table frame_length.getf_table
  frame_length.setf_table complex_flag.getf_table complex_flag.setf_table
  bits_per_sample.getf_table bits_per_sample.setf_table thread_id.getf_table
  thread_id.setf_table station_id.getf_table station_id.setf_table edv.getf_table
  edv.setf_table user_data.getf_table user_data.setf_table
  getNoiseSourceState_table setNoiseSourceState_table

lemmas fields_dec = seconds.dec_enc invalid.dec_enc frame_no.dec_enc epoch.dec_enc
  version.dec_enc log2_channels.dec_enc frame_length.dec_enc complex_flag.dec_enc
  bits_per_sample.dec_enc thread_id.dec_enc station_id.dec_enc edv.dec_enc

lemma word_at_field: "word_at idx v = get_field idx 0 32 v"
  by (simp add: get_field_def take_bit_word_beyond_length_eq)

section \<open>Properties\<close>

lemma setNoiseSourceState_reads:
  assumes "wf_VDIF v"
  shows "getNoiseSourceState (setNoiseSourceState on v) = on"
    and "getEDV (setNoiseSourceState on v) = 1"
  using assms
  by (simp_all add: fields_table get_set_field get_set_field_other WORDS_def)

lemma setPacketId_table:
  assumes "unat pid div 62500 < 2 ^ 30"
  shows "setPacketId pid v =
    set_field 1 0 24 (of_nat (unat pid mod 62500)) (set_field 0 0 30 (of_nat (unat pid div 62500)) v)"
proof -
  have q: "ucast (pid div ucast FRAMES_PER_SECOND) = (of_nat (unat pid div 62500) :: u32)"
    and r: "ucast (pid mod ucast FRAMES_PER_SECOND) = (of_nat (unat pid mod 62500) :: u32)"
    by (simp_all add: word_eq_unat FRAMES_PER_SECOND_def unat_div unat_mod unsigned_ucast_eq
        unat_of_nat take_bit_eq_mod)
  have "unat (of_nat (unat pid div 62500) :: u32) < 2 ^ 30"
    using assms by (simp add: unat_of_nat)
  then have "(of_nat (unat pid div 62500) :: u32) < 2 ^ 30" by (simp add: word_less_nat_alt)
  moreover have "unat (of_nat (unat pid mod 62500) :: u32) < 2 ^ 24"
  proof -
    have "unat pid mod 62500 < 62500" by simp
    then show ?thesis by (simp add: unat_of_nat)
  qed
  then have "(of_nat (unat pid mod 62500) :: u32) < 2 ^ 24" by (simp add: word_less_nat_alt)
  ultimately show ?thesis
    by (simp add: setPacketId_def q r seconds.setf_table frame_no.setf_table)
qed

lemma readMetadata_header:
  assumes "wf_VDIF v"
  shows "readMetadata (header_bytes v @ payload) noise =
    \<lparr>seconds_from_epoch = getSecondsFromEpoch v, frame_number = getFrameNumber v,
     noise_source_state = (if noise \<and> getNoiseSourceState v then 1 else 0)\<rparr>"
proof -
  have cut: "readLE32 (drop (k * 4) (header_bytes v @ payload)) = word_at k v" if "k < 8" for k
    unfolding word_at_def
  proof (rule readLE32_cong)
    fix j :: nat
    assume "j < 4"
    with that assms have "k * 4 + j < length (header_bytes v)"
      by (simp add: wf_VDIF_def HEADER_SIZE_def)
    then show "drop (k * 4) (header_bytes v @ payload) ! j = drop (k * 4) (header_bytes v) ! j"
      by (simp add: nth_append less_diff_conv add.commute)
  qed
  have "readLE32 (header_bytes v @ payload) = word_at 0 v"
    "readLE32 (drop 4 (header_bytes v @ payload)) = word_at 1 v"
    "readLE32 (drop 28 (header_bytes v @ payload)) = word_at 7 v"
    using cut [of 0] cut [of 1] cut [of 7] by simp_all
  then show ?thesis
    by (simp add: readMetadata_def Let_def header_defs and_one_eq mod_2_eq_odd)
qed

text \<open>The arithmetic of the two guards of \<^verbatim>\<open>configureBaseband\<close>.\<close>

definition baseband_frame_bytes :: "u8 \<Rightarrow> u64 \<Rightarrow> nat" where
  "baseband_frame_bytes bits payload = 32 + unat payload * unat bits div 8"

lemma word_gt_div_iff:
  fixes p b :: u64
  assumes "b \<noteq> 0"
  shows "p > (- 1) div b \<longleftrightarrow> unat p * unat b \<ge> 2 ^ 64"
proof -
  have b: "0 < unat b" using assms by (simp add: unat_gt_0)
  have "unat (- 1 :: u64) = 2 ^ 64 - 1"
    by (simp add: unsigned_minus_1_eq_mask mask_eq_exp_minus_1)
  then have "p > (- 1) div b \<longleftrightarrow> (2 ^ 64 - 1) div unat b < unat p"
    by (simp only: word_less_nat_alt unat_div)
  also have "\<dots> \<longleftrightarrow> 2 ^ 64 - 1 < unat p * unat b"
    using b by (rule div_less_iff_less_mult)
  finally show ?thesis by auto
qed

lemma configureBaseband_unfold:
  fixes bits :: u8
  assumes b: "bits \<noteq> 0" "bits \<le> 32" and small: "unat p * unat bits < 2 ^ 64"
  shows "unat (p * ucast bits) = unat p * unat bits"
    and "unat (of_nat HEADER_SIZE + p * ucast bits div 8 :: u64) = baseband_frame_bytes bits p"
proof -
  have u: "unat (ucast bits :: u64) = unat bits" by (simp add: unat_ucast_up)
  show pb: "unat (p * ucast bits) = unat p * unat bits"
    using small by (subst unat_mult_exact) (simp_all add: u)
  have "unat (p * ucast bits div 8 :: u64) = unat p * unat bits div 8"
    by (simp add: unat_div pb)
  moreover have "unat p * unat bits div 8 < 2 ^ 61" using small by simp
  ultimately show "unat (of_nat HEADER_SIZE + p * ucast bits div 8 :: u64)
      = baseband_frame_bytes bits p"
    by (subst unat_add_exact) (simp_all add: HEADER_SIZE_def baseband_frame_bytes_def)
qed

lemma configureBaseband_eq:
  "configureBaseband bits tid p v =
     (if bits = 0 \<or> bits > 32 \<or> unat p * unat bits \<ge> 2 ^ 64 \<or> unat p * unat bits mod 8 \<noteq> 0
      then Inl (Invalid_argument ''invalid baseband sample format'')
      else if baseband_frame_bytes bits p mod 8 \<noteq> 0 \<or> baseband_frame_bytes bits p > 0xffffff * 8
      then Inl (Invalid_argument ''invalid VDIF frame length'')
      else Inr (setThreadID tid (setVDIFVersion 1 (setLog2Channels 0 (setBitsPerSample bits
        (setComplex True (setFrameLength (of_nat (baseband_frame_bytes bits p)) (setEDV 1 v))))))))"
proof (cases "bits = 0 \<or> bits > 32")
  case True
  then show ?thesis by (auto simp: configureBaseband_def)
next
  case False
  then have b: "bits \<noteq> 0" "bits \<le> 32" by auto
  have u: "unat (ucast bits :: u64) = unat bits" by (simp add: unat_ucast_up)
  with b(1) have nz: "(ucast bits :: u64) \<noteq> 0" by (metis unat_0 unat_eq_0)
  show ?thesis
  proof (cases "unat p * unat bits \<ge> 2 ^ 64")
    case True
    with b show ?thesis
      by (simp add: configureBaseband_def word_gt_div_iff [OF nz] u)
  next
    case small: False
    note un = configureBaseband_unfold [OF b, of p]
    have m8: "x mod 8 = 0 \<longleftrightarrow> unat x mod 8 = 0" for x :: u64
      by (simp add: word_eq_unat unat_mod)
    have cast: "ucast x = (of_nat (unat x) :: u32)" for x :: u64 by simp
    have g: "\<not> unat ((- 1) div ucast bits :: u64) < unat p"
      using word_gt_div_iff [OF nz, of p] small u by (simp add: word_less_nat_alt)
    show ?thesis
      using b small un g
      by (simp add: configureBaseband_def u m8 Let_def
          word_less_nat_alt cast del: of_nat_unat)
  qed
qed

lemma configureBaseband_read:
  assumes wf: "wf_VDIF v" and ok: "configureBaseband bits tid payload v = Inr v'"
    and tid: "tid < 2 ^ 10"
  shows "wf_VDIF v' \<and> getEDV v' = 1 \<and> unat (getFrameLength v') = 32 + unat payload * unat bits div 8
    \<and> getComplex v' \<and> getBitsPerSample v' = bits \<and> getLog2Channels v' = 0
    \<and> getVDIFVersion v' = 1 \<and> getThreadID v' = tid
    \<and> getSecondsFromEpoch v' = getSecondsFromEpoch v \<and> getFrameNumber v' = getFrameNumber v
    \<and> getReferenceEpoch v' = getReferenceEpoch v \<and> getInvalid v' = getInvalid v
    \<and> getLegacy v' = getLegacy v \<and> getStationID v' = getStationID v
    \<and> getExtendedUserData v' = getExtendedUserData v
    \<and> getNoiseSourceState v' = getNoiseSourceState v
    \<and> (\<forall>w. getExtendedData v' w = getExtendedData v w)"
proof -
  let ?n = "baseband_frame_bytes bits payload"
  from ok have b: "bits \<noteq> 0 \<and> bits \<le> 32" and len: "?n mod 8 = 0" "?n \<le> 0xffffff * 8"
    and v': "v' = setThreadID tid (setVDIFVersion 1 (setLog2Channels 0 (setBitsPerSample bits
        (setComplex True (setFrameLength (of_nat ?n) (setEDV 1 v))))))"
    by (auto simp: configureBaseband_eq split: if_splits)
  have un: "unat (of_nat ?n :: u32) = ?n" using len(2) by (simp add: unat_of_nat)
  then have n: "(of_nat ?n :: u32) mod 8 = 0 \<and> (of_nat ?n :: u32) \<le> 0x00ffffff * 8"
    using len by (simp add: word_eq_unat word_le_nat_alt unat_mod)
  have v'': "v' = set_field 3 16 10 (ucast tid) (set_field 2 29 3 1 (set_field 2 24 5 0
     (set_field 3 26 5 (ucast bits - 1) (set_field 3 31 1 1 (set_field 2 0 24 (of_nat ?n div 8)
       (set_field 4 24 8 1 v))))))"
    unfolding v' using b n tid by (simp add: fields_table)
  note rd = get_set_field get_set_field_other WORDS_def
  have "getBitsPerSample v' = bits"
    using wf b unfolding v'' bits_per_sample.getf_table
    by (simp add: rd bits_per_sample.dec_enc)
  moreover have "getThreadID v' = tid"
    using wf tid unfolding v'' thread_id.getf_table by (simp add: rd thread_id.dec_enc)
  moreover have "getFrameLength v' = of_nat ?n"
    using wf frame_length.dec_enc [OF n] unfolding v'' frame_length.getf_table by (simp add: rd)
  moreover have "getExtendedData v' w = getExtendedData v w" for w
    using wf unfolding v'' getExtendedData_def
    by (auto simp: getWord_literal WORDS_def word_at_field rd)
  ultimately show ?thesis
    using wf un unfolding v''
    by (simp add: fields_table rd baseband_frame_bytes_def)
qed

text \<open>
  C25. When \<^verbatim>\<open>configureBaseband\<close> accepts its arguments, the rewritten header carries EDV 1, the packed
  frame length, the complex flag, the sample width, one channel, version 1 and the thread id; the
  time fields (seconds, frame number, reference epoch), the invalid and legacy flags, the station,
  the user data and the extended words 5 to 7 (with the noise bit) are those of the input.
\<close>

theorem configureBaseband_fields:
  assumes wf: "wf_VDIF v" and ok: "configureBaseband bits tid payload v = Inr v'"
    and tid: "tid < 2 ^ 10"
  shows "wf_VDIF v' \<and> getEDV v' = 1 \<and> unat (getFrameLength v') = 32 + unat payload * unat bits div 8
    \<and> getComplex v' \<and> getBitsPerSample v' = bits \<and> getLog2Channels v' = 0
    \<and> getVDIFVersion v' = 1 \<and> getThreadID v' = tid
    \<and> getSecondsFromEpoch v' = getSecondsFromEpoch v \<and> getFrameNumber v' = getFrameNumber v
    \<and> getReferenceEpoch v' = getReferenceEpoch v \<and> getInvalid v' = getInvalid v
    \<and> getLegacy v' = getLegacy v \<and> getStationID v' = getStationID v
    \<and> getExtendedUserData v' = getExtendedUserData v
    \<and> getNoiseSourceState v' = getNoiseSourceState v
    \<and> (\<forall>w. getExtendedData v' w = getExtendedData v w)"
  using assms by (rule configureBaseband_read)

lemma wf_new_VDIF [simp]: "wf_VDIF new_VDIF"
  by (simp add: wf_VDIF_def new_VDIF_def)

theorem configureBaseband_fields_witness:
  "getThreadID (projr (configureBaseband 8 17 8192 new_VDIF)) = 17
   \<and> unat (getFrameLength (projr (configureBaseband 8 17 8192 new_VDIF))) = 8224"
proof -
  have "configureBaseband 8 17 8192 new_VDIF = Inr (projr (configureBaseband 8 17 8192 new_VDIF))"
    by (simp add: configureBaseband_eq baseband_frame_bytes_def)
  from configureBaseband_fields [OF wf_new_VDIF this] show ?thesis by simp
qed

text \<open>
  C26. \<^verbatim>\<open>configureBaseband\<close> accepts exactly the formats VDIF can describe: 1 to 32 bits per sample,
  a payload whose bit count does not overflow 64 bits, a frame that is a whole number of 8-byte
  units and fits the 24-bit length field. Every other argument throws, with the message of the
  first guard that fails.
\<close>

theorem configureBaseband_accepts:
  "(\<exists>v'. configureBaseband bits tid payload v = Inr v') \<longleftrightarrow>
     0 < unat bits \<and> unat bits \<le> 32 \<and> unat payload * unat bits < 2 ^ 64
     \<and> 64 dvd unat payload * unat bits \<and> 32 + unat payload * unat bits div 8 \<le> 0xffffff * 8"
proof -
  let ?pb = "unat payload * unat bits"
  have "?pb mod 8 = 0 \<and> baseband_frame_bytes bits payload mod 8 = 0 \<longleftrightarrow> 64 dvd ?pb"
    unfolding baseband_frame_bytes_def by presburger
  moreover have "bits = 0 \<or> bits > 32 \<longleftrightarrow> \<not> (0 < unat bits \<and> unat bits \<le> 32)"
    by (auto simp: word_less_nat_alt unat_gt_0 unat_eq_0)
  ultimately show ?thesis
    unfolding configureBaseband_eq baseband_frame_bytes_def by auto
qed

lemma setPacketId_read:
  assumes wf: "wf_VDIF v" and fits: "unat pid div 62500 < 2 ^ 30"
  shows "packet_id (readMetadata (header_bytes (setPacketId pid v) @ payload) noise) = pid
    \<and> getReferenceEpoch (setPacketId pid v) = getReferenceEpoch v
    \<and> getInvalid (setPacketId pid v) = getInvalid v \<and> getLegacy (setPacketId pid v) = getLegacy v
    \<and> (\<forall>w. 2 \<le> w \<longrightarrow> getWord (setPacketId pid v) w = getWord v w)"
proof -
  let ?v = "setPacketId pid v"
  note rd = get_set_field get_set_field_other WORDS_def
  have tab: "?v = set_field 1 0 24 (of_nat (unat pid mod 62500))
      (set_field 0 0 30 (of_nat (unat pid div 62500)) v)"
    using fits by (rule setPacketId_table)
  have s: "unat (of_nat (unat pid div 62500) :: u32) = unat pid div 62500"
    using fits by (simp add: unat_of_nat)
  have f: "unat (of_nat (unat pid mod 62500) :: u32) = unat pid mod 62500"
  proof -
    have "unat pid mod 62500 < 62500" by simp
    then show ?thesis by (simp add: unat_of_nat)
  qed
  have sec: "unat (getSecondsFromEpoch ?v) = unat pid div 62500"
    using wf s fits unfolding tab seconds.getf_table
    by (simp add: rd unsigned_take_bit_eq take_bit_nat_eq_self)
  have "unat pid mod 62500 < 2 ^ 24"
    by (rule less_le_trans [of _ 62500]) simp_all
  then have frm: "unat (getFrameNumber ?v) = unat pid mod 62500"
    using wf f unfolding tab frame_no.getf_table
    by (simp add: rd unsigned_take_bit_eq take_bit_nat_eq_self)
  have wf': "wf_VDIF ?v" using wf by (simp add: tab)
  have "packet_id (readMetadata (header_bytes ?v @ payload) noise) = pid"
    unfolding readMetadata_header [OF wf'] packet_id_def FRAMES_PER_SECOND_def
    using fits sec frm
    by (simp add: word_eq_unat unat_word_ariths unat_ucast_up)
  moreover have "getWord ?v w = getWord v w" if "2 \<le> w" for w
  proof (cases "w < WORDS")
    case True
    with wf that show ?thesis unfolding tab
      by (simp add: getWord_literal word_at_field get_set_field_other WORDS_def)
  qed (simp add: getWord_def)
  ultimately show ?thesis
    using wf unfolding tab by (simp add: fields_table rd)
qed

text \<open>
  Packet identifiers survive the header: after \<^verbatim>\<open>setPacketId\<close>, \<^verbatim>\<open>readMetadata\<close> on the header
  bytes (followed by any payload) gives back the identifier, as long as the seconds fit their 30
  bits; the epoch, the flags and the words 2 to 7 of the header are untouched.
\<close>

theorem setPacketId_readMetadata:
  assumes wf: "wf_VDIF v" and fits: "unat pid div 62500 < 2 ^ 30"
  shows "packet_id (readMetadata (header_bytes (setPacketId pid v) @ payload) noise) = pid
    \<and> getReferenceEpoch (setPacketId pid v) = getReferenceEpoch v
    \<and> getInvalid (setPacketId pid v) = getInvalid v \<and> getLegacy (setPacketId pid v) = getLegacy v
    \<and> (\<forall>w. 2 \<le> w \<longrightarrow> getWord (setPacketId pid v) w = getWord v w)"
  using assms by (rule setPacketId_read)

theorem setPacketId_readMetadata_witness:
  "packet_id (readMetadata (header_bytes (setPacketId 77130678 new_VDIF) @ []) True) = 77130678"
  using setPacketId_readMetadata [of new_VDIF 77130678 "[]" True] by simp

end
