(* ===== verification/Vdif_Time.thy ===== *)
theory Vdif_Time
  imports Vdif
begin

text \<open>
  VDIF time to Unix time (\<^verbatim>\<open>include/vdif.hpp\<close>, \<^verbatim>\<open>vdif_epoch_to_unix_sec\<close> and
  \<^verbatim>\<open>vdif_to_timestamp_ns\<close>). All values are
  64-bit words as in the source; the correctness statements are over the integers the words denote
  and so include that nothing wraps. The reference is the usual leap-second bookkeeping: the VDIF
  second counter of a POSIX second is its distance from the epoch plus the leap seconds inserted
  in between.
\<close>

section \<open>Tables\<close>

definition vdif_epoch_unix_sec :: "u64 list" where
  "vdif_epoch_unix_sec =
    [946684800, 962409600, 978307200, 993945600, 1009843200, 1025481600,
     1041379200, 1057017600, 1072915200, 1088640000, 1104537600, 1120176000,
     1136073600, 1151712000, 1167609600, 1183248000, 1199145600, 1214870400,
     1230768000, 1246406400, 1262304000, 1277942400, 1293840000, 1309478400,
     1325376000, 1341100800, 1356998400, 1372636800, 1388534400, 1404172800,
     1420070400, 1435708800, 1451606400, 1467331200, 1483228800, 1498867200,
     1514764800, 1530403200, 1546300800, 1561939200, 1577836800, 1593561600,
     1609459200, 1625097600, 1640995200, 1656633600, 1672531200, 1688169600,
     1704067200, 1719792000, 1735689600, 1751328000, 1767225600, 1782864000,
     1798761600, 1814400000, 1830297600, 1846022400, 1861920000, 1877558400,
     1893456000, 1909094400, 1924992000, 1940630400]"

definition utc_positive_leap_effective_unix_sec :: "u64 list" where
  "utc_positive_leap_effective_unix_sec =
     [1136073600, 1230768000, 1341100800, 1435708800, 1483228800]"

section \<open>Conversion\<close>

definition vdif_epoch_to_unix_sec :: "u8 \<Rightarrow> u64 result" where
  "vdif_epoch_to_unix_sec epoch =
     (if epoch \<ge> 64 then Inl (Out_of_range ''invalid VDIF epoch'')
      else Inr (vdif_epoch_unix_sec ! unat epoch))"

text \<open>
  The loop over the leap table: \<open>Inl t\<close> is the early \<^verbatim>\<open>return t\<close> of the folded leap second,
  \<open>Inr n\<close> the value of \<^verbatim>\<open>elapsed_leap_seconds\<close> when the loop ends or breaks.
\<close>

fun leap_loop :: "u64 list \<Rightarrow> u64 \<Rightarrow> u32 \<Rightarrow> u32 \<Rightarrow> u64 \<Rightarrow> u64 + u64" where
  "leap_loop [] epoch_sec seconds frame elapsed = Inr elapsed"
| "leap_loop (leap # rest) epoch_sec seconds frame elapsed =
     (if leap \<le> epoch_sec then leap_loop rest epoch_sec seconds frame elapsed
      else
        let leap_value = leap - epoch_sec + elapsed
        in if ucast seconds < leap_value then Inr elapsed
           else if ucast seconds = leap_value
           then Inl ((leap - 1) * 1000000000 + ucast frame * 16000)
           else leap_loop rest epoch_sec seconds frame (elapsed + 1))"

definition vdif_to_timestamp_ns :: "u8 \<Rightarrow> u32 \<Rightarrow> u32 \<Rightarrow> u64 result" where
  "vdif_to_timestamp_ns epoch seconds frame =
     bind_result (vdif_epoch_to_unix_sec epoch) (\<lambda>epoch_sec.
       case leap_loop utc_positive_leap_effective_unix_sec epoch_sec seconds frame 0 of
         Inl t \<Rightarrow> Inr t
       | Inr elapsed \<Rightarrow>
           let sec = epoch_sec + ucast seconds - elapsed
           in Inr (sec * 1000000000 + ucast frame * 16000))"

section \<open>Reference: leap-second bookkeeping on the integers\<close>

definition epoch_nat :: "nat \<Rightarrow> nat" where
  "epoch_nat e = unat (vdif_epoch_unix_sec ! e)"

definition leaps_nat :: "nat list" where
  "leaps_nat = [1136073600, 1230768000, 1341100800, 1435708800, 1483228800]"

definition leaps_between :: "nat \<Rightarrow> nat \<Rightarrow> nat list \<Rightarrow> nat" where
  "leaps_between a b ls = length (filter (\<lambda>l. a < l \<and> l \<le> b) ls)"

text \<open>The VDIF second counter, for epoch \<open>e\<close>, of the POSIX second \<open>u\<close>.\<close>

definition vdif_seconds :: "nat \<Rightarrow> nat \<Rightarrow> nat" where
  "vdif_seconds e u = u - epoch_nat e + leaps_between (epoch_nat e) u leaps_nat"

section \<open>Range facts\<close>

lemma epoch_table_range:
  "list_all (\<lambda>t. 946684800 \<le> unat t \<and> unat t \<le> 1940630400) vdif_epoch_unix_sec"
  by (simp add: vdif_epoch_unix_sec_def)

lemma length_epoch_table [simp]: "length vdif_epoch_unix_sec = 64"
  by (simp add: vdif_epoch_unix_sec_def)

lemma epoch_nat_range: "e < 64 \<Longrightarrow> 946684800 \<le> epoch_nat e \<and> epoch_nat e \<le> 1940630400"
  using epoch_table_range unfolding epoch_nat_def by (simp add: list_all_length)

lemma leap_table_nat: "map unat utc_positive_leap_effective_unix_sec = leaps_nat"
  by (simp add: utc_positive_leap_effective_unix_sec_def leaps_nat_def)

lemma leaps_between_simps [simp]:
  "leaps_between a b [] = 0"
  "leaps_between a b (l # ls) = (if a < l \<and> l \<le> b then 1 else 0) + leaps_between a b ls"
  by (simp_all add: leaps_between_def)

lemma leaps_between_le: "leaps_between a b ls \<le> length ls"
  by (simp add: leaps_between_def)

lemma leaps_between_none: "\<forall>l \<in> set ls. b < l \<Longrightarrow> leaps_between a b ls = 0"
  by (induction ls) auto

text \<open>One leap entry: the value of the second counter at which that leap second occurs.\<close>

lemma leap_value_nat:
  fixes leap es el :: u64
  assumes "unat leap < 2 ^ 33" "unat el < 2 ^ 33" "unat es \<le> unat leap"
  shows "unat (leap - es + el) = unat leap - unat es + unat el"
proof -
  have "unat (leap - es) = unat leap - unat es" using assms(3) by (rule unat_sub_exact)
  with assms show ?thesis by (subst unat_add_exact) simp_all
qed

text \<open>On the counter of a POSIX second the loop counts exactly the leap seconds passed.\<close>

lemma leap_loop_counts:
  assumes "sorted (map unat ls)" "\<forall>l \<in> set ls. unat l < 2 ^ 33"
    and "unat el + length ls < 2 ^ 32" and "unat es \<le> u" and "u < 2 ^ 33"
    and "unat s = u - unat es + unat el + leaps_between (unat es) u (map unat ls)"
  shows "\<exists>n. leap_loop ls es s f el = Inr n
    \<and> unat n = unat el + leaps_between (unat es) u (map unat ls)"
  using assms
proof (induction ls arbitrary: el)
  case Nil
  then show ?case by simp
next
  case (Cons l ls)
  have us: "unat (ucast s :: u64) = unat s" by (simp add: unat_ucast_up)
  show ?case
  proof (cases "unat l \<le> unat es")
    case True
    with Cons show ?thesis by (simp add: word_le_nat_alt)
  next
    case False
    have lv: "unat (l - es + el) = unat l - unat es + unat el"
      using Cons.prems False by (intro leap_value_nat) simp_all
    show ?thesis
    proof (cases "unat l \<le> u")
      case True
      let ?k = "leaps_between (unat es) u (map unat ls)"
      have "unat (l - es + el) < unat s"
        using Cons.prems False True by (simp add: lv)
      then have step: "leap_loop (l # ls) es s f el = leap_loop ls es s f (el + 1)"
        using False us by (simp add: word_le_nat_alt word_less_nat_alt word_eq_unat Let_def)
      have el1: "unat (el + 1) = unat el + 1"
        using Cons.prems by (subst unat_add_exact) simp_all
      show ?thesis
        unfolding step using Cons.IH [of "el + 1"] Cons.prems False True el1 by simp
    next
      case past: False
      then have "leaps_between (unat es) u (map unat ls) = 0"
        using Cons.prems(1) by (intro leaps_between_none) auto
      moreover from this have "unat (ucast s :: u64) < unat (l - es + el)"
        unfolding us lv using past Cons.prems False by simp
      ultimately show ?thesis using past False
        by (simp add: word_le_nat_alt word_less_nat_alt Let_def)
    qed
  qed
qed

text \<open>On the counter value of the leap second itself the loop returns early.\<close>

lemma leap_loop_folds:
  assumes "sorted (map unat ls)" "distinct ls" "\<forall>l \<in> set ls. unat l < 2 ^ 33"
    and "unat el + length ls < 2 ^ 32" and "l \<in> set ls" and "unat es < unat l"
    and "unat s = unat l - unat es + unat el + leaps_between (unat es) (unat l - 1) (map unat ls)"
  shows "leap_loop ls es s f el = Inl ((l - 1) * 1000000000 + ucast f * 16000)"
  using assms
proof (induction ls arbitrary: el)
  case Nil
  then show ?case by simp
next
  case (Cons k ls)
  have us: "unat (ucast s :: u64) = unat s" by (simp add: unat_ucast_up)
  show ?case
  proof (cases "unat k \<le> unat es")
    case True
    with Cons show ?thesis by (auto simp: word_le_nat_alt)
  next
    case False
    have lv: "unat (k - es + el) = unat k - unat es + unat el"
      using Cons.prems False by (intro leap_value_nat) simp_all
    show ?thesis
    proof (cases "k = l")
      case True
      have "leaps_between (unat es) (unat l - 1) (map unat ls) = 0"
        using Cons.prems(1,6) True by (intro leaps_between_none) auto
      with True Cons.prems lv us False have "(ucast s :: u64) = k - es + el"
        by (simp add: word_eq_unat)
      with True False show ?thesis by (simp add: word_le_nat_alt Let_def)
    next
      case other: False
      with Cons.prems have l: "l \<in> set ls" and kl: "unat k < unat l"
        by (auto simp: order_less_le word_eq_unat)
      then have "unat (k - es + el) < unat s"
        using Cons.prems(7) False by (simp add: lv)
      then have step: "leap_loop (k # ls) es s f el = leap_loop ls es s f (el + 1)"
        using False us by (simp add: word_le_nat_alt word_less_nat_alt word_eq_unat Let_def)
      have el1: "unat (el + 1) = unat el + 1"
        using Cons.prems by (subst unat_add_exact) simp_all
      have "leaps_between (unat es) (unat l - 1) (map unat (k # ls))
          = 1 + leaps_between (unat es) (unat l - 1) (map unat ls)"
        using False kl by auto
      then have s1: "unat s = unat l - unat es + unat (el + 1)
          + leaps_between (unat es) (unat l - 1) (map unat ls)"
        using Cons.prems(7) el1 by linarith
      show ?thesis
        unfolding step by (rule Cons.IH [OF _ _ _ _ l _ s1]) (use Cons.prems el1 in simp_all)
    qed
  qed
qed

lemma leap_table_sorted: "sorted leaps_nat"
  by (simp add: leaps_nat_def)

lemma leap_table_shape:
  "distinct utc_positive_leap_effective_unix_sec" "length utc_positive_leap_effective_unix_sec = 5"
  by (simp_all add: utc_positive_leap_effective_unix_sec_def)

lemma leap_table_range: "\<forall>l \<in> set utc_positive_leap_effective_unix_sec. unat l < 2 ^ 33"
  by (simp add: utc_positive_leap_effective_unix_sec_def)

lemma vdif_epoch_to_unix_sec_ok:
  "unat e < 64 \<Longrightarrow> vdif_epoch_to_unix_sec e = Inr (vdif_epoch_unix_sec ! unat e)"
  by (simp add: vdif_epoch_to_unix_sec_def word_le_nat_alt)

text \<open>Seconds and frames scaled to nanoseconds stay below 64 bits.\<close>

lemma ns_exact:
  fixes sec :: u64 and f :: u32
  assumes "unat sec < 2 ^ 33"
  shows "unat (sec * 1000000000 + ucast f * 16000) = unat sec * 1000000000 + unat f * 16000"
proof -
  have f: "unat (ucast f :: u64) = unat f" by (simp add: unat_ucast_up)
  have "unat f < 2 ^ 32" using unsigned_less [of f] by simp
  then have "unat f * 16000 < 2 ^ 46" by simp
  with f have m2: "unat (ucast f * 16000 :: u64) = unat f * 16000"
    by (subst unat_mult_exact) simp_all
  have m1: "unat (sec * 1000000000) = unat sec * 1000000000"
    using assms by (subst unat_mult_exact) simp_all
  show ?thesis using assms \<open>unat f * 16000 < 2 ^ 46\<close>
    by (subst unat_add_exact) (simp_all add: m1 m2)
qed

section \<open>Properties\<close>



text \<open>
  The inserted leap second has no POSIX name and is folded onto the second before it: at the
  counter value one past the last second before a leap (second \<open>l\<close> of the table, after the epoch),
  the result is \<open>l - 1\<close> with the frame phase kept.
\<close>

theorem vdif_to_timestamp_ns_leap:
  assumes e: "unat e < 64" and l: "l \<in> set leaps_nat" and after: "epoch_nat (unat e) < l"
  shows "\<exists>t. vdif_to_timestamp_ns e (of_nat (vdif_seconds (unat e) (l - 1) + 1)) frame = Inr t
    \<and> unat t = (l - 1) * 1000000000 + unat frame * 16000"
proof -
  let ?es = "vdif_epoch_unix_sec ! unat e"
  let ?s = "of_nat (vdif_seconds (unat e) (l - 1) + 1) :: u32"
  let ?k = "leaps_between (unat ?es) (l - 1) leaps_nat"
  have es: "unat ?es = epoch_nat (unat e)" by (simp add: epoch_nat_def)
  from l obtain w where w: "w \<in> set utc_positive_leap_effective_unix_sec" "unat w = l"
    by (auto simp flip: leap_table_nat)
  have l33: "l < 2 ^ 31" using l by (auto simp: leaps_nat_def)
  have k: "?k \<le> 5" using leaps_between_le [of _ _ leaps_nat] by (simp add: leaps_nat_def)
  have "vdif_seconds (unat e) (l - 1) + 1 = l - unat ?es + ?k"
    using after by (simp add: vdif_seconds_def es)
  moreover have "l - unat ?es + ?k < 2 ^ 32" using l33 k by simp
  ultimately have us: "unat ?s = l - unat ?es + ?k"
    by (simp only: unat_of_nat) simp
  have w1: "unat (w - 1) = l - 1" using after w(2) by (subst unat_sub_exact) simp_all
  have "leap_loop utc_positive_leap_effective_unix_sec ?es ?s frame 0
      = Inl ((w - 1) * 1000000000 + ucast frame * 16000)"
    by (rule leap_loop_folds)
      (use leap_table_range leap_table_sorted us w after es in
        \<open>simp_all add: leap_table_nat leap_table_shape\<close>)
  moreover have "unat ((w - 1) * 1000000000 + ucast frame * 16000)
      = (l - 1) * 1000000000 + unat frame * 16000"
  proof -
    have "unat (w - 1) < 2 ^ 33" using w1 l33 by simp
    from ns_exact [OF this, of frame] show ?thesis unfolding w1 .
  qed
  ultimately show ?thesis
    unfolding vdif_to_timestamp_ns_def vdif_epoch_to_unix_sec_ok [OF e] bind_result_simps
    by (metis (no_types, lifting) sum.case(1))
qed

theorem vdif_to_timestamp_ns_leap_witness:
  "\<exists>t. vdif_to_timestamp_ns 16 (of_nat (vdif_seconds 16 (1230768000 - 1) + 1)) 0 = Inr t
    \<and> unat t = (1230768000 - 1) * 1000000000 + 0 * 16000"
  using vdif_to_timestamp_ns_leap [of 16 1230768000 0]
  by (simp add: epoch_nat_def vdif_epoch_unix_sec_def leaps_nat_def)

end
