(* ===== verification/Baseband_Quantize.thy ===== *)
theory Baseband_Quantize
  imports SL_Prelude
begin

text \<open>
  The in-place sample converters of \<^verbatim>\<open>include/baseband_quantize.hpp\<close>: offset-binary Q,I input
  bytes become two's-complement I,Q samples of 8, 4 or 2 bits. The buffer is a byte list updated
  in place, with the read and write positions of the loops; the AVX-512 routines work on sixteen-bit
  lanes of 64-byte blocks. The locale \<open>in_place_pack\<close> is the contract of a loop that packs groups
  of \<open>k\<close> bytes into \<open>m\<close> bytes of the same buffer behind its read position.
\<close>

section \<open>The routines\<close>

text \<open>\<^verbatim>\<open>quantize8_scalar\<close>: the loop from position \<open>i\<close>, with the trailing odd byte.\<close>

function quantize8_loop :: "nat \<Rightarrow> nat \<Rightarrow> bytes \<Rightarrow> bytes" where
  "quantize8_loop i n buf =
     (if i + 1 < n then
        let q = buf ! i; in_phase = buf ! (i + 1)
        in quantize8_loop (i + 2) n (buf[i := in_phase XOR 0x80, i + 1 := q XOR 0x80])
      else if i < n then buf[i := buf ! i XOR 0x80]
      else buf)"
  by pat_completeness auto
termination
  by (relation "measure (\<lambda>(i, n, _). n - i)") auto

definition quantize8_scalar :: "bytes \<Rightarrow> nat \<Rightarrow> bytes" where
  "quantize8_scalar buf n = quantize8_loop 0 n buf"

definition pack_pair :: "u8 \<Rightarrow> u8 \<Rightarrow> u8" where
  "pack_pair q in_phase = drop_bit 4 (in_phase XOR 0x80) OR ((q XOR 0x80) AND 0xf0)"

text \<open>The loops that pack return the final read and write positions with the buffer.\<close>

function quantize4_loop :: "nat \<Rightarrow> nat \<Rightarrow> nat \<Rightarrow> bytes \<Rightarrow> nat \<times> nat \<times> bytes" where
  "quantize4_loop i out n buf =
     (if i + 1 < n then
        quantize4_loop (i + 2) (out + 1) n (buf[out := pack_pair (buf ! i) (buf ! (i + 1))])
      else (i, out, buf))"
  by pat_completeness auto
termination
  by (relation "measure (\<lambda>(i, out, n, _). n - i)") auto

definition quantize4_scalar :: "bytes \<Rightarrow> nat \<Rightarrow> bytes" where
  "quantize4_scalar buf n = snd (snd (quantize4_loop 0 0 n buf))"

text \<open>
  A 512-bit register holds 32 little-endian lanes of 16 bits: \<open>map_lanes g\<close> applies a lane operation
  to consecutive byte pairs.
\<close>

definition lane_of :: "u8 \<Rightarrow> u8 \<Rightarrow> u16" where
  "lane_of lo hi = ucast lo OR push_bit 8 (ucast hi)"

fun map_lanes :: "(u16 \<Rightarrow> u16) \<Rightarrow> bytes \<Rightarrow> bytes" where
  "map_lanes g (lo # hi # bs) =
     ucast (g (lane_of lo hi)) # ucast (drop_bit 8 (g (lane_of lo hi))) # map_lanes g bs"
| "map_lanes g bs = []"

text \<open>\<^verbatim>\<open>_mm512_slli_epi16(x, 8) | _mm512_srli_epi16(x, 8)\<close>, then the sign bits.\<close>

definition swap_block :: "bytes \<Rightarrow> bytes" where
  "swap_block bs =
     map (\<lambda>b. b XOR 0x80) (map_lanes (\<lambda>x. push_bit 8 x OR drop_bit 8 x) bs)"

text \<open>\<open>store_at out bs buf\<close> stores the bytes \<open>bs\<close> at position \<open>out\<close>.\<close>

definition store_at :: "nat \<Rightarrow> bytes \<Rightarrow> bytes \<Rightarrow> bytes" where
  "store_at out bs buf = take out buf @ bs @ drop (out + length bs) buf"

function quantize8_avx512_loop :: "nat \<Rightarrow> nat \<Rightarrow> bytes \<Rightarrow> nat \<times> bytes" where
  "quantize8_avx512_loop i n buf =
     (if i + 64 \<le> n then
        quantize8_avx512_loop (i + 64) n (store_at i (swap_block (take 64 (drop i buf))) buf)
      else (i, buf))"
  by pat_completeness auto
termination
  by (relation "measure (\<lambda>(i, n, _). n - i)") auto

definition quantize8_avx512 :: "bytes \<Rightarrow> nat \<Rightarrow> bytes" where
  "quantize8_avx512 buf n =
     (let (i, buf') = quantize8_avx512_loop 0 n buf
      in take i buf' @ quantize8_scalar (drop i buf') (n - i))"

text \<open>
  \<^verbatim>\<open>_mm512_srai_epi16(x, 4)\<close> is an arithmetic shift of each lane; the byte mask keeps the upper
  nibble of every input byte.
\<close>

definition nibble_block :: "bytes \<Rightarrow> bytes" where
  "nibble_block bs =
     map (\<lambda>b. b AND 0x0f) (map_lanes (signed_drop_bit 4) (map (\<lambda>b. b XOR 0x80) bs))"

function nibble_loop :: "nat \<Rightarrow> bytes \<Rightarrow> bytes" where
  "nibble_loop i nibbles =
     (if i < 64 then
        nibble_loop (i + 2)
          (nibbles[i div 2 := nibbles ! (i + 1) OR push_bit 4 (nibbles ! i)])
      else nibbles)"
  by pat_completeness auto
termination
  by (relation "measure (\<lambda>(i, _). 64 - i)") auto

function quantize4_avx512_loop :: "nat \<Rightarrow> nat \<Rightarrow> nat \<Rightarrow> bytes \<Rightarrow> nat \<times> nat \<times> bytes" where
  "quantize4_avx512_loop i out n buf =
     (if i + 64 \<le> n then
        quantize4_avx512_loop (i + 64) (out + 32) n
          (store_at out (take 32 (nibble_loop 0 (nibble_block (take 64 (drop i buf))))) buf)
      else (i, out, buf))"
  by pat_completeness auto
termination
  by (relation "measure (\<lambda>(i, out, n, _). n - i)") auto

definition quantize4_avx512 :: "bytes \<Rightarrow> nat \<Rightarrow> bytes" where
  "quantize4_avx512 buf n =
     (let (i, out, buf') = quantize4_avx512_loop 0 0 n buf
      in snd (snd (quantize4_loop i out n buf')))"

text \<open>The dispatchers; \<open>avx512\<close> is the answer of the CPU feature test.\<close>

definition quantize8 :: "bool \<Rightarrow> bytes \<Rightarrow> nat \<Rightarrow> bytes" where
  "quantize8 avx512 buf n = (if avx512 then quantize8_avx512 buf n else quantize8_scalar buf n)"

definition quantize4 :: "bool \<Rightarrow> bytes \<Rightarrow> nat \<Rightarrow> bytes" where
  "quantize4 avx512 buf n = (if avx512 then quantize4_avx512 buf n else quantize4_scalar buf n)"

definition pack_quad :: "u8 \<Rightarrow> u8 \<Rightarrow> u8 \<Rightarrow> u8 \<Rightarrow> u8" where
  "pack_quad b0 b1 b2 b3 =
     (let q0 = drop_bit 6 (b0 XOR 0x80); i0 = drop_bit 6 (b1 XOR 0x80);
          q1 = drop_bit 6 (b2 XOR 0x80); i1 = drop_bit 6 (b3 XOR 0x80)
      in i0 OR push_bit 2 q0 OR push_bit 4 i1 OR push_bit 6 q1)"

function quantize2_loop :: "nat \<Rightarrow> nat \<Rightarrow> nat \<Rightarrow> bytes \<Rightarrow> nat \<times> nat \<times> bytes" where
  "quantize2_loop i out n buf =
     (if i + 3 < n then
        quantize2_loop (i + 4) (out + 1) n
          (buf[out := pack_quad (buf ! i) (buf ! (i + 1)) (buf ! (i + 2)) (buf ! (i + 3))])
      else (i, out, buf))"
  by pat_completeness auto
termination
  by (relation "measure (\<lambda>(i, out, n, _). n - i)") auto

definition quantize2 :: "bytes \<Rightarrow> nat \<Rightarrow> bytes" where
  "quantize2 buf n = snd (snd (quantize2_loop 0 0 n buf))"

declare quantize8_loop.simps [simp del] quantize4_loop.simps [simp del]
  quantize8_avx512_loop.simps [simp del] nibble_loop.simps [simp del]
  quantize4_avx512_loop.simps [simp del] quantize2_loop.simps [simp del]

section \<open>Packing groups: the reference and the contract of the loops\<close>

primrec pack_groups :: "nat \<Rightarrow> (bytes \<Rightarrow> bytes) \<Rightarrow> nat \<Rightarrow> bytes \<Rightarrow> bytes" where
  "pack_groups k f 0 bs = []"
| "pack_groups k f (Suc c) bs = f (take k bs) @ pack_groups k f c (drop k bs)"

lemma length_pack_groups:
  assumes "\<And>xs. length xs = k \<Longrightarrow> length (f xs) = m" "c * k \<le> length bs"
  shows "length (pack_groups k f c bs) = c * m"
  using assms(2) by (induction c arbitrary: bs) (simp_all add: assms(1))

lemma pack_groups_add:
  "pack_groups k f (c + d) bs = pack_groups k f c bs @ pack_groups k f d (drop (c * k) bs)"
  by (induction c arbitrary: bs) (simp_all add: drop_drop add.commute)

lemma pack_groups_take:
  "c * k \<le> n \<Longrightarrow> pack_groups k f c (take n bs) = pack_groups k f c bs"
proof (induction c arbitrary: n bs)
  case (Suc c)
  then have "k \<le> n" "c * k \<le> n - k" by simp_all
  with Suc.IH [of "n - k" "drop k bs"] show ?case
    by (simp add: drop_take min_absorb1)
qed simp

locale in_place_pack =
  fixes k m :: nat and f :: "bytes \<Rightarrow> bytes"
    and loop :: "nat \<Rightarrow> nat \<Rightarrow> nat \<Rightarrow> bytes \<Rightarrow> nat \<times> nat \<times> bytes"
  assumes sizes: "0 < m" "m \<le> k"
    and length_f: "length xs = k \<Longrightarrow> length (f xs) = m"
    and loop_unfold: "n \<le> length buf \<Longrightarrow> out \<le> i \<Longrightarrow> loop i out n buf =
      (if i + k \<le> n then loop (i + k) (out + m) n (store_at out (f (take k (drop i buf))) buf)
       else (i, out, buf))"
begin

text \<open>
  The loop packs all complete groups, leaves everything after its write position unchanged, and
  never reads a byte it has already overwritten.
\<close>

lemma loop_result:
  assumes "n \<le> length buf" "out \<le> i" "i \<le> n"
  shows "loop i out n buf =
    (let c = (n - i) div k
     in (i + c * k, out + c * m,
         take out buf @ pack_groups k f c (drop i buf) @ drop (out + c * m) buf))"
  using assms
proof (induction "n - i" arbitrary: i out buf rule: less_induct)
  case less
  show ?case
  proof (cases "i + k \<le> n")
    case False
    then have "(n - i) div k = 0" using sizes by simp
    with False less.prems show ?thesis by (simp add: loop_unfold)
  next
    case True
    let ?g = "f (take k (drop i buf))"
    let ?b = "store_at out ?g buf"
    have lg: "length ?g = m" using True less.prems by (intro length_f) simp
    have lb: "length ?b = length buf"
      using lg less.prems True sizes by (simp add: store_at_def)
    have kpos: "0 < k" using sizes by linarith
    define c where "c = (n - (i + k)) div k"
    have c: "(n - i) div k = Suc c"
    proof -
      have "(n - i) div k = Suc ((n - i - k) div k)"
        using True kpos by (intro le_div_geq) simp_all
      then show ?thesis by (simp add: c_def diff_diff_add)
    qed
    have d: "drop j ?b = drop j buf" if "out + m \<le> j" for j
      using that lg less.prems True by (simp add: store_at_def)
    have t: "take (out + m) ?b = take out buf @ ?g"
      using lg less.prems True by (simp add: store_at_def)
    have "loop (i + k) (out + m) n ?b =
      (i + k + c * k, out + m + c * m,
       take (out + m) ?b @ pack_groups k f c (drop (i + k) ?b) @ drop (out + m + c * m) ?b)"
      unfolding c_def using less.prems True sizes kpos lb
      by (subst less.hyps) (simp_all add: Let_def)
    also have "\<dots> = (i + Suc c * k, out + Suc c * m,
       take out buf @ pack_groups k f (Suc c) (drop i buf) @ drop (out + Suc c * m) buf)"
      unfolding t using less.prems sizes by (simp add: d drop_drop algebra_simps)
    finally show ?thesis
      using less.prems True by (simp add: loop_unfold c Let_def)
  qed
qed

end

section \<open>The packing loops meet the contract\<close>

lemma take_drop_pair:
  "i + 2 \<le> length buf \<Longrightarrow> take 2 (drop i buf) = [buf ! i, buf ! (i + 1)]"
  by (simp add: numeral_2_eq_2 take_Suc_conv_app_nth)

lemma take_drop_quad:
  "i + 4 \<le> length buf \<Longrightarrow>
     take 4 (drop i buf) = [buf ! i, buf ! (i + 1), buf ! (i + 2), buf ! (i + 3)]"
  by (simp add: eval_nat_numeral take_Suc_conv_app_nth)

lemma store_at_one: "out < length buf \<Longrightarrow> store_at out [b] buf = buf[out := b]"
  by (simp add: store_at_def upd_conv_take_nth_drop)

definition pack_pair_list :: "bytes \<Rightarrow> bytes" where
  "pack_pair_list bs = [pack_pair (bs ! 0) (bs ! 1)]"

definition pack_quad_list :: "bytes \<Rightarrow> bytes" where
  "pack_quad_list bs = [pack_quad (bs ! 0) (bs ! 1) (bs ! 2) (bs ! 3)]"

interpretation q4: in_place_pack 2 1 pack_pair_list quantize4_loop
proof unfold_locales
  fix n out i :: nat and buf :: bytes
  assume "n \<le> length buf" "out \<le> i"
  then show "quantize4_loop i out n buf =
      (if i + 2 \<le> n
       then quantize4_loop (i + 2) (out + 1) n
              (store_at out (pack_pair_list (take 2 (drop i buf))) buf)
       else (i, out, buf))"
    by (subst quantize4_loop.simps)
      (simp add: take_drop_pair pack_pair_list_def store_at_one)
qed (simp_all add: pack_pair_list_def)

interpretation q2: in_place_pack 4 1 pack_quad_list quantize2_loop
proof unfold_locales
  fix n out i :: nat and buf :: bytes
  assume "n \<le> length buf" "out \<le> i"
  then show "quantize2_loop i out n buf =
      (if i + 4 \<le> n
       then quantize2_loop (i + 4) (out + 1) n
              (store_at out (pack_quad_list (take 4 (drop i buf))) buf)
       else (i, out, buf))"
    by (subst quantize2_loop.simps)
      (simp add: take_drop_quad pack_quad_list_def store_at_one)
qed (simp_all add: pack_quad_list_def)

text \<open>The nibble loop is the pair packing of a 64-byte block, with write position \<open>i div 2\<close>.\<close>

definition join_nibbles :: "bytes \<Rightarrow> bytes" where
  "join_nibbles bs = [bs ! 1 OR push_bit 4 (bs ! 0)]"

lemma nibble_loop_result:
  assumes "length nib = 64" "i = 2 * j" "j \<le> 32"
  shows "nibble_loop i nib =
    take j nib @ pack_groups 2 join_nibbles (32 - j) (drop i nib) @ drop 32 nib"
  using assms
proof (induction "32 - j" arbitrary: i j nib)
  case 0
  then show ?case by (simp add: nibble_loop.simps [of 64 nib])
next
  case (Suc c)
  let ?x = "nib ! (i + 1) OR push_bit 4 (nib ! i)"
  from Suc.hyps(2) Suc.prems have j: "j < 32" "32 - j = Suc (32 - Suc j)" by simp_all
  have "nibble_loop i nib = nibble_loop (i + 2) (nib[j := ?x])"
    using Suc.prems j(1) by (subst nibble_loop.simps) simp
  also have "\<dots> = take (Suc j) (nib[j := ?x])
      @ pack_groups 2 join_nibbles (32 - Suc j) (drop (i + 2) (nib[j := ?x]))
      @ drop 32 (nib[j := ?x])"
    using Suc.hyps(2) Suc.prems j(1) by (intro Suc.hyps(1)) simp_all
  also have "take (Suc j) (nib[j := ?x]) = take j nib @ [?x]"
    using Suc.prems j(1) by (simp add: take_Suc_conv_app_nth)
  also have "[?x] = join_nibbles (take 2 (drop i nib))"
    using Suc.prems j(1) by (simp add: join_nibbles_def take_drop_pair)
  finally show ?case
    using Suc.prems j by (simp add: drop_drop)
qed

section \<open>Lanes\<close>

lemma swap_lane:
  "ucast (push_bit 8 (lane_of lo hi) OR drop_bit 8 (lane_of lo hi)) = hi"
  "ucast (drop_bit 8 (push_bit 8 (lane_of lo hi) OR drop_bit 8 (lane_of lo hi))) = lo"
  unfolding lane_of_def by (rule bit_word_eqI; auto simp: bit_simps dest: bit_imp_le_length)+

lemma swap_lane_high: "ucast (drop_bit 8 (push_bit 8 (lane_of lo hi))) = lo"
  unfolding lane_of_def by (rule bit_word_eqI) (auto simp: bit_simps dest: bit_imp_le_length)

lemma nibble_lane:
  "ucast (signed_drop_bit 4 (lane_of lo hi)) AND (0x0f :: u8) = drop_bit 4 lo"
  "ucast (drop_bit 8 (signed_drop_bit 4 (lane_of lo hi))) AND (0x0f :: u8) = drop_bit 4 hi"
proof -
  have m: "(0x0f :: u8) = mask 4" by (simp add: mask_eq_exp_minus_1)
  show "ucast (signed_drop_bit 4 (lane_of lo hi)) AND (0x0f :: u8) = drop_bit 4 lo"
    unfolding m lane_of_def
    by (rule bit_word_eqI) (auto simp: bit_simps dest: bit_imp_le_length)
  show "ucast (drop_bit 8 (signed_drop_bit 4 (lane_of lo hi))) AND (0x0f :: u8) = drop_bit 4 hi"
    unfolding m lane_of_def
    by (rule bit_word_eqI) (auto simp: bit_simps dest: bit_imp_le_length)
qed

section \<open>Eight bits: the scalar and the vector routine\<close>

fun swap8 :: "bytes \<Rightarrow> bytes" where
  "swap8 (q # p # bs) = (p XOR 0x80) # (q XOR 0x80) # swap8 bs"
| "swap8 [q] = [q XOR 0x80]"
| "swap8 [] = []"

lemma length_swap8 [simp]: "length (swap8 bs) = length bs"
  by (induction bs rule: swap8.induct) simp_all

lemma swap8_append: "even (length xs) \<Longrightarrow> swap8 (xs @ ys) = swap8 xs @ swap8 ys"
  by (induction xs rule: swap8.induct) auto

lemma swap_block_swap8: "even (length bs) \<Longrightarrow> swap_block bs = swap8 bs"
  by (induction bs rule: swap8.induct) (auto simp: swap_block_def swap_lane swap_lane_high)

lemma quantize8_loop_result:
  assumes "i \<le> n" "n \<le> length buf"
  shows "quantize8_loop i n buf = take i buf @ swap8 (take (n - i) (drop i buf)) @ drop n buf"
  using assms
proof (induction i n buf rule: quantize8_loop.induct)
  case (1 i n buf)
  let ?b = "buf[i := buf ! (i + 1) XOR 0x80, i + 1 := buf ! i XOR 0x80]"
  consider (pair) "i + 1 < n" | (odd) "n = i + 1" | (finished) "n = i" using "1.prems" by linarith
  then show ?case
  proof cases
    case pair
    then have IH: "quantize8_loop (i + 2) n ?b =
        take (i + 2) ?b @ swap8 (take (n - (i + 2)) (drop (i + 2) ?b)) @ drop n ?b"
      using "1.IH" "1.prems" by simp
    have "take (i + 2) ?b = take i buf @ [buf ! (i + 1) XOR 0x80, buf ! i XOR 0x80]"
      using pair "1.prems" by (simp add: take_Suc_conv_app_nth)
    moreover have "drop i buf = buf ! i # buf ! (i + 1) # drop (i + 2) buf"
      using pair "1.prems" by (simp add: Cons_nth_drop_Suc)
    moreover have "n - i = Suc (Suc (n - (i + 2)))" using pair by simp
    ultimately show ?thesis
      using pair IH "1.prems" by (subst quantize8_loop.simps) (simp add: Let_def)
  next
    case odd
    then have "drop i buf = buf ! i # drop n buf" using "1.prems" by (simp add: Cons_nth_drop_Suc)
    with odd "1.prems" show ?thesis
      by (subst quantize8_loop.simps) (simp add: upd_conv_take_nth_drop)
  next
    case finished
    then show ?thesis by (subst quantize8_loop.simps) simp
  qed
qed

lemma quantize8_avx512_loop_result:
  assumes "i \<le> n" "n \<le> length buf"
  shows "\<exists>c. i + 64 * c \<le> n \<and> quantize8_avx512_loop i n buf =
    (i + 64 * c, take i buf @ swap8 (take (64 * c) (drop i buf)) @ drop (i + 64 * c) buf)"
  using assms
proof (induction i n buf rule: quantize8_avx512_loop.induct)
  case (1 i n buf)
  show ?case
  proof (cases "i + 64 \<le> n")
    case False
    then have "quantize8_avx512_loop i n buf = (i, buf)" by (subst quantize8_avx512_loop.simps) simp
    then show ?thesis using "1.prems" by (intro exI [of _ 0]) simp
  next
    case True
    let ?s = "swap8 (take 64 (drop i buf))"
    let ?b = "store_at i ?s buf"
    have sb: "swap_block (take 64 (drop i buf)) = ?s"
      using True "1.prems" by (intro swap_block_swap8) simp
    have len: "length ?s = 64" using True "1.prems" by simp
    then have lb: "length ?b = length buf" "take (i + 64) ?b = take i buf @ ?s"
      "\<And>j. i + 64 \<le> j \<Longrightarrow> drop j ?b = drop j buf"
      using True "1.prems" by (simp_all add: store_at_def)
    from "1.IH" [OF True] lb(1) "1.prems" True obtain c where c: "i + 64 + 64 * c \<le> n"
      "quantize8_avx512_loop (i + 64) n ?b = (i + 64 + 64 * c,
         take (i + 64) ?b @ swap8 (take (64 * c) (drop (i + 64) ?b)) @ drop (i + 64 + 64 * c) ?b)"
      unfolding sb by auto
    have "take (64 * Suc c) (drop i buf) = take 64 (drop i buf) @ take (64 * c) (drop (i + 64) buf)"
      using take_add [of 64 "64 * c" "drop i buf"] by (simp add: add.commute)
    moreover have "even (length (take 64 (drop i buf)))" using True "1.prems" by simp
    ultimately have sw: "swap8 (take (64 * Suc c) (drop i buf))
        = ?s @ swap8 (take (64 * c) (drop (i + 64) buf))"
      by (simp add: swap8_append)
    have "quantize8_avx512_loop i n buf = (i + 64 * Suc c,
       take i buf @ swap8 (take (64 * Suc c) (drop i buf)) @ drop (i + 64 * Suc c) buf)"
      unfolding sw using True c(2) lb by (subst quantize8_avx512_loop.simps) (simp add: sb add.assoc)
    with c(1) show ?thesis by (intro exI [of _ "Suc c"]) simp
  qed
qed

lemma quantize8_avx512_scalar:
  assumes "n \<le> length buf"
  shows "quantize8_avx512 buf n = quantize8_scalar buf n"
proof -
  obtain c where c: "64 * c \<le> n" "quantize8_avx512_loop 0 n buf =
      (64 * c, swap8 (take (64 * c) buf) @ drop (64 * c) buf)"
    using quantize8_avx512_loop_result [of 0 n buf] assms by auto
  let ?b = "swap8 (take (64 * c) buf) @ drop (64 * c) buf"
  have len: "length (swap8 (take (64 * c) buf)) = 64 * c" using c(1) assms by simp
  have "quantize8_avx512 buf n = swap8 (take (64 * c) buf)
      @ swap8 (take (n - 64 * c) (drop (64 * c) buf)) @ drop n buf"
    using c assms len
    by (simp add: quantize8_avx512_def quantize8_scalar_def quantize8_loop_result)
  also have "\<dots> = swap8 (take (64 * c) buf @ take (n - 64 * c) (drop (64 * c) buf)) @ drop n buf"
    using c assms by (simp add: swap8_append)
  also have "take (64 * c) buf @ take (n - 64 * c) (drop (64 * c) buf) = take n buf"
    using c(1) by (simp flip: take_add)
  finally show ?thesis
    using assms by (simp add: quantize8_scalar_def quantize8_loop_result)
qed

section \<open>Four bits: the scalar and the vector routine\<close>

lemma shifted_nibble: "push_bit 4 (drop_bit 4 x) = x AND NOT (mask 4)" for x :: u8
  by (rule bit_word_eqI) (auto simp: bit_simps)

lemma pack_pair_nibbles:
  "drop_bit 4 (p XOR 0x80) OR push_bit 4 (drop_bit 4 (q XOR 0x80)) = pack_pair q p"
proof -
  have "(0xf0 :: u8) = NOT (mask 4)" by (simp add: mask_eq_exp_minus_1)
  then show ?thesis by (simp only: pack_pair_def shifted_nibble)
qed

lemma nibble_block_pack:
  "length bs = 2 * c \<Longrightarrow>
     pack_groups 2 join_nibbles c (nibble_block bs) = pack_groups 2 pack_pair_list c bs
     \<and> length (nibble_block bs) = 2 * c"
proof (induction c arbitrary: bs)
  case 0
  then show ?case by (simp add: nibble_block_def)
next
  case (Suc c)
  then obtain q p r where bs: "bs = q # p # r" "length r = 2 * c"
    by (cases bs; cases "tl bs") auto
  have nb: "nibble_block (q # p # r) =
      drop_bit 4 (q XOR 0x80) # drop_bit 4 (p XOR 0x80) # nibble_block r"
    by (simp only: nibble_block_def list.map map_lanes.simps nibble_lane)
  have hd: "join_nibbles [drop_bit 4 (q XOR 0x80), drop_bit 4 (p XOR 0x80)] = pack_pair_list [q, p]"
    by (simp only: join_nibbles_def pack_pair_list_def nth_Cons_0 One_nat_def nth_Cons_Suc
        pack_pair_nibbles)
  from Suc.IH [OF bs(2)] show ?case
    unfolding bs(1) nb using hd by simp
qed

lemma vector_block_pack:
  assumes "length bs = 64"
  shows "take 32 (nibble_loop 0 (nibble_block bs)) = pack_groups 2 pack_pair_list 32 bs"
proof -
  have nb: "pack_groups 2 join_nibbles 32 (nibble_block bs) = pack_groups 2 pack_pair_list 32 bs"
    "length (nibble_block bs) = 64"
    using nibble_block_pack [of bs 32] assms by simp_all
  have "length (pack_groups 2 pack_pair_list 32 bs) = 32 * 1"
    using assms by (intro length_pack_groups) (simp_all add: pack_pair_list_def)
  with nb show ?thesis by (simp add: nibble_loop_result [of _ 0 0])
qed

interpretation v4: in_place_pack 64 32 "\<lambda>bs. take 32 (nibble_loop 0 (nibble_block bs))"
  quantize4_avx512_loop
proof unfold_locales
  fix xs :: bytes
  assume "length xs = 64"
  then show "length (take 32 (nibble_loop 0 (nibble_block xs))) = 32"
    using length_pack_groups [of 2 pack_pair_list 1 32 xs]
    by (simp add: vector_block_pack pack_pair_list_def)
next
  fix n out i :: nat and buf :: bytes
  show "quantize4_avx512_loop i out n buf =
      (if i + 64 \<le> n
       then quantize4_avx512_loop (i + 64) (out + 32) n
          (store_at out (take 32 (nibble_loop 0 (nibble_block (take 64 (drop i buf))))) buf)
       else (i, out, buf))"
    by (rule quantize4_avx512_loop.simps)
qed simp_all

lemma vector_groups:
  "64 * c \<le> length bs \<Longrightarrow>
     pack_groups 64 (\<lambda>bs. take 32 (nibble_loop 0 (nibble_block bs))) c bs
     = pack_groups 2 pack_pair_list (32 * c) bs"
proof (induction c arbitrary: bs)
  case (Suc c)
  then show ?case
    using pack_groups_add [of 2 pack_pair_list 32 "32 * c" bs]
    by (simp add: vector_block_pack pack_groups_take)
qed simp

lemma quantize4_scalar_result:
  assumes "n \<le> length buf"
  shows "quantize4_scalar buf n = pack_groups 2 pack_pair_list (n div 2) buf @ drop (n div 2) buf"
  using assms by (simp add: quantize4_scalar_def q4.loop_result Let_def)

lemma quantize4_avx512_scalar:
  assumes "n \<le> length buf"
  shows "quantize4_avx512 buf n = quantize4_scalar buf n"
proof -
  define c where "c = n div 64"
  have c: "64 * c \<le> n" by (simp add: c_def)
  let ?P = "pack_groups 2 pack_pair_list"
  have lp: "length (?P k buf) = k" if "k * 2 \<le> n" for k
    using length_pack_groups [of 2 pack_pair_list 1 k buf] that assms
    by (simp add: pack_pair_list_def)
  have "quantize4_avx512_loop 0 0 n buf =
      (64 * c, 32 * c, ?P (32 * c) buf @ drop (32 * c) buf)"
    using assms c by (simp add: v4.loop_result Let_def c_def vector_groups mult.commute)
  moreover have "drop (64 * c) (?P (32 * c) buf @ drop (32 * c) buf) = drop (64 * c) buf"
    using lp [of "32 * c"] c by simp
  moreover have "32 * c + (n - 64 * c) div 2 = n div 2"
  proof -
    from c obtain m where "n = m + 32 * c * 2" using le_Suc_ex [of "64 * c" n] by auto
    then show ?thesis by simp
  qed
  ultimately show ?thesis
    using assms c lp [of "32 * c"] pack_groups_add [of 2 pack_pair_list "32 * c" "(n - 64 * c) div 2" buf]
    by (simp add: quantize4_avx512_def q4.loop_result Let_def quantize4_scalar_result
        drop_drop mult.commute add.commute)
qed

section \<open>Sample values\<close>

text \<open>
  An input byte is offset binary: it stands for its value minus 128. A VDIF reader takes component
  \<open>j\<close> of a byte packed with \<open>b\<close> bits per component as a two's-complement field.
\<close>

definition input_value :: "u8 \<Rightarrow> int" where
  "input_value x = uint x - 128"

definition component :: "nat \<Rightarrow> nat \<Rightarrow> u8 \<Rightarrow> int" where
  "component b j w = signed_take_bit (b - 1) (uint (drop_bit (b * j) w))"

lemma flip_sign_add: "(x XOR 0x80) + 0x80 = x" for x :: u8
proof -
  have "x XOR 0x80 = flip_bit 7 x" by (simp add: flip_bit_eq_xor)
  then have "x XOR 0x80 = (if bit x 7 then x - 128 else x + 128)"
    by (simp add: flip_bit_eq_if set_bit_eq unset_bit_eq)
  moreover have "x + 128 + 128 = x"
    by (simp add: add.assoc)
  ultimately show ?thesis by simp
qed

lemma sint_flip_sign: "sint (x XOR 0x80) = input_value x" for x :: u8
proof -
  have "uint ((x XOR 0x80) + 0x80) = (uint (x XOR 0x80) + 128) mod 256"
    by (simp add: uint_word_ariths)
  then have "uint x = (uint (x XOR 0x80) + 128) mod 256" by (simp only: flip_sign_add)
  moreover have "sint (x XOR 0x80) = (uint (x XOR 0x80) + 128) mod 256 - 128"
    by (simp add: sint_uint signed_take_bit_eq_take_bit_shift take_bit_eq_mod)
  ultimately show ?thesis by (simp add: input_value_def)
qed

lemma component_8: "component 8 0 w = sint w"
  by (simp add: component_def sint_uint)

lemma component_nibbles:
  fixes x y :: u8
  shows "component 4 0 (drop_bit 4 x OR push_bit 4 (drop_bit 4 y)) = drop_bit 4 (sint x)"
    and "component 4 1 (drop_bit 4 x OR push_bit 4 (drop_bit 4 y)) = drop_bit 4 (sint y)"
  unfolding component_def by (rule bit_eqI; auto simp: bit_simps min_def)+

lemma component_quads:
  fixes x y z w :: u8
  defines "v \<equiv> drop_bit 6 x OR push_bit 2 (drop_bit 6 y) OR push_bit 4 (drop_bit 6 z)
      OR push_bit 6 (drop_bit 6 w)"
  shows "component 2 0 v = drop_bit 6 (sint x)" "component 2 1 v = drop_bit 6 (sint y)"
    "component 2 2 v = drop_bit 6 (sint z)" "component 2 3 v = drop_bit 6 (sint w)"
  unfolding component_def v_def
  by (rule bit_eqI; auto simp: bit_simps min_def dest: bit_imp_le_length)+

lemma component_pack_pair:
  "component 4 0 (pack_pair q p) = input_value p div 16"
  "component 4 1 (pack_pair q p) = input_value q div 16"
  unfolding pack_pair_nibbles [symmetric] component_nibbles sint_flip_sign
  by (simp_all add: drop_bit_eq_div)

lemma component_pack_quad:
  "component 2 0 (pack_quad q0 i0 q1 i1) = input_value i0 div 64"
  "component 2 1 (pack_quad q0 i0 q1 i1) = input_value q0 div 64"
  "component 2 2 (pack_quad q0 i0 q1 i1) = input_value i1 div 64"
  "component 2 3 (pack_quad q0 i0 q1 i1) = input_value q1 div 64"
  unfolding pack_quad_def Let_def component_quads sint_flip_sign
  by (simp_all add: drop_bit_eq_div)

lemma swap8_nth:
  "2 * k + 1 < length bs \<Longrightarrow> swap8 bs ! (2 * k) = bs ! (2 * k + 1) XOR 0x80
     \<and> swap8 bs ! (2 * k + 1) = bs ! (2 * k) XOR 0x80"
proof (induction bs arbitrary: k rule: swap8.induct)
  case (1 q p bs)
  then show ?case by (cases k) simp_all
qed simp_all

lemma pack_groups_nth:
  assumes "\<And>xs. length xs = k \<Longrightarrow> length (f xs) = 1" "j < c" "c * k \<le> length bs"
  shows "pack_groups k f c bs ! j = f (take k (drop (j * k) bs)) ! 0"
  using assms(2,3)
proof (induction c arbitrary: j bs)
  case (Suc c)
  have "length (f (take k bs)) = 1" using Suc.prems by (intro assms(1)) simp
  then obtain y where y: "f (take k bs) = [y]" by (auto simp: length_Suc_conv)
  show ?case
  proof (cases j)
    case (Suc i)
    with Suc.IH [of i "drop k bs"] Suc.prems y show ?thesis by (simp add: drop_drop add.commute)
  qed (simp add: y)
qed simp

section \<open>Properties\<close>

text \<open>
  C28. \<^verbatim>\<open>quantize8\<close> on a buffer of at least \<open>n\<close> bytes exchanges each Q,I pair to I,Q and turns offset
  binary into two's complement: read as signed bytes, the output holds the input values; bytes
  from \<open>n\<close> on are unchanged. The AVX-512 and the scalar path give the same buffer.
\<close>

theorem quantize8_samples:
  assumes "n \<le> length buf"
  shows "quantize8 True buf n = quantize8 False buf n
    \<and> length (quantize8 avx buf n) = length buf
    \<and> (\<forall>k. 2 * k + 1 < n \<longrightarrow>
          component 8 0 (quantize8 avx buf n ! (2 * k)) = input_value (buf ! (2 * k + 1))
        \<and> component 8 0 (quantize8 avx buf n ! (2 * k + 1)) = input_value (buf ! (2 * k)))
    \<and> drop n (quantize8 avx buf n) = drop n buf"
proof -
  have eq: "quantize8 a buf n = swap8 (take n buf) @ drop n buf" for a
    using assms by (simp add: quantize8_def quantize8_avx512_scalar quantize8_scalar_def
        quantize8_loop_result)
  have "component 8 0 ((swap8 (take n buf) @ drop n buf) ! (2 * k)) = input_value (buf ! (2 * k + 1))
      \<and> component 8 0 ((swap8 (take n buf) @ drop n buf) ! (2 * k + 1)) = input_value (buf ! (2 * k))"
    if "2 * k + 1 < n" for k
    using that assms swap8_nth [of k "take n buf"]
    by (simp add: nth_append component_8 sint_flip_sign)
  then show ?thesis using assms by (simp add: eq)
qed

theorem quantize8_samples_witness:
  "component 8 0 (quantize8 True [0x00, 0x7f, 0x80, 0xff] 4 ! 0) = - 1"
  using quantize8_samples [of 4 "[0x00, 0x7f, 0x80, 0xff]" True]
  by (auto simp: input_value_def dest: spec [of _ 0])

text \<open>
  C29. \<^verbatim>\<open>quantize4\<close> packs the \<open>n div 2\<close> complete Q,I pairs into the first \<open>n div 2\<close> bytes, I in the
  low and Q in the high nibble, each the input value divided by 16 (rounded down) as a signed
  nibble, and leaves the rest of the buffer as it was; although it works in place, no input is
  overwritten before it is read, and the AVX-512 path agrees with the scalar path on every byte.
\<close>

theorem quantize4_samples:
  assumes "n \<le> length buf"
  shows "quantize4 True buf n = quantize4 False buf n
    \<and> (\<forall>k. k < n div 2 \<longrightarrow>
          component 4 0 (quantize4 avx buf n ! k) = input_value (buf ! (2 * k + 1)) div 16
        \<and> component 4 1 (quantize4 avx buf n ! k) = input_value (buf ! (2 * k)) div 16)
    \<and> drop (n div 2) (quantize4 avx buf n) = drop (n div 2) buf"
proof -
  let ?P = "pack_groups 2 pack_pair_list (n div 2) buf"
  have eq: "quantize4 a buf n = ?P @ drop (n div 2) buf" for a
    using assms by (simp add: quantize4_def quantize4_avx512_scalar quantize4_scalar_result)
  have len: "length ?P = n div 2"
    using assms length_pack_groups [of 2 pack_pair_list 1 "n div 2" buf]
    by (simp add: pack_pair_list_def)
  have "?P ! k = pack_pair (buf ! (2 * k)) (buf ! (2 * k + 1))" if "k < n div 2" for k
  proof -
    have "?P ! k = pack_pair_list (take 2 (drop (k * 2) buf)) ! 0"
      using that assms by (intro pack_groups_nth) (simp_all add: pack_pair_list_def)
    then show ?thesis
      using that assms by (simp add: take_drop_pair pack_pair_list_def mult.commute)
  qed
  then show ?thesis by (simp add: eq len nth_append component_pack_pair
        component_pack_pair(2) [unfolded One_nat_def])
qed

theorem quantize4_samples_witness:
  "component 4 0 (quantize4 True [0x00, 0x10, 0xa0, 0xf0] 4 ! 1) = 7"
  using quantize4_samples [of 4 "[0x00, 0x10, 0xa0, 0xf0]" True]
  by (auto simp: input_value_def dest: spec [of _ 1])

text \<open>
  \<^verbatim>\<open>quantize2\<close> packs each complete group Q0,I0,Q1,I1 into one byte, fields I0, Q0, I1, Q1 from
  the least significant bits up, each the input value divided by 64 as a signed two-bit number;
  the rest of the buffer is unchanged.
\<close>

theorem quantize2_samples:
  assumes "n \<le> length buf"
  shows "(\<forall>k. k < n div 4 \<longrightarrow>
          component 2 0 (quantize2 buf n ! k) = input_value (buf ! (4 * k + 1)) div 64
        \<and> component 2 1 (quantize2 buf n ! k) = input_value (buf ! (4 * k)) div 64
        \<and> component 2 2 (quantize2 buf n ! k) = input_value (buf ! (4 * k + 3)) div 64
        \<and> component 2 3 (quantize2 buf n ! k) = input_value (buf ! (4 * k + 2)) div 64)
    \<and> drop (n div 4) (quantize2 buf n) = drop (n div 4) buf"
proof -
  let ?P = "pack_groups 4 pack_quad_list (n div 4) buf"
  have eq: "quantize2 buf n = ?P @ drop (n div 4) buf"
    using assms by (simp add: quantize2_def q2.loop_result Let_def)
  have len: "length ?P = n div 4"
    using assms length_pack_groups [of 4 pack_quad_list 1 "n div 4" buf]
    by (simp add: pack_quad_list_def)
  have "?P ! k = pack_quad (buf ! (4 * k)) (buf ! (4 * k + 1)) (buf ! (4 * k + 2)) (buf ! (4 * k + 3))"
    if "k < n div 4" for k
  proof -
    have "?P ! k = pack_quad_list (take 4 (drop (k * 4) buf)) ! 0"
      using that assms by (intro pack_groups_nth) (simp_all add: pack_quad_list_def)
    then show ?thesis
      using that assms by (simp add: take_drop_quad pack_quad_list_def mult.commute)
  qed
  then show ?thesis by (simp add: eq len nth_append component_pack_quad
        component_pack_quad(2) [unfolded One_nat_def])
qed

theorem quantize2_samples_witness:
  "component 2 0 (quantize2 [0x00, 0x40, 0x80, 0xc0] 4 ! 0) = - 1"
  using quantize2_samples [of 4 "[0x00, 0x40, 0x80, 0xc0]"]
  by (auto simp: input_value_def dest: spec [of _ 0])

end
