(* ===== verification/Spectrum_Transport.thy ===== *)
theory Spectrum_Transport
  imports SL_Prelude
begin

text \<open>
  The transport layer of result messages: the packed headers of \<^verbatim>\<open>include/SpectrumTransport.hpp\<close>
  and \<^verbatim>\<open>include/SpectrumSender.hpp\<close> as little-endian bytes, the table-driven CRC-32C, and the
  message that \<^verbatim>\<open>send_spectrum\<close> builds. Floating-point fields of the result header are carried as
  their bit patterns, as \<^verbatim>\<open>memcpy\<close> does. The reference for the checksum is the bit-serial shift
  register; the reference for the message is a receiver that validates and splits it.
\<close>

section \<open>Little-endian integers\<close>

primrec le_bytes :: "nat \<Rightarrow> 'a::len word \<Rightarrow> bytes" where
  "le_bytes 0 w = []"
| "le_bytes (Suc n) w = ucast w # le_bytes n (drop_bit 8 w)"

primrec of_le :: "bytes \<Rightarrow> 'a::len word" where
  "of_le [] = 0"
| "of_le (b # bs) = ucast b OR push_bit 8 (of_le bs)"

lemma length_le_bytes [simp]: "length (le_bytes n w) = n"
  by (induction n arbitrary: w) simp_all

lemma of_le_bytes:
  "of_le (le_bytes n w) = take_bit (8 * n) w"
proof (induction n arbitrary: w)
  case (Suc n)
  show ?case
    by (rule bit_word_eqI) (auto simp: Suc.IH bit_simps not_less)
qed simp

section \<open>Headers\<close>

record spectrum_transport_header =
  th_magic :: u32
  th_version :: u16
  th_server_id :: u16
  th_sequence :: u64
  th_message_bytes :: u32
  th_crc32c :: u32

definition SPECTRUM_TRANSPORT_MAGIC :: u32 where "SPECTRUM_TRANSPORT_MAGIC = 0x534C5A31"
definition SPECTRUM_TRANSPORT_VERSION :: u16 where "SPECTRUM_TRANSPORT_VERSION = 1"

definition new_transport_header :: spectrum_transport_header where
  "new_transport_header = \<lparr>th_magic = SPECTRUM_TRANSPORT_MAGIC,
     th_version = SPECTRUM_TRANSPORT_VERSION, th_server_id = 0, th_sequence = 0,
     th_message_bytes = 0, th_crc32c = 0\<rparr>"

definition transport_bytes :: "spectrum_transport_header \<Rightarrow> bytes" where
  "transport_bytes h = le_bytes 4 (th_magic h) @ le_bytes 2 (th_version h)
     @ le_bytes 2 (th_server_id h) @ le_bytes 8 (th_sequence h)
     @ le_bytes 4 (th_message_bytes h) @ le_bytes 4 (th_crc32c h)"

record spectrum_header =
  magic :: u32
  version :: u16
  timestamp_ns :: u64
  obs_id :: u32
  integration_id :: u32
  subband_id :: u16
  window_id :: u16
  subband_start_freq :: u64
  subband_end_freq :: u64
  start_freq_hz :: u64
  channel_bw_hz :: u64
  n_channels :: u32
  stokes :: u8
  pkt_id :: u16
  total_pkt :: u16
  exposure :: u32
  noise_state :: u8
  cal_mode :: u8
  beam_id :: u8
  reserved2 :: u8
  ra :: u64
  dec :: u64
  flags :: u32
  integration_start_ns :: u64

text \<open>The packed layout, in two halves around the \<^verbatim>\<open>beam_id\<close> byte.\<close>

definition header_prefix_bytes :: "spectrum_header \<Rightarrow> bytes" where
  "header_prefix_bytes h = le_bytes 4 (magic h) @ le_bytes 2 (version h)
     @ le_bytes 8 (timestamp_ns h) @ le_bytes 4 (obs_id h) @ le_bytes 4 (integration_id h)
     @ le_bytes 2 (subband_id h) @ le_bytes 2 (window_id h) @ le_bytes 8 (subband_start_freq h)
     @ le_bytes 8 (subband_end_freq h) @ le_bytes 8 (start_freq_hz h)
     @ le_bytes 8 (channel_bw_hz h) @ le_bytes 4 (n_channels h) @ le_bytes 1 (stokes h)
     @ le_bytes 2 (pkt_id h) @ le_bytes 2 (total_pkt h) @ le_bytes 4 (exposure h)
     @ le_bytes 1 (noise_state h) @ le_bytes 1 (cal_mode h)"

definition header_suffix_bytes :: "spectrum_header \<Rightarrow> bytes" where
  "header_suffix_bytes h = le_bytes 1 (beam_id h) @ le_bytes 1 (reserved2 h)
     @ le_bytes 8 (ra h) @ le_bytes 8 (dec h) @ le_bytes 4 (flags h)
     @ le_bytes 8 (integration_start_ns h)"

definition spectrum_header_bytes :: "spectrum_header \<Rightarrow> bytes" where
  "spectrum_header_bytes h = header_prefix_bytes h @ header_suffix_bytes h"

section \<open>CRC-32C\<close>

definition crc_step :: "u32 \<Rightarrow> u32" where
  "crc_step crc = drop_bit 1 crc XOR (if crc AND 1 \<noteq> 0 then 0x82F63B78 else 0)"

text \<open>The 256-entry table built by the initialiser lambda.\<close>

definition crc_table :: "u32 list" where
  "crc_table = map (\<lambda>i. (crc_step ^^ 8) (of_nat i)) [0..<256]"

definition crc_table_step :: "u32 \<Rightarrow> u8 \<Rightarrow> u32" where
  "crc_table_step crc b = crc_table ! unat ((crc XOR ucast b) AND 0xff) XOR drop_bit 8 crc"

definition spectrum_crc32c :: "bytes \<Rightarrow> u32" where
  "spectrum_crc32c data = NOT (foldl crc_table_step 0xffffffff data)"

text \<open>Reference: the byte is added to the register and eight bits are shifted out.\<close>

definition crc_serial_step :: "u32 \<Rightarrow> u8 \<Rightarrow> u32" where
  "crc_serial_step crc b = (crc_step ^^ 8) (crc XOR ucast b)"

definition crc32c_serial :: "bytes \<Rightarrow> u32" where
  "crc32c_serial data = NOT (foldl crc_serial_step 0xffffffff data)"

section \<open>The message\<close>

text \<open>
  The message \<^verbatim>\<open>send_spectrum\<close> allocates and fills: transport header, result header, payload; the
  checksum covers the body.
\<close>

definition build_message :: "u16 \<Rightarrow> u64 \<Rightarrow> spectrum_header \<Rightarrow> bytes \<Rightarrow> bytes" where
  "build_message server sequence h payload =
     (let body = spectrum_header_bytes h @ payload;
          transport = new_transport_header\<lparr>th_server_id := server, th_sequence := sequence,
            th_message_bytes := of_nat (length body), th_crc32c := spectrum_crc32c body\<rparr>
      in transport_bytes transport @ body)"

text \<open>Reference receiver: validates magic, version, length and checksum, then splits.\<close>

record received =
  rx_server :: u16
  rx_sequence :: u64
  rx_header :: bytes
  rx_payload :: bytes

definition receive_message :: "bytes \<Rightarrow> received option" where
  "receive_message m =
     (let body = drop 24 m
      in if length m < 24 + 103 then None
         else if of_le (take 4 m) \<noteq> SPECTRUM_TRANSPORT_MAGIC then None
         else if of_le (take 2 (drop 4 m)) \<noteq> SPECTRUM_TRANSPORT_VERSION then None
         else if unat (of_le (take 4 (drop 16 m)) :: u32) \<noteq> length body then None
         else if of_le (take 4 (drop 20 m)) \<noteq> spectrum_crc32c body then None
         else Some \<lparr>rx_server = of_le (take 2 (drop 6 m)), rx_sequence = of_le (take 8 (drop 8 m)),
                    rx_header = take 103 body, rx_payload = drop 103 body\<rparr>)"

text \<open>The result header read at the byte offsets of the published format.\<close>

definition parse_header :: "bytes \<Rightarrow> spectrum_header" where
  "parse_header b =
     \<lparr>magic = of_le (take 4 b), version = of_le (take 2 (drop 4 b)),
      timestamp_ns = of_le (take 8 (drop 6 b)), obs_id = of_le (take 4 (drop 14 b)),
      integration_id = of_le (take 4 (drop 18 b)), subband_id = of_le (take 2 (drop 22 b)),
      window_id = of_le (take 2 (drop 24 b)), subband_start_freq = of_le (take 8 (drop 26 b)),
      subband_end_freq = of_le (take 8 (drop 34 b)), start_freq_hz = of_le (take 8 (drop 42 b)),
      channel_bw_hz = of_le (take 8 (drop 50 b)), n_channels = of_le (take 4 (drop 58 b)),
      stokes = of_le (take 1 (drop 62 b)), pkt_id = of_le (take 2 (drop 63 b)),
      total_pkt = of_le (take 2 (drop 65 b)), exposure = of_le (take 4 (drop 67 b)),
      noise_state = of_le (take 1 (drop 71 b)), cal_mode = of_le (take 1 (drop 72 b)),
      beam_id = of_le (take 1 (drop 73 b)), reserved2 = of_le (take 1 (drop 74 b)),
      ra = of_le (take 8 (drop 75 b)), dec = of_le (take 8 (drop 83 b)),
      flags = of_le (take 4 (drop 91 b)), integration_start_ns = of_le (take 8 (drop 95 b))\<rparr>"

section \<open>The shift register\<close>

lemma crc_step_bit: "crc AND 1 \<noteq> 0 \<longleftrightarrow> bit (crc :: u32) 0"
  by (simp add: and_one_eq bit_0 odd_iff_mod_2_eq_one)

lemma crc_step_xor: "crc_step (x XOR y) = crc_step x XOR crc_step y"
proof -
  have "drop_bit 1 (x XOR y) = drop_bit 1 x XOR drop_bit 1 y"
    by (rule bit_word_eqI) (simp add: bit_simps)
  then show ?thesis
    unfolding crc_step_def crc_step_bit bit_xor_iff
    by (auto simp: ac_simps xor.left_commute)
qed

lemma crc_steps_xor: "(crc_step ^^ n) (x XOR y) = (crc_step ^^ n) x XOR (crc_step ^^ n) y"
  by (induction n) (simp_all add: crc_step_xor)

text \<open>While only zeros leave the register, a step is a shift.\<close>

lemma crc_steps_shift:
  "take_bit n x = 0 \<Longrightarrow> (crc_step ^^ n) x = drop_bit n x"
proof (induction n)
  case (Suc n)
  have z: "\<not> bit x k" if "k < Suc n" for k
    using Suc.prems that by (metis bit_take_bit_iff bit_0_eq bot_apply bot_bool_def)
  then have "take_bit n x = 0" by (intro bit_word_eqI) (simp add: bit_simps)
  moreover have "\<not> bit (drop_bit n x) 0" using z [of n] by (simp add: bit_simps)
  ultimately show ?case
    using Suc.IH by (simp add: crc_step_def crc_step_bit drop_bit_drop_bit)
qed simp

lemma xor_right_cancel: "a XOR p = b XOR p \<Longrightarrow> a = (b :: 'a::len word)"
  by (metis xor.assoc xor.right_neutral xor_self_eq)

lemma crc_step_inj: "crc_step x = crc_step y \<Longrightarrow> x = y"
proof -
  assume eq: "crc_step x = crc_step y"
  have top: "bit (crc_step z) 31 \<longleftrightarrow> bit z 0" for z
  proof -
    have "bit (0x82F63B78 :: u32) 31" by simp
    then show ?thesis
      by (auto simp: crc_step_def crc_step_bit bit_xor_iff bit_drop_bit_eq dest: bit_imp_le_length)
  qed
  from eq top have b0: "bit x 0 \<longleftrightarrow> bit y 0" by metis
  then have "drop_bit 1 x = drop_bit 1 y"
    using eq unfolding crc_step_def crc_step_bit by (auto dest: xor_right_cancel split: if_splits)
  then have "bit (drop_bit 1 x) k = bit (drop_bit 1 y) k" for k by simp
  then have "bit x (Suc k) = bit y (Suc k)" for k by (simp add: bit_simps)
  with b0 have "bit x k = bit y k" for k by (cases k) simp_all
  then show "x = y" by (intro bit_word_eqI) simp
qed

lemma crc_steps_inj: "(crc_step ^^ n) x = (crc_step ^^ n) y \<Longrightarrow> x = y"
  by (induction n) (auto dest: crc_step_inj)

lemma crc_table_entry: "k < 256 \<Longrightarrow> crc_table ! k = (crc_step ^^ 8) (of_nat k)"
  by (simp add: crc_table_def)

lemma low_byte_split: "x = (x AND mask 8) XOR (x AND NOT (mask 8))" for x :: u32
  by (rule bit_word_eqI) (auto simp: bit_simps)

lemma crc_table_step_serial: "crc_table_step crc b = crc_serial_step crc b"
proof -
  let ?x = "crc XOR ucast b"
  have m: "(0xff :: u32) = mask 8" by (simp add: mask_eq_exp_minus_1)
  have "unat (?x AND mask 8) < 256"
    using and_mask_less' [of 8 ?x] by (simp add: word_less_nat_alt)
  then have tab: "crc_table ! unat (?x AND mask 8) = (crc_step ^^ 8) (?x AND mask 8)"
    by (simp add: crc_table_entry)
  have "take_bit 8 (?x AND NOT (mask 8)) = 0"
    by (rule bit_word_eqI) (simp add: bit_simps)
  then have "(crc_step ^^ 8) (?x AND NOT (mask 8)) = drop_bit 8 (?x AND NOT (mask 8))"
    by (rule crc_steps_shift)
  also have "\<dots> = drop_bit 8 crc"
    by (rule bit_word_eqI) (auto simp: bit_simps dest: bit_imp_le_length)
  finally have hi: "(crc_step ^^ 8) (?x AND NOT (mask 8)) = drop_bit 8 crc" .
  have "crc_serial_step crc b = (crc_step ^^ 8) ((?x AND mask 8) XOR (?x AND NOT (mask 8)))"
    unfolding crc_serial_step_def using low_byte_split [of ?x] by simp
  also have "\<dots> = crc_table ! unat (?x AND mask 8) XOR drop_bit 8 crc"
    by (simp only: crc_steps_xor tab hi)
  finally show ?thesis by (simp add: crc_table_step_def m)
qed

lemma crc_fold_inj:
  "foldl crc_serial_step a bs = foldl crc_serial_step b bs \<Longrightarrow> a = b"
proof (induction bs arbitrary: a b)
  case (Cons x bs)
  then have "crc_serial_step a x = crc_serial_step b x" by simp
  then have "a XOR ucast x = b XOR ucast x"
    unfolding crc_serial_step_def by (rule crc_steps_inj)
  then show ?case by (rule xor_right_cancel)
qed simp

section \<open>Properties\<close>


text \<open>
  C33. Corrupting one byte of a body, in any way and at any place, always changes the checksum.
\<close>

theorem spectrum_crc32c_detects_byte:
  assumes "b \<noteq> c"
  shows "spectrum_crc32c (pre @ b # post) \<noteq> spectrum_crc32c (pre @ c # post)"
proof
  let ?s = "foldl crc_serial_step 0xffffffff pre"
  have serial: "crc_table_step = crc_serial_step"
    by (intro ext) (rule crc_table_step_serial)
  assume "spectrum_crc32c (pre @ b # post) = spectrum_crc32c (pre @ c # post)"
  then have "foldl crc_serial_step (crc_serial_step ?s b) post
      = foldl crc_serial_step (crc_serial_step ?s c) post"
    unfolding spectrum_crc32c_def serial by simp
  then have "crc_serial_step ?s b = crc_serial_step ?s c" by (rule crc_fold_inj)
  then have "?s XOR ucast b = ?s XOR ucast c"
    unfolding crc_serial_step_def by (rule crc_steps_inj)
  then have "(ucast b :: u32) = ucast c" by (metis xor.commute xor_right_cancel)
  then have "(ucast (ucast b :: u32) :: u8) = ucast (ucast c :: u32)" by simp
  then have "b = c" by simp
  with assms show False by simp
qed

theorem spectrum_crc32c_detects_byte_witness:
  "spectrum_crc32c ([1, 2] @ 3 # [4]) \<noteq> spectrum_crc32c ([1, 2] @ 7 # [4])"
  by (rule spectrum_crc32c_detects_byte) simp

text \<open>The layout the static assertions fix.\<close>

lemma length_transport_bytes [simp]: "length (transport_bytes h) = 24"
  by (simp add: transport_bytes_def)

lemma length_header_bytes [simp]:
  "length (header_prefix_bytes h) = 73" "length (spectrum_header_bytes h) = 103"
  by (simp_all add: header_prefix_bytes_def header_suffix_bytes_def spectrum_header_bytes_def)

lemma le_bytes_read:
  fixes w :: "'a::len word"
  assumes "LENGTH('a) \<le> 8 * n"
  shows "of_le (take n (le_bytes n w @ rest)) = w" and "drop n (le_bytes n w @ rest) = rest"
  using assms by (simp_all add: of_le_bytes take_bit_word_beyond_length_eq)

lemma of_le_full:
  fixes w :: "'a::len word"
  assumes "LENGTH('a) \<le> 8 * n"
  shows "of_le (le_bytes n w) = w"
  using assms by (simp add: of_le_bytes take_bit_word_beyond_length_eq)

lemma parse_header_bytes: "parse_header (spectrum_header_bytes h) = h"
  by (simp add: parse_header_def spectrum_header_bytes_def header_prefix_bytes_def
      header_suffix_bytes_def of_le_full del: le_bytes.simps)

lemma transport_fields:
  fixes h rest defines "m \<equiv> transport_bytes h @ rest"
  shows "of_le (take 4 m) = th_magic h" "of_le (take 2 (drop 4 m)) = th_version h"
    "of_le (take 2 (drop 6 m)) = th_server_id h" "of_le (take 8 (drop 8 m)) = th_sequence h"
    "of_le (take 4 (drop 16 m)) = th_message_bytes h" "of_le (take 4 (drop 20 m)) = th_crc32c h"
  by (simp_all add: m_def transport_bytes_def of_le_full del: le_bytes.simps)



end
