(* ===== verification/Observation_Id.thy ===== *)
theory Observation_Id
  imports Spectrum_Transport
begin

text \<open>
  Observation identifiers (\<^verbatim>\<open>include/ObservationId.hpp\<close>): validation of configured identifiers, the
  numeric form carried in result headers, and the generated directory names. Strings are character
  lists; the wall-clock part of a generated name is the argument \<open>stamp\<close>, the text
  \<^verbatim>\<open>put_time("%Y%m%dT%H%M%S") << '.' << milliseconds << 'Z'\<close>.
\<close>

section \<open>Definitions\<close>

definition OBSERVATION_ID_MAX_LENGTH :: nat where "OBSERVATION_ID_MAX_LENGTH = 64"

definition ascii_alnum :: "char \<Rightarrow> bool" where
  "ascii_alnum c \<longleftrightarrow>
     (of_char c \<ge> (48 :: nat) \<and> of_char c \<le> (57 :: nat))
     \<or> (of_char c \<ge> (65 :: nat) \<and> of_char c \<le> (90 :: nat))
     \<or> (of_char c \<ge> (97 :: nat) \<and> of_char c \<le> (122 :: nat))"

definition id_char :: "char \<Rightarrow> bool" where
  "id_char c \<longleftrightarrow> ascii_alnum c \<or> c = CHR ''-'' \<or> c = CHR ''_'' \<or> c = CHR ''.''"

definition observation_id_is_valid :: "string \<Rightarrow> bool" where
  "observation_id_is_valid s \<longleftrightarrow>
     (if s = [] \<or> length s > OBSERVATION_ID_MAX_LENGTH then False
      else if list_ex (\<lambda>c. \<not> id_char c) s then False
      else s \<noteq> ''.'' \<and> s \<noteq> ''..'')"

definition observation_id_numeric :: "string \<Rightarrow> u32" where
  "observation_id_numeric s = spectrum_crc32c (map of_char s)"

text \<open>The loop over the characters, with \<^verbatim>\<open>result\<close> and \<^verbatim>\<open>previous_separator\<close>.\<close>

fun component_loop :: "string \<Rightarrow> string \<Rightarrow> bool \<Rightarrow> string" where
  "component_loop [] result previous_separator = result"
| "component_loop (c # cs) result previous_separator =
     (if ascii_alnum c \<or> c = CHR ''.'' \<or> c = CHR ''_'' \<or> c = CHR ''-''
      then component_loop cs (result @ [c]) False
      else if result \<noteq> [] \<and> \<not> previous_separator
      then component_loop cs (result @ [CHR ''-'']) True
      else component_loop cs result previous_separator)"

text \<open>\<^verbatim>\<open>while (!result.empty() && result.back() == '-') result.pop_back()\<close>\<close>

function strip_dashes :: "string \<Rightarrow> string" where
  "strip_dashes s = (if s \<noteq> [] \<and> last s = CHR ''-'' then strip_dashes (butlast s) else s)"
  by pat_completeness auto
termination
  by (relation "measure length") auto

declare strip_dashes.simps [simp del]

definition observation_directory_component :: "string \<Rightarrow> string" where
  "observation_directory_component val =
     (let result = strip_dashes (component_loop val [] False)
      in if result = [] then ''UNKNOWN'' else result)"

text \<open>One pass of the loop over \<^verbatim>\<open>{&object, &state}\<close>.\<close>

definition append_component :: "string \<Rightarrow> string \<Rightarrow> string" where
  "append_component s component =
     (if component = [] \<or> length s \<ge> OBSERVATION_ID_MAX_LENGTH - 1 then s
      else
        let safe = observation_directory_component component;
            available = OBSERVATION_ID_MAX_LENGTH - length s - 1
        in s @ ''_'' @ take available safe)"

definition automatic_observation_directory_id :: "string \<Rightarrow> string \<Rightarrow> string \<Rightarrow> string" where
  "automatic_observation_directory_id stamp object state =
     append_component (append_component stamp object) state"

section \<open>Lemmas\<close>

lemma id_char_iff: "id_char c \<longleftrightarrow> ascii_alnum c \<or> c = CHR ''.'' \<or> c = CHR ''_'' \<or> c = CHR ''-''"
  by (auto simp: id_char_def)

lemma component_loop_chars:
  "list_all id_char result \<Longrightarrow> list_all id_char (component_loop cs result sep)"
  by (induction cs result sep rule: component_loop.induct) (auto simp: id_char_iff)

lemma strip_dashes_chars: "list_all id_char s \<Longrightarrow> list_all id_char (strip_dashes s)"
proof (induction s rule: strip_dashes.induct)
  case (1 s)
  then show ?case
    by (subst strip_dashes.simps) (auto simp: list_all_iff dest: in_set_butlastD)
qed

lemma strip_dashes_last: "strip_dashes s \<noteq> [] \<Longrightarrow> last (strip_dashes s) \<noteq> CHR ''-''"
proof (induction s rule: strip_dashes.induct)
  case (1 s)
  then show ?case
    by (cases "s \<noteq> [] \<and> last s = CHR ''-''") (simp_all add: strip_dashes.simps [of s])
qed

lemma component_chars: "list_all id_char (observation_directory_component s)"
proof -
  have "list_all id_char ''UNKNOWN''" by (simp add: id_char_def ascii_alnum_def)
  then show ?thesis
    by (simp add: observation_directory_component_def Let_def strip_dashes_chars
        component_loop_chars)
qed

lemma component_nonempty: "observation_directory_component s \<noteq> []"
  by (simp add: observation_directory_component_def Let_def)

lemma append_component_chars:
  "list_all id_char s \<Longrightarrow> list_all id_char (append_component s c)"
  using component_chars [of c]
  by (auto simp: append_component_def Let_def id_char_def list_all_iff dest: in_set_takeD)

lemma append_component_length:
  "length s \<le> length (append_component s c)
   \<and> (length s \<le> OBSERVATION_ID_MAX_LENGTH \<longrightarrow>
        length (append_component s c) \<le> OBSERVATION_ID_MAX_LENGTH)"
  by (auto simp: append_component_def Let_def)

lemma append_component_prefix: "take (length s) (append_component s c) = s"
  by (simp add: append_component_def Let_def)

section \<open>Properties\<close>



text \<open>
  A valid identifier names one directory component: it is nonempty, has at most 64 characters,
  contains no path separator and no NUL, and cannot be \<open>.\<close> or \<open>..\<close>, so joining it to a base folder
  never leaves that folder. Conversely every string of 1 to 64 allowed characters other than these
  two is accepted.
\<close>

theorem observation_id_is_valid_iff:
  "observation_id_is_valid s \<longleftrightarrow>
     1 \<le> length s \<and> length s \<le> 64 \<and> set s \<subseteq> {c. id_char c}
     \<and> CHR ''/'' \<notin> set s \<and> CHR 0x00 \<notin> set s \<and> s \<notin> {''.'', ''..''}"
proof -
  have "\<not> id_char (CHR ''/'')" "\<not> id_char (CHR 0x00)"
    by (simp_all add: id_char_def ascii_alnum_def)
  then show ?thesis
    by (auto simp: observation_id_is_valid_def OBSERVATION_ID_MAX_LENGTH_def list_ex_iff Suc_le_eq)
qed

end
