(* ===== verification/Circular_Buffer.thy ===== *)
theory Circular_Buffer
  imports SL_Prelude
begin

text \<open>
  The bounded queue between a packet receiver and the processing thread of a stream,
  \<^verbatim>\<open>include/readerwritercircularbuffer.h\<close>, with the counting semaphore of
  \<^verbatim>\<open>include/atomicops.h\<close> it is built on. This theory has the state, the constructor and the
  non-blocking operations run one at a time, with the refinement to a bounded list; the
  interleaved execution of a producer and a consumer, blocking and timed waits included, is the
  subject of the theory \<open>Spsc_Concurrent\<close>. The semaphore counter is an \<open>int\<close>: the invariants
  keep it between -1 and the capacity, which the constructor reads from an \<^verbatim>\<open>ssize_t\<close>.
\<close>

section \<open>The semaphore\<close>

record LightweightSemaphore =
  m_count :: int
  m_sema :: nat

definition new_semaphore :: "int \<Rightarrow> LightweightSemaphore" where
  "new_semaphore initialCount = \<lparr>m_count = initialCount, m_sema = 0\<rparr>"

definition tryWait :: "LightweightSemaphore \<Rightarrow> bool \<times> LightweightSemaphore" where
  "tryWait s = (if 0 < m_count s then (True, s\<lparr>m_count := m_count s - 1\<rparr>) else (False, s))"

definition signal :: "LightweightSemaphore \<Rightarrow> LightweightSemaphore" where
  "signal s =
     (let oldCount = m_count s; s' = s\<lparr>m_count := oldCount + 1\<rparr>
      in if oldCount < 0 then s'\<lparr>m_sema := m_sema s' + 1\<rparr> else s')"

definition availableApprox :: "LightweightSemaphore \<Rightarrow> nat" where
  "availableApprox s = (if 0 < m_count s then nat (m_count s) else 0)"

section \<open>The buffer\<close>

text \<open>
  A cell is \<open>None\<close> while it is raw memory: before its first construction and after the
  destructor call of a dequeue.
\<close>

record 'a circular_buffer =
  maxcap :: u64
  mask :: u64
  data :: "'a option list"
  slots :: LightweightSemaphore
  items :: LightweightSemaphore
  nextSlot :: u64
  nextItem :: u64

definition smear :: "nat \<Rightarrow> u64 \<Rightarrow> u64" where
  "smear k capacity = capacity OR drop_bit k capacity"

text \<open>
  The last three smears are the loop over \<open>i = 1, 2, 4\<close>, each shifting by \<open>i << 3\<close>.
\<close>

definition round_mask :: "u64 \<Rightarrow> u64" where
  "round_mask capacity =
     foldl (\<lambda>c i. smear (i * 8) c) (smear 4 (smear 2 (smear 1 (capacity - 1)))) [1, 2, 4]"

definition new_buffer :: "u64 \<Rightarrow> 'a circular_buffer" where
  "new_buffer capacity =
     \<lparr>maxcap = capacity, mask = round_mask capacity,
      data = replicate (unat (round_mask capacity + 1)) None,
      slots = new_semaphore (sint capacity), items = new_semaphore 0,
      nextSlot = 0, nextItem = 0\<rparr>"

definition swap :: "'a circular_buffer \<Rightarrow> 'a circular_buffer \<Rightarrow>
    'a circular_buffer \<times> 'a circular_buffer" where
  "swap q other =
     (q\<lparr>maxcap := maxcap other, mask := mask other, data := data other, slots := slots other,
        items := items other, nextSlot := nextSlot other, nextItem := nextItem other\<rparr>,
      other\<lparr>maxcap := maxcap q, mask := mask q, data := data q, slots := slots q,
        items := items q, nextSlot := nextSlot q, nextItem := nextItem q\<rparr>)"

definition cell :: "'a circular_buffer \<Rightarrow> u64 \<Rightarrow> nat" where
  "cell q i = unat (i AND mask q)"

definition inner_enqueue :: "'a \<Rightarrow> 'a circular_buffer \<Rightarrow> 'a circular_buffer" where
  "inner_enqueue item q =
     (let i = nextSlot q
      in q\<lparr>nextSlot := i + 1, data := (data q)[cell q i := Some item], items := signal (items q)\<rparr>)"

definition inner_dequeue :: "'a circular_buffer \<Rightarrow> 'a option \<times> 'a circular_buffer" where
  "inner_dequeue q =
     (let i = nextItem q
      in (data q ! cell q i,
          q\<lparr>nextItem := i + 1, data := (data q)[cell q i := None], slots := signal (slots q)\<rparr>))"

definition inner_peek :: "'a circular_buffer \<Rightarrow> nat" where
  "inner_peek q = cell q (nextItem q)"

definition inner_pop :: "'a circular_buffer \<Rightarrow> 'a circular_buffer" where
  "inner_pop q =
     (let i = nextItem q
      in q\<lparr>nextItem := i + 1, data := (data q)[cell q i := None], slots := signal (slots q)\<rparr>)"

definition try_enqueue :: "'a \<Rightarrow> 'a circular_buffer \<Rightarrow> bool \<times> 'a circular_buffer" where
  "try_enqueue item q =
     (case tryWait (slots q) of
        (False, s) \<Rightarrow> (False, q\<lparr>slots := s\<rparr>)
      | (True, s) \<Rightarrow> (True, inner_enqueue item (q\<lparr>slots := s\<rparr>)))"

definition try_dequeue :: "'a circular_buffer \<Rightarrow> bool \<times> 'a option \<times> 'a circular_buffer" where
  "try_dequeue q =
     (case tryWait (items q) of
        (False, s) \<Rightarrow> (False, None, q\<lparr>items := s\<rparr>)
      | (True, s) \<Rightarrow> (True, inner_dequeue (q\<lparr>items := s\<rparr>)))"

definition try_pop :: "'a circular_buffer \<Rightarrow> bool \<times> 'a circular_buffer" where
  "try_pop q =
     (case tryWait (items q) of
        (False, s) \<Rightarrow> (False, q\<lparr>items := s\<rparr>)
      | (True, s) \<Rightarrow> (True, inner_pop (q\<lparr>items := s\<rparr>)))"

text \<open>\<^verbatim>\<open>peek\<close> returns a pointer into the cells, here the index of the cell.\<close>

definition peek :: "'a circular_buffer \<Rightarrow> nat option" where
  "peek q = (if availableApprox (items q) = 0 then None else Some (inner_peek q))"

definition size_approx :: "'a circular_buffer \<Rightarrow> nat" where
  "size_approx q = availableApprox (items q)"

definition max_capacity :: "'a circular_buffer \<Rightarrow> u64" where
  "max_capacity q = maxcap q"

section \<open>Rounding the capacity to a power of two\<close>

lemma bit_smear:
  assumes "\<And>k. bit y k \<longleftrightarrow> (\<exists>j < s. bit x (k + j))"
  shows "bit (smear s y) k \<longleftrightarrow> (\<exists>j<2 * s. bit x (k + j))"
proof -
  have "bit (smear s y) k \<longleftrightarrow> bit y k \<or> bit y (k + s)"
    by (auto simp: smear_def bit_simps add.commute dest: bit_imp_le_length)
  also have "\<dots> \<longleftrightarrow> (\<exists>j < s. bit x (k + j)) \<or> (\<exists>j < s. bit x (k + s + j))"
    using assms by (simp add: add.commute)
  also have "\<dots> \<longleftrightarrow> (\<exists>j<2 * s. bit x (k + j))"
  proof
    assume "(\<exists>j < s. bit x (k + j)) \<or> (\<exists>j < s. bit x (k + s + j))"
    then show "\<exists>j<2 * s. bit x (k + j)"
    proof
      assume "\<exists>j < s. bit x (k + j)"
      then obtain j where "j < s" "bit x (k + j)" by blast
      then show ?thesis by (intro exI [of _ j]) simp
    next
      assume "\<exists>j < s. bit x (k + s + j)"
      then obtain j where "j < s" "bit x (k + (s + j))" by (auto simp: add.assoc)
      then show ?thesis by (intro exI [of _ "s + j"]) simp
    qed
  next
    assume "\<exists>j<2 * s. bit x (k + j)"
    then obtain j where j: "j < 2 * s" "bit x (k + j)" by blast
    show "(\<exists>j < s. bit x (k + j)) \<or> (\<exists>j < s. bit x (k + s + j))"
    proof (cases "j < s")
      case False
      then have "j - s < s" "bit x (k + s + (j - s))" using j by auto
      then show ?thesis by blast
    qed (use j in blast)
  qed
  finally show ?thesis .
qed

lemma bit_round_mask: "bit (round_mask capacity) k \<longleftrightarrow> (\<exists>j<64. bit (capacity - 1) (k + j))"
proof -
  let ?x = "capacity - 1"
  have 1: "bit ?x k \<longleftrightarrow> (\<exists>j<1. bit ?x (k + j))" for k by simp
  note 2 = bit_smear [of ?x 1 ?x, OF 1, simplified]
  note 4 = bit_smear [of "smear 1 ?x" 2 ?x, OF 2 [unfolded One_nat_def [symmetric]], simplified]
  note 8 = bit_smear [OF 4, simplified]
  note 16 = bit_smear [OF 8, simplified]
  note 32 = bit_smear [OF 16, simplified]
  note 64 = bit_smear [OF 32, simplified]
  show ?thesis using 64 by (simp add: round_mask_def)
qed


lemma bit_odd_unat: "bit x k \<longleftrightarrow> odd (unat x div 2 ^ k)" for x :: u64
proof -
  have "bit x k \<longleftrightarrow> bit (unat x) k" by (simp add: bit_unsigned_iff)
  then show ?thesis by (simp add: bit_iff_odd)
qed

lemma highest_bit:
  fixes x :: u64
  assumes "x \<noteq> 0"
  obtains h where "bit x h" "\<forall>j>h. \<not> bit x j" "2 ^ h \<le> unat x" "unat x < 2 ^ (h + 1)" "h < 64"
proof -
  have "1 \<le> unat x" using assms by (simp add: word_eq_unat Suc_le_eq)
  then obtain h where h: "2 ^ h \<le> unat x" "unat x < 2 ^ (h + 1)"
    using ex_power_ivl1 [of 2 "unat x"] by auto
  have "unat x div 2 ^ h = 1"
    using h by (intro div_nat_eqI) auto
  then have bh: "bit x h" by (simp add: bit_odd_unat)
  have "\<not> bit x j" if "h < j" for j
  proof -
    have "(2::nat) ^ (h + 1) \<le> 2 ^ j" using that by (intro power_increasing) auto
    with h(2) have "unat x < 2 ^ j" by linarith
    then show ?thesis by (simp add: bit_odd_unat)
  qed
  moreover have "h < 64" using bit_imp_le_length [OF bh] by simp
  ultimately show ?thesis using that bh h by blast
qed

lemma round_mask_power:
  assumes "0 < capacity" "unat capacity \<le> 2 ^ 63"
  obtains n where "n \<le> 63" "round_mask capacity = 2 ^ n - 1" "unat capacity \<le> 2 ^ n"
    "n = 0 \<or> 2 ^ (n - 1) < unat capacity"
proof (cases "capacity = 1")
  case True
  have "round_mask capacity = 0"
    using True bit_round_mask [of capacity] by (intro bit_word_eqI) simp
  then show ?thesis using that [of 0] True by simp
next
  case False
  have ux: "unat (capacity - 1) = unat capacity - 1"
    using assms(1) by (subst unat_sub_exact) (auto simp: word_less_unat)
  have "capacity - 1 \<noteq> 0" using False by simp
  then obtain h where h: "bit (capacity - 1) h" "\<forall>j>h. \<not> bit (capacity - 1) j"
    "2 ^ h \<le> unat (capacity - 1)" "unat (capacity - 1) < 2 ^ (h + 1)" "h < 64"
    by (rule highest_bit)
  have "(2::nat) ^ h < 2 ^ 63"
  proof -
    have "0 < unat capacity" using assms(1) by (simp add: word_less_unat)
    then show ?thesis using h(3) ux assms(2) by linarith
  qed
  then have h63: "h < 63" by (rule power_less_imp_less_exp [rotated]) simp
  have "bit (round_mask capacity) k \<longleftrightarrow> k < h + 1" for k
  proof
    assume "bit (round_mask capacity) k"
    then obtain j where "bit (capacity - 1) (k + j)" by (auto simp: bit_round_mask)
    then show "k < h + 1" using h(2) by (metis add_leE less_Suc_eq_le not_less Suc_eq_plus1)
  next
    assume "k < h + 1"
    then show "bit (round_mask capacity) k"
      using h(1,5) by (auto simp: bit_round_mask intro!: exI [of _ "h - k"])
  qed
  then have "round_mask capacity = 2 ^ (h + 1) - 1"
    by (intro bit_word_eqI)
      (simp only: mask_eq_exp_minus_1 [symmetric] bit_mask_iff possible_bit_word simp_thms)
  then show ?thesis using that [of "h + 1"] h ux h63 assms
    by (simp add: word_less_unat)
qed

section \<open>Ring indices\<close>

lemma unat_and_mask:
  fixes i :: u64
  assumes "n \<le> 63"
  shows "unat (i AND (2 ^ n - 1)) = unat i mod 2 ^ n"
proof -
  have "i AND (2 ^ n - 1) = take_bit n i"
    by (simp only: mask_eq_exp_minus_1 [symmetric] take_bit_eq_mask)
  then show ?thesis by (simp only: unsigned_take_bit_eq) (simp add: take_bit_eq_mod)
qed

lemma unat_add_of_nat_mod:
  fixes i :: u64
  assumes "n \<le> 63"
  shows "unat (i + of_nat k) mod 2 ^ n = (unat i + k) mod 2 ^ n"
proof -
  have "(2::nat) ^ n dvd 2 ^ 64" using assms by (intro le_imp_power_dvd) simp
  then have "(unat i + k) mod 2 ^ 64 mod 2 ^ n = (unat i + k) mod 2 ^ n" by (rule mod_mod_cancel)
  moreover have "unat (i + of_nat k) = (unat i + k) mod 2 ^ 64"
    by (simp add: unat_word_ariths unat_of_nat mod_simps)
  ultimately show ?thesis by simp
qed

lemma unat_exp:
  assumes "n \<le> 63"
  shows "unat (2 ^ n :: u64) = 2 ^ n"
proof -
  have "(2::nat) ^ n \<le> 2 ^ 63" using assms by (intro power_increasing) auto
  then have "unat (of_nat (2 ^ n) :: u64) = 2 ^ n" by (subst unat_of_nat) simp
  then show ?thesis by simp
qed

lemma cell_add:
  assumes "mask q = 2 ^ n - 1" "n \<le> 63"
  shows "cell q (i + of_nat k) = (unat i + k) mod 2 ^ n"
  using assms by (simp add: cell_def unat_and_mask unat_add_of_nat_mod)

lemma cell_inj:
  assumes "mask q = 2 ^ n - 1" "n \<le> 63" "j < 2 ^ n" "k < 2 ^ n"
    and "cell q (i + of_nat j) = cell q (i + of_nat k)"
  shows "j = k"
proof -
  have eq: "(unat i + j) mod 2 ^ n = (unat i + k) mod 2 ^ n" using assms by (simp add: cell_add)
  show ?thesis
  proof (cases "j \<le> k")
    case True
    have "unat i + j = unat i + k"
      by (rule mod_eq_close [OF eq]) (use True assms(4) in simp_all)
    then show ?thesis by simp
  next
    case False
    have "unat i + k = unat i + j"
      by (rule mod_eq_close [OF eq [symmetric]]) (use False assms(3) in simp_all)
    then show ?thesis by simp
  qed
qed

lemma cell_less: "mask q = 2 ^ n - 1 \<Longrightarrow> n \<le> 63 \<Longrightarrow> cell q i < 2 ^ n"
  by (simp add: cell_def unat_and_mask)

section \<open>Representation invariant and abstraction\<close>

definition count :: "'a circular_buffer \<Rightarrow> nat" where
  "count q = nat (m_count (items q))"

definition queue_list :: "'a circular_buffer \<Rightarrow> 'a list" where
  "queue_list q = map (\<lambda>k. the (data q ! cell q (nextItem q + of_nat k))) [0..<count q]"

definition ring_ok :: "'a circular_buffer \<Rightarrow> nat \<Rightarrow> bool" where
  "ring_ok q n \<longleftrightarrow> n \<le> 63 \<and> mask q = 2 ^ n - 1 \<and> length (data q) = 2 ^ n
     \<and> unat (maxcap q) \<le> 2 ^ n"

definition cb_inv :: "'a circular_buffer \<Rightarrow> bool" where
  "cb_inv q \<longleftrightarrow>
     (\<exists>n. ring_ok q n)
     \<and> m_count (items q) = int (count q) \<and> count q \<le> unat (maxcap q)
     \<and> m_count (slots q) = int (unat (maxcap q) - count q)
     \<and> nextSlot q = nextItem q + of_nat (count q)
     \<and> (\<forall>k < count q. data q ! cell q (nextItem q + of_nat k) \<noteq> None)
     \<and> (\<forall>j < length (data q). data q ! j \<noteq> None \<longrightarrow>
          (\<exists>k < count q. j = cell q (nextItem q + of_nat k)))"

lemma length_queue_list [simp]: "length (queue_list q) = count q"
  by (simp add: queue_list_def)

lemma new_buffer_inv:
  assumes "0 < unat capacity" "unat capacity < 2 ^ 63"
  shows "cb_inv (new_buffer capacity)" "queue_list (new_buffer capacity) = []"
proof -
  have "0 < capacity" using assms(1) by (simp add: word_less_unat)
  then obtain n where n: "n \<le> 63" "round_mask capacity = 2 ^ n - 1" "unat capacity \<le> 2 ^ n"
    by (rule round_mask_power) (use assms in simp)
  have "unat (2 ^ n :: u64) = 2 ^ n" using n(1) by (rule unat_exp)
  then have "ring_ok (new_buffer capacity) n" using n by (simp add: ring_ok_def new_buffer_def)
  moreover have "sint capacity = int (unat capacity)"
  proof -
    have "int (unat capacity) < int (2 ^ 63)" using assms(2) by (simp only: of_nat_less_iff)
    then have "uint capacity < 2 ^ 63" by simp
    then have "signed_take_bit 63 (uint capacity) = uint capacity"
      by (intro signed_take_bit_int_eq_self) (simp_all add: order_trans [OF _ uint_ge_0])
    then show ?thesis by (simp add: sint_uint)
  qed
  moreover have "count (new_buffer capacity) = 0"
    by (simp add: count_def new_buffer_def new_semaphore_def)
  ultimately show "cb_inv (new_buffer capacity)"
    unfolding cb_inv_def by (auto simp: new_buffer_def new_semaphore_def)
  show "queue_list (new_buffer capacity) = []"
    by (simp add: queue_list_def count_def new_buffer_def new_semaphore_def)
qed

lemma ring_okD:
  assumes "ring_ok q n"
  shows "cell q i < length (data q)" "cell q (i + of_nat k) = (unat i + k) mod 2 ^ n"
  using assms by (auto simp: ring_ok_def cell_less cell_add)

lemma count_bound: "cb_inv q \<Longrightarrow> count q \<le> unat (maxcap q)"
  by (simp add: cb_inv_def)

lemma cb_invE:
  assumes "cb_inv q"
  obtains n where "ring_ok q n" "m_count (items q) = int (count q)" "count q \<le> unat (maxcap q)"
    "m_count (slots q) = int (unat (maxcap q) - count q)"
    "nextSlot q = nextItem q + of_nat (count q)"
    "\<And>k. k < count q \<Longrightarrow> data q ! cell q (nextItem q + of_nat k) \<noteq> None"
    "\<And>j. j < length (data q) \<Longrightarrow> data q ! j \<noteq> None \<Longrightarrow>
       \<exists>k < count q. j = cell q (nextItem q + of_nat k)"
  using assms unfolding cb_inv_def by blast

text \<open>Distinct live positions have distinct cells, and the next free position has a raw cell.\<close>

lemma cell_distinct:
  assumes "ring_ok q n" "j < k" "k < unat (maxcap q)"
  shows "cell q (nextItem q + of_nat j) \<noteq> cell q (nextItem q + of_nat k)"
  using assms cell_inj [of q n j k "nextItem q"] by (auto simp: ring_ok_def)

lemma next_cell_raw:
  assumes "cb_inv q" "count q < unat (maxcap q)"
  shows "data q ! cell q (nextSlot q) = None"
proof (rule cb_invE [OF assms(1)])
  fix n
  assume ok: "ring_ok q n" and ns: "nextSlot q = nextItem q + of_nat (count q)"
    and live: "\<And>j. j < length (data q) \<Longrightarrow> data q ! j \<noteq> None \<Longrightarrow>
       \<exists>k < count q. j = cell q (nextItem q + of_nat k)"
  show ?thesis
    using live [of "cell q (nextSlot q)"] cell_distinct [OF ok _ assms(2)] ring_okD(1) [OF ok] ns
    by metis
qed

section \<open>Refinement of a bounded list\<close>

lemma try_enqueue_full:
  assumes "cb_inv q" "count q = unat (maxcap q)"
  shows "try_enqueue x q = (False, q)"
  using assms by (simp add: cb_inv_def try_enqueue_def tryWait_def)

definition enqueued :: "'a \<Rightarrow> 'a circular_buffer \<Rightarrow> 'a circular_buffer" where
  "enqueued x q = inner_enqueue x (q\<lparr>slots := slots q\<lparr>m_count := m_count (slots q) - 1\<rparr>\<rparr>)"

definition dequeued :: "'a circular_buffer \<Rightarrow> 'a circular_buffer" where
  "dequeued q = inner_pop (q\<lparr>items := items q\<lparr>m_count := m_count (items q) - 1\<rparr>\<rparr>)"

lemma enqueued_sel:
  assumes "m_count (items q) = int (count q)"
  shows "maxcap (enqueued x q) = maxcap q" "mask (enqueued x q) = mask q"
    "nextItem (enqueued x q) = nextItem q" "nextSlot (enqueued x q) = nextSlot q + 1"
    "data (enqueued x q) = (data q)[cell q (nextSlot q) := Some x]"
    "m_count (slots (enqueued x q)) = m_count (slots q) - 1"
    "m_count (items (enqueued x q)) = int (Suc (count q))"
    "cell (enqueued x q) i = cell q i" "count (enqueued x q) = Suc (count q)"
    "ring_ok (enqueued x q) n \<longleftrightarrow> ring_ok q n"
proof -
  note d = enqueued_def inner_enqueue_def signal_def cell_def Let_def count_def ring_ok_def
  show "maxcap (enqueued x q) = maxcap q" "mask (enqueued x q) = mask q"
    "nextItem (enqueued x q) = nextItem q" "nextSlot (enqueued x q) = nextSlot q + 1"
    "data (enqueued x q) = (data q)[cell q (nextSlot q) := Some x]"
    "m_count (slots (enqueued x q)) = m_count (slots q) - 1"
    "cell (enqueued x q) i = cell q i" "ring_ok (enqueued x q) n \<longleftrightarrow> ring_ok q n"
    by (simp_all add: d)
  show items: "m_count (items (enqueued x q)) = int (Suc (count q))"
    using assms by (simp add: enqueued_def inner_enqueue_def signal_def Let_def)
  then show "count (enqueued x q) = Suc (count q)" unfolding count_def [of "enqueued x q"] by simp
qed

lemma dequeued_sel:
  assumes "m_count (items q) = int (count q)" "0 < count q" "0 \<le> m_count (slots q)"
  shows "maxcap (dequeued q) = maxcap q" "mask (dequeued q) = mask q"
    "nextItem (dequeued q) = nextItem q + 1" "nextSlot (dequeued q) = nextSlot q"
    "data (dequeued q) = (data q)[cell q (nextItem q) := None]"
    "m_count (slots (dequeued q)) = m_count (slots q) + 1"
    "m_count (items (dequeued q)) = int (count q - 1)"
    "cell (dequeued q) i = cell q i" "count (dequeued q) = count q - 1"
    "ring_ok (dequeued q) n \<longleftrightarrow> ring_ok q n"
proof -
  note d = dequeued_def inner_pop_def signal_def cell_def Let_def ring_ok_def
  show "maxcap (dequeued q) = maxcap q" "mask (dequeued q) = mask q"
    "nextItem (dequeued q) = nextItem q + 1" "nextSlot (dequeued q) = nextSlot q"
    "data (dequeued q) = (data q)[cell q (nextItem q) := None]"
    "m_count (slots (dequeued q)) = m_count (slots q) + 1"
    "cell (dequeued q) i = cell q i" "ring_ok (dequeued q) n \<longleftrightarrow> ring_ok q n"
    using assms(3) by (simp_all add: d)
  show "m_count (items (dequeued q)) = int (count q - 1)"
    using assms(1,2) by (simp add: dequeued_def inner_pop_def Let_def of_nat_diff)
  then show "count (dequeued q) = count q - 1" unfolding count_def [of "dequeued q"] by simp
qed

text \<open>A successful enqueue writes a raw cell and appends the item.\<close>

lemma enqueued_inv:
  assumes inv: "cb_inv q" and room: "count q < unat (maxcap q)"
  shows "cb_inv (enqueued x q)" "queue_list (enqueued x q) = queue_list q @ [x]"
proof -
  from inv obtain n where n: "ring_ok q n" and it: "m_count (items q) = int (count q)"
    and sl: "m_count (slots q) = int (unat (maxcap q) - count q)"
    and ns: "nextSlot q = nextItem q + of_nat (count q)"
    and live: "\<And>k. k < count q \<Longrightarrow> data q ! cell q (nextItem q + of_nat k) \<noteq> None"
    and only: "\<And>j. j < length (data q) \<Longrightarrow> data q ! j \<noteq> None \<Longrightarrow>
       \<exists>k < count q. j = cell q (nextItem q + of_nat k)"
    by (rule cb_invE) blast
  note f = enqueued_sel [OF it, of x]
  define c where "c = cell q (nextSlot q)"
  have cc: "c = cell q (nextItem q + of_nat (count q))" by (simp add: c_def ns)
  have clt: "c < length (data q)" unfolding c_def by (rule ring_okD [OF n])
  have fresh: "c \<noteq> cell q (nextItem q + of_nat k)" if "k < count q" for k
    using cell_distinct [OF n that room] cc by simp
  show "cb_inv (enqueued x q)"
    unfolding cb_inv_def f c_def [symmetric]
  proof (intro conjI allI impI)
    show "\<exists>n. ring_ok q n" using n ..
    fix k
    assume "k < Suc (count q)"
    then show "(data q)[c := Some x] ! cell q (nextItem q + of_nat k) \<noteq> None"
      using live clt cc by (auto simp: less_Suc_eq nth_list_update_if)
  next
    fix j
    assume "j < length ((data q)[c := Some x])" "(data q)[c := Some x] ! j \<noteq> None"
    then show "\<exists>k < Suc (count q). j = cell q (nextItem q + of_nat k)"
      using only clt cc by (auto simp: less_Suc_eq nth_list_update_if split: if_splits)
  qed (use sl ns room in simp_all)
  have "map (\<lambda>k. the ((data q)[c := Some x] ! cell q (nextItem q + of_nat k))) [0..<count q]
      = queue_list q"
    unfolding queue_list_def by (intro map_cong refl) (simp add: fresh)
  then show "queue_list (enqueued x q) = queue_list q @ [x]"
    using clt cc by (simp add: queue_list_def f c_def [symmetric])
qed

text \<open>A successful dequeue takes the oldest item out of its cell and leaves the cell raw.\<close>

lemma queue_list_Cons:
  assumes "0 < count q"
  shows "queue_list q = the (data q ! cell q (nextItem q))
    # map (\<lambda>k. the (data q ! cell q (nextItem q + of_nat (Suc k)))) [0..<count q - 1]"
proof -
  have "[0..<count q] = 0 # map Suc [0..<count q - 1]"
    using assms by (simp add: map_Suc_upt upt_conv_Cons)
  then show ?thesis by (simp add: queue_list_def add.assoc)
qed

lemma dequeued_inv:
  assumes inv: "cb_inv q" and some: "0 < count q"
  shows "cb_inv (dequeued q)" "queue_list (dequeued q) = tl (queue_list q)"
proof -
  from inv obtain n where n: "ring_ok q n" and it: "m_count (items q) = int (count q)"
    and le: "count q \<le> unat (maxcap q)"
    and sl: "m_count (slots q) = int (unat (maxcap q) - count q)"
    and ns: "nextSlot q = nextItem q + of_nat (count q)"
    and live: "\<And>k. k < count q \<Longrightarrow> data q ! cell q (nextItem q + of_nat k) \<noteq> None"
    and only: "\<And>j. j < length (data q) \<Longrightarrow> data q ! j \<noteq> None \<Longrightarrow>
       \<exists>k < count q. j = cell q (nextItem q + of_nat k)"
    by (rule cb_invE) blast
  have sl0: "0 \<le> m_count (slots q)" by (simp only: sl of_nat_0_le_iff)
  note f = dequeued_sel [OF it some sl0]
  define c where "c = cell q (nextItem q)"
  have clt: "c < length (data q)" unfolding c_def by (rule ring_okD [OF n])
  have c0: "c = cell q (nextItem q + of_nat 0)" by (simp add: c_def)
  have sh: "nextItem q + 1 + of_nat k = nextItem q + of_nat (Suc k)" for k by simp
  have other: "c \<noteq> cell q (nextItem q + of_nat (Suc k))" if "Suc k < count q" for k
    using cell_distinct [OF n, of 0 "Suc k"] that le c0 by simp
  show "cb_inv (dequeued q)"
    unfolding cb_inv_def f c_def [symmetric] sh
  proof (intro conjI allI impI)
    show "\<exists>n. ring_ok q n" using n ..
    fix k
    assume "k < count q - 1"
    then have k: "Suc k < count q" by simp
    show "(data q)[c := None] ! cell q (nextItem q + of_nat (Suc k)) \<noteq> None"
      unfolding nth_list_update_neq [OF other [OF k]] by (rule live [OF k])
  next
    fix j
    assume "j < length ((data q)[c := None])" "(data q)[c := None] ! j \<noteq> None"
    then have j: "j \<noteq> c" "j < length (data q)" "data q ! j \<noteq> None"
      using clt by (auto simp: nth_list_update_if split: if_splits)
    then obtain k where k: "k < count q" "j = cell q (nextItem q + of_nat k)" using only by blast
    then obtain i where "k = Suc i" using j(1) c0 by (cases k) auto
    then show "\<exists>k < count q - 1. j = cell q (nextItem q + of_nat (Suc k))"
      using k by (intro exI [of _ i]) simp
  qed (use sl ns some le in \<open>simp_all add: of_nat_diff\<close>)
  show "queue_list (dequeued q) = tl (queue_list q)"
    unfolding queue_list_Cons [OF some] list.sel queue_list_def [of "dequeued q"] f
      c_def [symmetric] sh
    by (intro map_cong refl arg_cong [of _ _ the] nth_list_update_neq other) simp
qed

lemma try_enqueue_eq:
  assumes "cb_inv q"
  shows "try_enqueue x q = (if count q < unat (maxcap q) then (True, enqueued x q) else (False, q))"
proof (cases "count q < unat (maxcap q)")
  case True
  then have "0 < m_count (slots q)" using assms unfolding cb_inv_def by linarith
  then show ?thesis using True by (simp add: try_enqueue_def tryWait_def enqueued_def)
next
  case False
  then have "count q = unat (maxcap q)" using count_bound [OF assms] by simp
  then show ?thesis using try_enqueue_full [OF assms] by simp
qed

lemma try_dequeue_eq:
  assumes "cb_inv q"
  shows "try_dequeue q =
    (if queue_list q = [] then (False, None, q) else (True, Some (hd (queue_list q)), dequeued q))"
proof (cases "count q = 0")
  case True
  then have "queue_list q = []" by (simp add: queue_list_def)
  then show ?thesis using assms True by (simp add: try_dequeue_def tryWait_def cb_inv_def)
next
  case False
  then have "0 < m_count (items q)" using assms unfolding cb_inv_def by simp
  moreover have "data q ! cell q (nextItem q + of_nat 0) \<noteq> None"
    using assms False unfolding cb_inv_def by blast
  ultimately show ?thesis using False
    by (auto simp: try_dequeue_def tryWait_def dequeued_def inner_dequeue_def inner_pop_def
        queue_list_Cons cell_def Let_def)
qed

lemma try_pop_eq:
  assumes "cb_inv q"
  shows "try_pop q = (if queue_list q = [] then (False, q) else (True, dequeued q))"
  using try_dequeue_eq [OF assms]
  by (auto simp: try_pop_def try_dequeue_def tryWait_def inner_dequeue_def inner_pop_def Let_def
      split: if_splits)

section \<open>The queue interface\<close>

text \<open>
  What a client of the queue relies on: a list of at most \<open>cap\<close> items, appended to and consumed
  from the front, where an operation that cannot proceed fails and changes nothing. \<open>run_ops\<close>
  executes a sequence of calls and collects the accepted and the delivered items.
\<close>

datatype 'a queue_op = Enqueue 'a | Dequeue

fun run_ops :: "('a \<Rightarrow> 'q \<Rightarrow> bool \<times> 'q) \<Rightarrow> ('q \<Rightarrow> bool \<times> 'a option \<times> 'q) \<Rightarrow>
    'a queue_op list \<Rightarrow> 'q \<Rightarrow> 'a list \<times> 'a list \<times> 'q" where
  "run_ops enq deq [] q = ([], [], q)"
| "run_ops enq deq (Enqueue x # ops) q =
     (let (b, q') = enq x q; (acc, del, q'') = run_ops enq deq ops q'
      in (if b then x # acc else acc, del, q''))"
| "run_ops enq deq (Dequeue # ops) q =
     (let (b, r, q') = deq q; (acc, del, q'') = run_ops enq deq ops q'
      in (acc, (case r of None \<Rightarrow> del | Some x \<Rightarrow> x # del), q''))"

locale bounded_queue =
  fixes ok :: "'q \<Rightarrow> bool" and content :: "'q \<Rightarrow> 'a list" and cap :: "'q \<Rightarrow> nat"
    and enq :: "'a \<Rightarrow> 'q \<Rightarrow> bool \<times> 'q" and deq :: "'q \<Rightarrow> bool \<times> 'a option \<times> 'q"
  assumes bounded: "ok q \<Longrightarrow> length (content q) \<le> cap q"
    and enq_spec: "ok q \<Longrightarrow> enq x q = (b, q') \<Longrightarrow>
      b = (length (content q) < cap q) \<and> ok q' \<and> cap q' = cap q
      \<and> content q' = (if b then content q @ [x] else content q)"
    and deq_spec: "ok q \<Longrightarrow> deq q = (b, r, q') \<Longrightarrow>
      b = (content q \<noteq> []) \<and> ok q' \<and> cap q' = cap q
      \<and> r = (if b then Some (hd (content q)) else None)
      \<and> content q' = (if b then tl (content q) else content q)"
begin

lemma enqE:
  assumes "ok q"
  obtains b q' where "enq x q = (b, q')" "b = (length (content q) < cap q)" "ok q'"
    "cap q' = cap q" "content q' = (if b then content q @ [x] else content q)"
  using assms enq_spec [of q x] by (metis surj_pair)

lemma deqE:
  assumes "ok q"
  obtains r q' where "deq q = (content q \<noteq> [], r, q')" "ok q'" "cap q' = cap q"
    "r = (if content q = [] then None else Some (hd (content q)))"
    "content q' = tl (content q)"
proof -
  obtain b r q' where d: "deq q = (b, r, q')" by (metis prod_cases3)
  from deq_spec [OF assms d] show ?thesis
    using that [of r q'] d by (auto split: if_splits)
qed

text \<open>What was accepted comes out in the same order; what has not come out is still queued.\<close>

lemma run_fifo:
  assumes "ok q" "run_ops enq deq ops q = (acc, del, q')"
  shows "ok q' \<and> cap q' = cap q \<and> content q @ acc = del @ content q'"
  using assms
proof (induction ops arbitrary: q acc del q')
  case (Cons op ops)
  show ?case
  proof (cases op)
    case (Enqueue x)
    obtain b q1 where e: "enq x q = (b, q1)" "ok q1" "cap q1 = cap q"
        "content q1 = (if b then content q @ [x] else content q)"
      using Cons.prems(1) by (rule enqE)
    obtain acc1 where "run_ops enq deq ops q1 = (acc1, del, q')" "acc = (if b then x # acc1 else acc1)"
      using Cons.prems(2) Enqueue e(1) by (auto split: prod.splits)
    then show ?thesis using Cons.IH [OF e(2)] e by (auto split: if_splits)
  next
    case Dequeue
    obtain r q1 where d: "deq q = (content q \<noteq> [], r, q1)" "ok q1" "cap q1 = cap q"
        "r = (if content q = [] then None else Some (hd (content q)))" "content q1 = tl (content q)"
      using Cons.prems(1) by (rule deqE)
    obtain del1 where "run_ops enq deq ops q1 = (acc, del1, q')"
        "del = (case r of None \<Rightarrow> del1 | Some x \<Rightarrow> x # del1)"
      using Cons.prems(2) Dequeue d(1) by (auto split: prod.splits)
    then show ?thesis using Cons.IH [OF d(2)] d(3-) by (cases "content q") auto
  qed
qed simp

end

interpretation cb: bounded_queue cb_inv queue_list "\<lambda>q. unat (maxcap q)" try_enqueue try_dequeue
proof
  fix q q' :: "'a circular_buffer" and x :: 'a and b and r
  show "length (queue_list q) \<le> unat (maxcap q)" if "cb_inv q"
    using that by (simp add: count_bound)
  show "b = (length (queue_list q) < unat (maxcap q)) \<and> cb_inv q' \<and> unat (maxcap q') = unat (maxcap q)
      \<and> queue_list q' = (if b then queue_list q @ [x] else queue_list q)"
    if "cb_inv q" "try_enqueue x q = (b, q')"
    using that enqueued_inv [of q x] enqueued_sel(1) [of q x]
    by (auto simp: try_enqueue_eq cb_inv_def split: if_splits)
  show "b = (queue_list q \<noteq> []) \<and> cb_inv q' \<and> unat (maxcap q') = unat (maxcap q)
      \<and> r = (if b then Some (hd (queue_list q)) else None)
      \<and> queue_list q' = (if b then tl (queue_list q) else queue_list q)"
    if "cb_inv q" "try_dequeue q = (b, r, q')"
  proof (cases "queue_list q = []")
    case False
    then have "0 < count q" by (metis length_queue_list length_greater_0_conv)
    then show ?thesis using that False dequeued_inv [of q]
      by (auto simp: try_dequeue_eq dequeued_def inner_pop_def Let_def)
  qed (use that in \<open>auto simp: try_dequeue_eq\<close>)
qed

section \<open>Properties\<close>



text \<open>
  C35. The constructor rounds the capacity up to the least power of two: the ring has \<open>mask + 1\<close>
  cells, a power of two that is at least the capacity and less than twice it, so masking an
  index is reduction modulo the number of cells.
\<close>

theorem new_buffer_ring:
  assumes "0 < unat capacity" "unat capacity \<le> 2 ^ 63"
  shows "let q = new_buffer capacity :: 'a circular_buffer
    in \<exists>n. length (data q) = 2 ^ n \<and> unat capacity \<le> 2 ^ n \<and> 2 ^ n < 2 * unat capacity
       \<and> (\<forall>i. cell q i = unat i mod length (data q))"
proof -
  have "0 < capacity" using assms(1) by (simp add: word_less_unat)
  then obtain n where n: "n \<le> 63" "round_mask capacity = 2 ^ n - 1" "unat capacity \<le> 2 ^ n"
      "n = 0 \<or> 2 ^ (n - 1) < unat capacity"
    by (rule round_mask_power) (use assms in simp)
  have "(2::nat) ^ n < 2 * unat capacity"
    using n(4) assms(1) by (cases n) auto
  moreover have "length (data (new_buffer capacity :: 'a circular_buffer)) = 2 ^ n"
    using n(1,2) by (simp add: new_buffer_def unat_exp)
  moreover have "cell (new_buffer capacity :: 'a circular_buffer) i = unat i mod 2 ^ n" for i
    using n(1,2) by (simp add: cell_def unat_and_mask new_buffer_def)
  ultimately show ?thesis using n(3) by (auto simp: Let_def)
qed

theorem new_buffer_ring_witness:
  "length (data (new_buffer 5 :: nat circular_buffer)) = 8
   \<and> (\<exists>n. length (data (new_buffer 5 :: nat circular_buffer)) = 2 ^ n)"
  using new_buffer_ring [of 5, where 'a = nat] by (auto simp: new_buffer_def round_mask_def smear_def)

end
