(* ===== verification/Spsc_Concurrent.thy ===== *)
theory Spsc_Concurrent
  imports Circular_Buffer
begin

text \<open>
  One producer thread and one consumer thread on the buffer of \<open>Circular_Buffer\<close>, interleaved at
  the granularity of the atomic operations of \<^verbatim>\<open>LightweightSemaphore\<close>: each load, fetch-and-add
  and kernel semaphore call, each counter increment and each cell access is one step of
  \<open>spsc_step\<close>. Steps are sequentially consistent; the acquire and release annotations of the
  source are not modelled. A kernel wait may also fail, as \<^verbatim>\<open>sem_wait\<close> and \<^verbatim>\<open>sem_timedwait\<close> may.
\<close>

section \<open>Waiting on a semaphore\<close>

text \<open>\<open>Try\<close>: \<^verbatim>\<open>tryWait()\<close>; \<open>Block\<close>: \<^verbatim>\<open>while (!wait());\<close>; \<open>Timed t\<close>: \<^verbatim>\<open>wait(t)\<close>.\<close>

datatype wait_mode = Try | Block | Timed int

fun timeout_usecs :: "wait_mode \<Rightarrow> int" where
  "timeout_usecs (Timed t) = t"
| "timeout_usecs _ = -1"

text \<open>Control points of \<^verbatim>\<open>tryWait() || waitWithPartialSpinning(timeout)\<close>.\<close>

datatype wait_pc =
    Try_load | Try_take
  | Spin nat | Spin_take
  | Decrement | Kernel_wait | Timed_wait
  | Restore | Redecrement | Kernel_try
  | Acquired | Gave_up

definition add_count :: "int \<Rightarrow> LightweightSemaphore \<Rightarrow> LightweightSemaphore" where
  "add_count d s = s\<lparr>m_count := m_count s + d\<rparr>"

definition after_decrement :: "wait_mode \<Rightarrow> wait_pc" where
  "after_decrement mode =
     (if timeout_usecs mode < 0 then Kernel_wait
      else if 0 < timeout_usecs mode then Timed_wait else Restore)"

inductive wait_step :: "wait_mode \<Rightarrow> LightweightSemaphore \<times> wait_pc \<Rightarrow>
    LightweightSemaphore \<times> wait_pc \<Rightarrow> bool" for mode where
  try_load_pos: "0 < m_count s \<Longrightarrow> wait_step mode (s, Try_load) (s, Try_take)"
| try_load_none: "m_count s \<le> 0 \<Longrightarrow>
    wait_step mode (s, Try_load) (s, if mode = Try then Gave_up else Spin 1024)"
| try_take: "wait_step mode (s, Try_take) (add_count (-1) s, Acquired)"
| spin_pos: "0 < m_count s \<Longrightarrow> wait_step mode (s, Spin (Suc n)) (s, Spin_take)"
| spin_none: "m_count s \<le> 0 \<Longrightarrow> wait_step mode (s, Spin (Suc n)) (s, Spin n)"
| spin_end: "wait_step mode (s, Spin 0) (s, Decrement)"
| spin_take: "wait_step mode (s, Spin_take) (add_count (-1) s, Acquired)"
| decrement_pos: "0 < m_count s \<Longrightarrow> wait_step mode (s, Decrement) (add_count (-1) s, Acquired)"
| decrement_none: "m_count s \<le> 0 \<Longrightarrow>
    wait_step mode (s, Decrement) (add_count (-1) s, after_decrement mode)"
| kernel_ok: "0 < m_sema s \<Longrightarrow> w \<in> {Kernel_wait, Timed_wait, Kernel_try} \<Longrightarrow>
    wait_step mode (s, w) (s\<lparr>m_sema := m_sema s - 1\<rparr>, Acquired)"
| kernel_failed: "w \<in> {Kernel_wait, Timed_wait} \<Longrightarrow> wait_step mode (s, w) (s, Restore)"
| kernel_try_none: "m_sema s = 0 \<Longrightarrow> wait_step mode (s, Kernel_try) (s, Restore)"
| restored: "m_count s < 0 \<Longrightarrow> wait_step mode (s, Restore) (add_count 1 s, Gave_up)"
| signalled: "0 \<le> m_count s \<Longrightarrow> wait_step mode (s, Restore) (add_count 1 s, Redecrement)"
| redecrement_pos: "0 < m_count s \<Longrightarrow>
    wait_step mode (s, Redecrement) (add_count (-1) s, Kernel_try)"
| redecrement_none: "m_count s \<le> 0 \<Longrightarrow>
    wait_step mode (s, Redecrement) (add_count (-1) s, Restore)"

text \<open>Control points of \<^verbatim>\<open>signal()\<close>.\<close>

datatype signal_pc = Post | Kernel_post | Posted

inductive signal_step :: "LightweightSemaphore \<times> signal_pc \<Rightarrow>
    LightweightSemaphore \<times> signal_pc \<Rightarrow> bool" where
  post: "signal_step (s, Post) (add_count 1 s, if m_count s < 0 then Kernel_post else Posted)"
| kernel_post: "signal_step (s, Kernel_post) (s\<lparr>m_sema := m_sema s + 1\<rparr>, Posted)"

inductive_cases wait_stepE: "wait_step mode (s, w) (s', w')"
inductive_cases signal_stepE: "signal_step (s, g) (s', g')"

section \<open>Tokens\<close>

text \<open>
  \<open>sem_tokens s w p a\<close>: a semaphore whose only waiter is at \<open>w\<close> and whose only signaller owes a
  kernel post iff \<open>p\<close> holds \<open>a\<close> tokens. A waiter past its decrement has borrowed one count, and
  the kernel semaphore holds (or is owed) one unit exactly when that waiter has been granted a token.
\<close>

definition waiting :: "wait_pc \<Rightarrow> bool" where
  "waiting w \<longleftrightarrow> w \<in> {Kernel_wait, Timed_wait, Restore, Kernel_try}"

definition sem_tokens :: "LightweightSemaphore \<Rightarrow> wait_pc \<Rightarrow> bool \<Rightarrow> nat \<Rightarrow> bool" where
  "sem_tokens s w p a \<longleftrightarrow>
     m_count s = int a - (if waiting w then 1 else 0)
     \<and> m_sema s + (if p then 1 else 0) = (if waiting w \<and> 0 < a \<or> w = Redecrement then 1 else 0)
     \<and> (w \<in> {Try_take, Spin_take, Redecrement, Kernel_try} \<longrightarrow> 0 < a)"

lemma sem_tokens_new: "0 \<le> c \<Longrightarrow> sem_tokens (new_semaphore c) Acquired False (nat c)"
  by (simp add: sem_tokens_def new_semaphore_def waiting_def)


lemma sem_tokens_active:
  "sem_tokens s Try_load p a \<longleftrightarrow> m_count s = int a \<and> m_sema s = 0 \<and> \<not> p"
  "sem_tokens s Try_take p a \<longleftrightarrow> m_count s = int a \<and> m_sema s = 0 \<and> \<not> p \<and> 0 < a"
  "sem_tokens s (Spin n) p a \<longleftrightarrow> m_count s = int a \<and> m_sema s = 0 \<and> \<not> p"
  "sem_tokens s Spin_take p a \<longleftrightarrow> m_count s = int a \<and> m_sema s = 0 \<and> \<not> p \<and> 0 < a"
  "sem_tokens s Decrement p a \<longleftrightarrow> m_count s = int a \<and> m_sema s = 0 \<and> \<not> p"
  "sem_tokens s Acquired p a \<longleftrightarrow> m_count s = int a \<and> m_sema s = 0 \<and> \<not> p"
  "sem_tokens s Gave_up p a \<longleftrightarrow> m_count s = int a \<and> m_sema s = 0 \<and> \<not> p"
  by (auto simp: sem_tokens_def waiting_def)

lemma sem_tokens_waiting:
  "waiting w \<Longrightarrow> sem_tokens s w p a \<longleftrightarrow> m_count s = int a - 1
     \<and> m_sema s + (if p then 1 else 0) = (if 0 < a then 1 else 0) \<and> (w = Kernel_try \<longrightarrow> 0 < a)"
  "sem_tokens s Redecrement p a \<longleftrightarrow> m_count s = int a
     \<and> m_sema s + (if p then 1 else 0) = 1 \<and> 0 < a"
  by (auto simp: sem_tokens_def waiting_def)

lemma waiting_pcs [simp]: "waiting Kernel_wait" "waiting Timed_wait" "waiting Restore"
    "waiting Kernel_try"
  by (simp_all add: waiting_def)

lemmas sem_tokens_pc = sem_tokens_active sem_tokens_waiting

lemma wait_step_tokens:
  assumes "wait_step mode (s, w) (s', w')" "sem_tokens s w p a"
  shows "if w' = Acquired then 0 < a \<and> sem_tokens s' w' p (a - 1) else sem_tokens s' w' p a"
  using assms
  by (elim wait_stepE) (auto simp: sem_tokens_pc add_count_def after_decrement_def split: if_splits)

lemma post_tokens:
  assumes "signal_step (s, Post) (s', g')" "sem_tokens s w False a"
  shows "sem_tokens s' w (g' = Kernel_post) (a + 1) \<and> g' \<noteq> Post"
proof -
  have s': "s' = add_count 1 s" "g' = (if m_count s < 0 then Kernel_post else Posted)"
    using assms(1) by (auto elim: signal_stepE)
  show ?thesis
    using assms(2) unfolding s' by (cases "waiting w"; cases "a = 0")
      (auto simp: sem_tokens_def add_count_def split: if_splits)
qed

lemma kernel_post_tokens:
  assumes "signal_step (s, Kernel_post) (s', g')" "sem_tokens s w True a"
  shows "sem_tokens s' w False a \<and> g' = Posted"
  using assms by (elim signal_stepE) (auto simp: sem_tokens_def split: if_splits)

section \<open>Producer and consumer\<close>

text \<open>
  The producer runs any sequence of \<^verbatim>\<open>try_enqueue\<close>, \<^verbatim>\<open>wait_enqueue\<close> and
  \<^verbatim>\<open>wait_enqueue_timed\<close> calls, the consumer any sequence of the dequeues. \<open>accepted\<close> and
  \<open>delivered\<close> record the written and the read items; \<open>delivered\<close> holds what the cell held.
\<close>

datatype 'a producer_pc =
    P_idle | P_wait wait_mode 'a wait_pc | P_claim 'a | P_write 'a u64 | P_signal signal_pc

datatype consumer_pc =
    C_idle | C_wait wait_mode wait_pc | C_claim | C_read u64 | C_destroy u64 | C_signal signal_pc

record 'a spsc =
  buf :: "'a circular_buffer"
  ppc :: "'a producer_pc"
  cpc :: consumer_pc
  accepted :: "'a list"
  delivered :: "'a option list"

definition spsc_init :: "u64 \<Rightarrow> 'a spsc" where
  "spsc_init capacity =
     \<lparr>buf = new_buffer capacity, ppc = P_idle, cpc = C_idle, accepted = [], delivered = []\<rparr>"

definition set_cell :: "u64 \<Rightarrow> 'a option \<Rightarrow> 'a circular_buffer \<Rightarrow> 'a circular_buffer" where
  "set_cell i v q = q\<lparr>data := (data q)[cell q i := v]\<rparr>"

inductive producer_step :: "'a spsc \<Rightarrow> 'a spsc \<Rightarrow> bool" where
  p_call: "ppc st = P_idle \<Longrightarrow> producer_step st (st\<lparr>ppc := P_wait mode x Try_load\<rparr>)"
| p_wait: "ppc st = P_wait mode x w \<Longrightarrow> wait_step mode (slots (buf st), w) (s', w') \<Longrightarrow>
    producer_step st (st\<lparr>buf := (buf st)\<lparr>slots := s'\<rparr>, ppc := P_wait mode x w'\<rparr>)"
| p_acquired: "ppc st = P_wait mode x Acquired \<Longrightarrow> producer_step st (st\<lparr>ppc := P_claim x\<rparr>)"
| p_gave_up: "ppc st = P_wait mode x Gave_up \<Longrightarrow>
    producer_step st (st\<lparr>ppc := if mode = Block then P_wait mode x Try_load else P_idle\<rparr>)"
| p_claim: "ppc st = P_claim x \<Longrightarrow>
    producer_step st (st\<lparr>buf := (buf st)\<lparr>nextSlot := nextSlot (buf st) + 1\<rparr>,
                        ppc := P_write x (nextSlot (buf st))\<rparr>)"
| p_write: "ppc st = P_write x i \<Longrightarrow>
    producer_step st (st\<lparr>buf := set_cell i (Some x) (buf st), ppc := P_signal Post,
                        accepted := accepted st @ [x]\<rparr>)"
| p_signal: "ppc st = P_signal g \<Longrightarrow> signal_step (items (buf st), g) (s', g') \<Longrightarrow>
    producer_step st (st\<lparr>buf := (buf st)\<lparr>items := s'\<rparr>, ppc := P_signal g'\<rparr>)"
| p_return: "ppc st = P_signal Posted \<Longrightarrow> producer_step st (st\<lparr>ppc := P_idle\<rparr>)"

inductive consumer_step :: "'a spsc \<Rightarrow> 'a spsc \<Rightarrow> bool" where
  c_call: "cpc st = C_idle \<Longrightarrow> consumer_step st (st\<lparr>cpc := C_wait mode Try_load\<rparr>)"
| c_wait: "cpc st = C_wait mode w \<Longrightarrow> wait_step mode (items (buf st), w) (s', w') \<Longrightarrow>
    consumer_step st (st\<lparr>buf := (buf st)\<lparr>items := s'\<rparr>, cpc := C_wait mode w'\<rparr>)"
| c_acquired: "cpc st = C_wait mode Acquired \<Longrightarrow> consumer_step st (st\<lparr>cpc := C_claim\<rparr>)"
| c_gave_up: "cpc st = C_wait mode Gave_up \<Longrightarrow>
    consumer_step st (st\<lparr>cpc := if mode = Block then C_wait mode Try_load else C_idle\<rparr>)"
| c_claim: "cpc st = C_claim \<Longrightarrow>
    consumer_step st (st\<lparr>buf := (buf st)\<lparr>nextItem := nextItem (buf st) + 1\<rparr>,
                        cpc := C_read (nextItem (buf st))\<rparr>)"
| c_read: "cpc st = C_read i \<Longrightarrow>
    consumer_step st (st\<lparr>cpc := C_destroy i,
                        delivered := delivered st @ [data (buf st) ! cell (buf st) i]\<rparr>)"
| c_destroy: "cpc st = C_destroy i \<Longrightarrow>
    consumer_step st (st\<lparr>buf := set_cell i None (buf st), cpc := C_signal Post\<rparr>)"
| c_signal: "cpc st = C_signal g \<Longrightarrow> signal_step (slots (buf st), g) (s', g') \<Longrightarrow>
    consumer_step st (st\<lparr>buf := (buf st)\<lparr>slots := s'\<rparr>, cpc := C_signal g'\<rparr>)"
| c_return: "cpc st = C_signal Posted \<Longrightarrow> consumer_step st (st\<lparr>cpc := C_idle\<rparr>)"

inductive spsc_reach :: "u64 \<Rightarrow> 'a spsc \<Rightarrow> bool" for capacity where
  spsc_start: "spsc_reach capacity (spsc_init capacity)"
| spsc_producer: "spsc_reach capacity st \<Longrightarrow> producer_step st st' \<Longrightarrow> spsc_reach capacity st'"
| spsc_consumer: "spsc_reach capacity st \<Longrightarrow> consumer_step st st' \<Longrightarrow> spsc_reach capacity st'"

section \<open>The invariant\<close>

text \<open>What a thread holds at each of its control points.\<close>

fun p_wpc :: "'a producer_pc \<Rightarrow> wait_pc" where
  "p_wpc (P_wait mode x w) = w"
| "p_wpc _ = Acquired"

fun p_held :: "'a producer_pc \<Rightarrow> nat" where
  "p_held (P_wait mode x Acquired) = 1"
| "p_held (P_claim x) = 1"
| "p_held (P_write x i) = 1"
| "p_held _ = 0"

fun c_wpc :: "consumer_pc \<Rightarrow> wait_pc" where
  "c_wpc (C_wait mode w) = w"
| "c_wpc _ = Acquired"

fun c_held :: "consumer_pc \<Rightarrow> nat" where
  "c_held (C_wait mode Acquired) = 1"
| "c_held C_claim = 1"
| "c_held (C_read i) = 1"
| "c_held _ = 0"

fun c_unposted :: "consumer_pc \<Rightarrow> nat" where
  "c_unposted (C_destroy i) = 1"
| "c_unposted (C_signal Post) = 1"
| "c_unposted _ = 0"

definition tokens_inv :: "'a spsc \<Rightarrow> nat \<Rightarrow> nat \<Rightarrow> bool" where
  "tokens_inv st sa ia \<longleftrightarrow>
     sem_tokens (slots (buf st)) (p_wpc (ppc st)) (cpc st = C_signal Kernel_post) sa
     \<and> sem_tokens (items (buf st)) (c_wpc (cpc st)) (ppc st = P_signal Kernel_post) ia
     \<and> sa + length (accepted st) + p_held (ppc st) + c_unposted (cpc st)
         = unat (maxcap (buf st)) + length (delivered st)
     \<and> length (accepted st)
         = ia + length (delivered st) + c_held (cpc st) + of_bool (ppc st = P_signal Post)"

definition index_inv :: "'a spsc \<Rightarrow> bool" where
  "index_inv st \<longleftrightarrow>
     (case ppc st of P_write x i \<Rightarrow> i = of_nat (length (accepted st)) \<and> nextSlot (buf st) = i + 1
        | _ \<Rightarrow> nextSlot (buf st) = of_nat (length (accepted st)))
     \<and> (case cpc st of C_read i \<Rightarrow> i = of_nat (length (delivered st)) \<and> nextItem (buf st) = i + 1
        | C_destroy i \<Rightarrow> i + 1 = of_nat (length (delivered st)) \<and> delivered st \<noteq> []
            \<and> nextItem (buf st) = i + 1
        | _ \<Rightarrow> nextItem (buf st) = of_nat (length (delivered st)))"

text \<open>The cells between the two counters hold the items; a cell being read stays until destroyed.\<close>

definition cells_inv :: "'a spsc \<Rightarrow> nat \<Rightarrow> bool" where
  "cells_inv st n \<longleftrightarrow>
     ring_ok (buf st) n
     \<and> (\<forall>j. length (delivered st) \<le> j \<and> j < length (accepted st) \<longrightarrow>
          data (buf st) ! (j mod 2 ^ n) = Some (accepted st ! j))
     \<and> (\<forall>j. length (accepted st) \<le> j
            \<and> j + of_bool (\<exists>i. cpc st = C_destroy i) < length (delivered st) + 2 ^ n \<longrightarrow>
          data (buf st) ! (j mod 2 ^ n) = None)
     \<and> delivered st = map Some (take (length (delivered st)) (accepted st))"

definition spsc_inv :: "'a spsc \<Rightarrow> bool" where
  "spsc_inv st \<longleftrightarrow>
     (\<exists>sa ia. tokens_inv st sa ia) \<and> index_inv st \<and> (\<exists>n. cells_inv st n)"

lemma held_wait [simp]:
  "p_held (P_wait mode x w) = of_bool (w = Acquired)"
  "c_held (C_wait mode w) = of_bool (w = Acquired)"
  by (cases w; simp)+

lemma unposted_signal [simp]: "c_unposted (C_signal g) = of_bool (g = Post)"
  by (cases g) simp_all

lemma wait_step_start: "wait_step mode (s, w) (s', w') \<Longrightarrow> w \<noteq> Acquired"
  by (auto elim: wait_stepE)

lemma signal_step_start: "signal_step (s, g) (s', g') \<Longrightarrow> g \<noteq> Posted"
  by (auto elim: signal_stepE)

text \<open>Tokens are conserved by every step of either thread.\<close>

lemma tokens_wait_slots:
  assumes "tokens_inv st sa ia" "ppc st = P_wait mode x w"
    and step: "wait_step mode (slots (buf st), w) (s', w')"
  shows "tokens_inv (st\<lparr>buf := (buf st)\<lparr>slots := s'\<rparr>, ppc := P_wait mode x w'\<rparr>)
    (if w' = Acquired then sa - 1 else sa) ia"
  using assms(1,2) wait_step_start [OF step]
    wait_step_tokens [OF step, of "cpc st = C_signal Kernel_post" sa]
  by (auto simp: tokens_inv_def split: if_splits)

lemma tokens_wait_items:
  assumes "tokens_inv st sa ia" "cpc st = C_wait mode w"
    and step: "wait_step mode (items (buf st), w) (s', w')"
  shows "tokens_inv (st\<lparr>buf := (buf st)\<lparr>items := s'\<rparr>, cpc := C_wait mode w'\<rparr>)
    sa (if w' = Acquired then ia - 1 else ia)"
  using assms(1,2) wait_step_start [OF step]
    wait_step_tokens [OF step, of "ppc st = P_signal Kernel_post" ia]
  by (auto simp: tokens_inv_def split: if_splits)

lemma tokens_signal_items:
  assumes "tokens_inv st sa ia" "ppc st = P_signal g"
    and step: "signal_step (items (buf st), g) (s', g')"
  shows "tokens_inv (st\<lparr>buf := (buf st)\<lparr>items := s'\<rparr>, ppc := P_signal g'\<rparr>)
    sa (if g = Post then ia + 1 else ia)"
proof (cases g)
  case Post
  then show ?thesis using assms(1,2) post_tokens [of "items (buf st)" s' g' "c_wpc (cpc st)" ia] step
    by (auto simp: tokens_inv_def)
next
  case Kernel_post
  then show ?thesis
    using assms(1,2) kernel_post_tokens [of "items (buf st)" s' g' "c_wpc (cpc st)" ia] step
    by (auto simp: tokens_inv_def)
qed (use signal_step_start [OF step] in simp)

lemma tokens_signal_slots:
  assumes "tokens_inv st sa ia" "cpc st = C_signal g"
    and step: "signal_step (slots (buf st), g) (s', g')"
  shows "tokens_inv (st\<lparr>buf := (buf st)\<lparr>slots := s'\<rparr>, cpc := C_signal g'\<rparr>)
    (if g = Post then sa + 1 else sa) ia"
proof (cases g)
  case Post
  then show ?thesis using assms(1,2) post_tokens [of "slots (buf st)" s' g' "p_wpc (ppc st)" sa] step
    by (auto simp: tokens_inv_def)
next
  case Kernel_post
  then show ?thesis
    using assms(1,2) kernel_post_tokens [of "slots (buf st)" s' g' "p_wpc (ppc st)" sa] step
    by (auto simp: tokens_inv_def)
qed (use signal_step_start [OF step] in simp)

lemma tokens_producer:
  assumes "producer_step st st'" "tokens_inv st sa ia"
  shows "\<exists>sa ia. tokens_inv st' sa ia"
  using assms
proof cases
  case (p_wait mode x w s' w')
  then show ?thesis using tokens_wait_slots [OF assms(2)] by blast
next
  case (p_signal g s' g')
  then show ?thesis using tokens_signal_items [OF assms(2)] by blast
qed ((rule exI [of _ sa], rule exI [of _ ia],
    use assms(2) in \<open>force simp: tokens_inv_def sem_tokens_active set_cell_def\<close>)+)

lemma tokens_consumer:
  assumes "consumer_step st st'" "tokens_inv st sa ia"
  shows "\<exists>sa ia. tokens_inv st' sa ia"
  using assms
proof cases
  case (c_wait mode w s' w')
  then show ?thesis using tokens_wait_items [OF assms(2)] by blast
next
  case (c_signal g s' g')
  then show ?thesis using tokens_signal_slots [OF assms(2)] by blast
qed ((rule exI [of _ sa], rule exI [of _ ia],
    use assms(2) in \<open>force simp: tokens_inv_def sem_tokens_active set_cell_def\<close>)+)


lemma index_producer:
  assumes "producer_step st st'" "index_inv st"
  shows "index_inv st'"
  using assms by cases (auto simp: index_inv_def set_cell_def split: consumer_pc.splits)

lemma index_consumer:
  assumes "consumer_step st st'" "index_inv st"
  shows "index_inv st'"
  using assms by cases (auto simp: index_inv_def set_cell_def split: producer_pc.splits)

text \<open>The counters bound each other, so a write and a read never meet in the ring.\<close>

lemma tokens_bounds:
  assumes "tokens_inv st sa ia"
  shows "length (delivered st) + c_held (cpc st) \<le> length (accepted st)"
    "length (accepted st) + p_held (ppc st) + c_unposted (cpc st)
       \<le> length (delivered st) + unat (maxcap (buf st))"
  using assms by (auto simp: tokens_inv_def)

lemma cell_of_nat: "ring_ok q n \<Longrightarrow> cell q (of_nat j) = j mod 2 ^ n"
  using cell_add [of q n 0 j] by (simp add: ring_ok_def)

lemma mod_neq:
  fixes j k m :: nat
  assumes "j < k" "k < j + m"
  shows "j mod m \<noteq> k mod m"
  using mod_eq_close [of j m k] assms by auto

lemma ring_ok_upd [simp]:
  "ring_ok (q\<lparr>slots := s\<rparr>) n = ring_ok q n" "ring_ok (q\<lparr>items := s\<rparr>) n = ring_ok q n"
  "ring_ok (q\<lparr>nextSlot := i\<rparr>) n = ring_ok q n" "ring_ok (q\<lparr>nextItem := i\<rparr>) n = ring_ok q n"
  "ring_ok (set_cell i v q) n = ring_ok q n"
  by (simp_all add: ring_ok_def set_cell_def)

lemma data_set_cell:
  assumes "ring_ok q n"
  shows "data (set_cell (of_nat j) v q) ! (k mod 2 ^ n)
    = (if k mod 2 ^ n = j mod 2 ^ n then v else data q ! (k mod 2 ^ n))"
  using assms cell_of_nat [OF assms(1), of j] by (auto simp: set_cell_def ring_ok_def nth_list_update_if)

lemma cells_write:
  assumes cells: "cells_inv st n" and pc: "ppc st = P_write x i"
    and "tokens_inv st sa ia" "index_inv st"
  shows "cells_inv (st\<lparr>buf := set_cell i (Some x) (buf st), ppc := P_signal Post,
      accepted := accepted st @ [x]\<rparr>) n"
proof -
  let ?E = "length (accepted st)" and ?D = "length (delivered st)"
  have i: "i = of_nat ?E" using assms by (auto simp: index_inv_def)
  have ok: "ring_ok (buf st) n" using cells by (simp add: cells_inv_def)
  then have "unat (maxcap (buf st)) \<le> 2 ^ n" by (simp add: ring_ok_def)
  then have b: "?D \<le> ?E" "?E < ?D + 2 ^ n"
    using tokens_bounds [OF assms(3)] pc by auto
  note upd = data_set_cell [OF ok, of ?E]
  have "data (set_cell i (Some x) (buf st)) ! (j mod 2 ^ n) = Some ((accepted st @ [x]) ! j)"
    if "?D \<le> j" "j < Suc ?E" for j
    using that cells mod_neq [of j ?E "2 ^ n"] b unfolding i upd
    by (cases "j = ?E") (auto simp: cells_inv_def nth_append)
  moreover have "data (set_cell i (Some x) (buf st)) ! (j mod 2 ^ n) = None"
    if "Suc ?E \<le> j" "j + of_bool (\<exists>i. cpc st = C_destroy i) < ?D + 2 ^ n" for j
    using that cells mod_neq [of ?E j "2 ^ n"] b unfolding i upd
    by (auto simp: cells_inv_def)
  moreover have "delivered st = map Some (take ?D (accepted st @ [x]))"
    using cells b by (simp add: cells_inv_def)
  ultimately show ?thesis using ok by (simp add: cells_inv_def)
qed

lemma cells_read:
  assumes cells: "cells_inv st n" and pc: "cpc st = C_read i"
    and "tokens_inv st sa ia" "index_inv st"
  shows "cells_inv (st\<lparr>cpc := C_destroy i,
      delivered := delivered st @ [data (buf st) ! cell (buf st) i]\<rparr>) n"
proof -
  let ?E = "length (accepted st)" and ?D = "length (delivered st)"
  have ok: "ring_ok (buf st) n" using cells by (simp add: cells_inv_def)
  have i: "cell (buf st) i = ?D mod 2 ^ n"
    using assms cell_of_nat [OF ok] by (auto simp: index_inv_def)
  have b: "?D < ?E" using tokens_bounds [OF assms(3)] pc by simp
  have dl: "delivered st = map Some (take ?D (accepted st))"
    using cells by (simp add: cells_inv_def)
  have "delivered st @ [data (buf st) ! (?D mod 2 ^ n)] = map Some (take (Suc ?D) (accepted st))"
    using cells b dl by (simp add: cells_inv_def take_Suc_conv_app_nth)
  then show ?thesis using cells b pc by (auto simp: cells_inv_def i)
qed

lemma cells_destroy:
  assumes cells: "cells_inv st n" and pc: "cpc st = C_destroy i"
    and "tokens_inv st sa ia" "index_inv st"
  shows "cells_inv (st\<lparr>buf := set_cell i None (buf st), cpc := C_signal Post\<rparr>) n"
proof -
  let ?E = "length (accepted st)" and ?D = "length (delivered st)"
  have ok: "ring_ok (buf st) n" using cells by (simp add: cells_inv_def)
  then have "unat (maxcap (buf st)) \<le> 2 ^ n" by (simp add: ring_ok_def)
  then have b: "?D \<le> ?E" "?E < ?D + 2 ^ n" "0 < ?D"
    using tokens_bounds [OF assms(3)] assms(4) pc by (auto simp: index_inv_def)
  have "i + 1 = of_nat ?D" using assms by (auto simp: index_inv_def)
  moreover obtain d where "?D = Suc d" using b(3) by (cases ?D) auto
  ultimately have i: "i = of_nat (?D - 1)" by (simp add: add.commute [of 1])
  note upd = data_set_cell [OF ok, of "?D - 1"]
  have "data (set_cell i None (buf st)) ! (j mod 2 ^ n) = Some (accepted st ! j)"
    if "?D \<le> j" "j < ?E" for j
  proof -
    have "j mod 2 ^ n \<noteq> (?D - 1) mod 2 ^ n"
      by (rule mod_neq [symmetric]) (use that b in linarith)+
    then show ?thesis using that cells unfolding i upd by (simp add: cells_inv_def)
  qed
  moreover have "data (set_cell i None (buf st)) ! (j mod 2 ^ n) = None"
    if "?E \<le> j" "j < ?D + 2 ^ n" for j
  proof (cases "j + 1 < ?D + 2 ^ n")
    case True
    then have "data (buf st) ! (j mod 2 ^ n) = None" using that cells pc by (simp add: cells_inv_def)
    then show ?thesis unfolding i upd by simp
  next
    case False
    then have "j = ?D - 1 + 2 ^ n" using that b(3) by linarith
    then show ?thesis unfolding i upd by simp
  qed
  ultimately show ?thesis using ok cells by (simp add: cells_inv_def)
qed

lemma cells_producer:
  assumes "producer_step st st'" "cells_inv st n" "tokens_inv st sa ia" "index_inv st"
  shows "cells_inv st' n"
  using assms(1)
proof cases
  case (p_write x i)
  then show ?thesis using cells_write [OF assms(2) _ assms(3,4)] by simp
qed (use assms(2) in \<open>auto simp: cells_inv_def\<close>)

lemma cells_consumer:
  assumes "consumer_step st st'" "cells_inv st n" "tokens_inv st sa ia" "index_inv st"
  shows "cells_inv st' n"
  using assms(1)
proof cases
  case (c_read i)
  then show ?thesis using cells_read [OF assms(2) _ assms(3,4)] by simp
next
  case (c_destroy i)
  then show ?thesis using cells_destroy [OF assms(2) _ assms(3,4)] by simp
qed (use assms(2) in \<open>auto simp: cells_inv_def\<close>)

lemma spsc_init_inv:
  assumes "0 < unat capacity" "unat capacity < 2 ^ 63"
  shows "spsc_inv (spsc_init capacity)"
proof -
  have inv: "cb_inv (new_buffer capacity :: 'a circular_buffer)"
    using assms by (rule new_buffer_inv)
  then obtain n where ok: "ring_ok (new_buffer capacity :: 'a circular_buffer) n"
      and "m_count (slots (new_buffer capacity :: 'a circular_buffer)) = int (unat capacity)"
    by (auto simp: cb_inv_def new_buffer_def count_def new_semaphore_def)
  then have "tokens_inv (spsc_init capacity :: 'a spsc) (unat capacity) 0"
    by (simp add: tokens_inv_def spsc_init_def sem_tokens_active new_buffer_def new_semaphore_def)
  moreover have "cells_inv (spsc_init capacity :: 'a spsc) n"
    using ok by (auto simp: cells_inv_def spsc_init_def new_buffer_def ring_ok_def)
  moreover have "index_inv (spsc_init capacity)"
    by (simp add: index_inv_def spsc_init_def new_buffer_def)
  ultimately show ?thesis unfolding spsc_inv_def by blast
qed

lemma spsc_reach_inv:
  assumes "spsc_reach capacity st" "0 < unat capacity" "unat capacity < 2 ^ 63"
  shows "spsc_inv st \<and> maxcap (buf st) = capacity"
  using assms(1)
proof induction
  case spsc_start
  then show ?case using spsc_init_inv [OF assms(2,3)] by (simp add: spsc_init_def new_buffer_def)
next
  case (spsc_producer st st')
  have "maxcap (buf st') = maxcap (buf st)"
    using spsc_producer(2) by cases (simp_all add: set_cell_def)
  then show ?case using spsc_producer
    by (meson spsc_inv_def tokens_producer index_producer cells_producer)
next
  case (spsc_consumer st st')
  have "maxcap (buf st') = maxcap (buf st)"
    using spsc_consumer(2) by cases (simp_all add: set_cell_def)
  then show ?case using spsc_consumer
    by (meson spsc_inv_def tokens_consumer index_consumer cells_consumer)
qed

section \<open>Properties\<close>

text \<open>
  C15. In every state the two threads can reach, whatever the interleaving and whichever of the
  try, blocking and timed calls they make, the delivered items are the first of the accepted ones, in
  order, every one of them read from a live cell, and at most the capacity of them is outstanding.
\<close>

theorem spsc_fifo:
  assumes "0 < unat capacity" "unat capacity < 2 ^ 63" "spsc_reach capacity st"
  shows "delivered st = map Some (take (length (delivered st)) (accepted st))
    \<and> length (delivered st) \<le> length (accepted st)
    \<and> length (accepted st) \<le> length (delivered st) + unat capacity"
proof -
  obtain sa ia n where "tokens_inv st sa ia" "cells_inv st n" "maxcap (buf st) = capacity"
    using spsc_reach_inv [OF assms(3,1,2)] by (auto simp: spsc_inv_def)
  then show ?thesis using tokens_bounds [of st sa ia] by (auto simp: cells_inv_def)
qed

text \<open>Two concrete runs: an enqueue into a free slot, and a consumer that ends up blocked.\<close>

lemma spsc_run_claim:
  assumes "spsc_reach c st" "ppc st = P_idle" "0 < m_count (slots (buf st))"
  shows "spsc_reach c (st\<lparr>buf := (buf st)\<lparr>slots := add_count (-1) (slots (buf st)),
      nextSlot := nextSlot (buf st) + 1\<rparr>, ppc := P_write x (nextSlot (buf st))\<rparr>)"
proof -
  have 1: "spsc_reach c (st\<lparr>ppc := P_wait Try x Try_load\<rparr>)"
    using assms by (intro spsc_producer [OF _ p_call])
  have 2: "spsc_reach c (st\<lparr>ppc := P_wait Try x Try_take\<rparr>)"
    using spsc_producer [OF 1 p_wait [OF _ try_load_pos]] assms by simp
  have 3: "spsc_reach c (st\<lparr>buf := (buf st)\<lparr>slots := add_count (-1) (slots (buf st))\<rparr>,
      ppc := P_wait Try x Acquired\<rparr>)"
    using spsc_producer [OF 2 p_wait [OF _ try_take]] by simp
  show ?thesis
    using spsc_producer [OF spsc_producer [OF 3 p_acquired, of Try x] p_claim, of x] by simp
qed

lemma spsc_run_blocked:
  assumes "spsc_reach c st" "cpc st = C_idle" "m_count (items (buf st)) = 0"
  shows "spsc_reach c (st\<lparr>buf := (buf st)\<lparr>items := add_count (-1) (items (buf st))\<rparr>,
      cpc := C_wait Block Kernel_wait\<rparr>)"
proof -
  have 1: "spsc_reach c (st\<lparr>cpc := C_wait Block Try_load\<rparr>)"
    using assms by (intro spsc_consumer [OF _ c_call])
  have 2: "spsc_reach c (st\<lparr>cpc := C_wait Block (Spin 1024)\<rparr>)"
    using spsc_consumer [OF 1 c_wait [OF _ try_load_none]] assms by simp
  have "spsc_reach c (st\<lparr>cpc := C_wait Block (Spin n)\<rparr>) \<Longrightarrow>
      spsc_reach c (st\<lparr>cpc := C_wait Block (Spin 0)\<rparr>)" for n
  proof (induction n)
    case (Suc n)
    then show ?case using spsc_consumer [OF Suc.prems c_wait [OF _ spin_none]] assms by simp
  qed
  from this [OF 2] have 3: "spsc_reach c (st\<lparr>cpc := C_wait Block (Spin 0)\<rparr>)" .
  have 4: "spsc_reach c (st\<lparr>cpc := C_wait Block Decrement\<rparr>)"
    using spsc_consumer [OF 3 c_wait [OF _ spin_end]] by simp
  show ?thesis using spsc_consumer [OF 4 c_wait [OF _ decrement_none]] assms
    by (simp add: after_decrement_def)
qed

text \<open>An item written while the consumer is blocked: the producer's post finds a negative count.\<close>

lemma spsc_run_wakeup:
  "\<exists>st :: nat spsc. spsc_reach 1 st \<and> accepted st = [7] \<and> delivered st = []
     \<and> ppc st = P_signal Kernel_post \<and> cpc st = C_wait Block Kernel_wait
     \<and> m_count (items (buf st)) = 0 \<and> m_sema (items (buf st)) = 0"
proof -
  let ?i = "spsc_init 1 :: nat spsc"
  have 1: "spsc_reach 1 (?i\<lparr>buf := (buf ?i)\<lparr>items := add_count (-1) (items (buf ?i))\<rparr>,
      cpc := C_wait Block Kernel_wait\<rparr>)"
    by (rule spsc_run_blocked [OF spsc_start])
      (simp_all add: spsc_init_def new_buffer_def new_semaphore_def)
  note 2 = spsc_run_claim [OF 1, where x = 7]
  note 3 = spsc_producer [OF 2 p_write, of 7 0]
  note 4 = spsc_producer [OF 3 p_signal [OF _ post]]
  show ?thesis
    by (rule exI, rule conjI, rule 4)
      (simp_all add: spsc_init_def new_buffer_def new_semaphore_def add_count_def set_cell_def)
qed

theorem spsc_fifo_witness:
  "\<exists>st :: nat spsc. spsc_reach 1 st \<and> accepted st = [7]
     \<and> delivered st = map Some (take (length (delivered st)) (accepted st))"
  using spsc_run_wakeup spsc_fifo [of 1] by fastforce

text \<open>
  C16. The threads never touch the same cell at the same time: when the producer is about to
  construct an item, its cell is inside the ring and raw, and it is not the cell the consumer is
  reading or destroying.
\<close>

theorem spsc_no_overlap:
  assumes "0 < unat capacity" "unat capacity < 2 ^ 63" "spsc_reach capacity st"
    and "ppc st = P_write x i"
  shows "cell (buf st) i < length (data (buf st)) \<and> data (buf st) ! cell (buf st) i = None
    \<and> (\<forall>j. cpc st = C_read j \<or> cpc st = C_destroy j \<longrightarrow> cell (buf st) j \<noteq> cell (buf st) i)"
proof -
  let ?E = "length (accepted st)" and ?D = "length (delivered st)"
  obtain sa ia n where tok: "tokens_inv st sa ia" and cells: "cells_inv st n" and "index_inv st"
    using spsc_reach_inv [OF assms(3,1,2)] by (auto simp: spsc_inv_def)
  note idx = \<open>index_inv st\<close>
  have ok: "ring_ok (buf st) n" using cells by (simp add: cells_inv_def)
  have cap: "unat (maxcap (buf st)) \<le> 2 ^ n" using ok by (simp add: ring_ok_def)
  have i: "cell (buf st) i = ?E mod 2 ^ n"
    using idx assms(4) cell_of_nat [OF ok] by (simp add: index_inv_def)
  have b: "?D + c_held (cpc st) \<le> ?E" "?E + 1 + c_unposted (cpc st) \<le> ?D + 2 ^ n"
    using tokens_bounds [OF tok] cap assms(4) by simp_all
  have "of_bool (\<exists>j. cpc st = C_destroy j) \<le> c_unposted (cpc st)" by (cases "cpc st") auto
  then have "?E + of_bool (\<exists>j. cpc st = C_destroy j) < ?D + 2 ^ n" using b(2) by linarith
  then have "data (buf st) ! (?E mod 2 ^ n) = None" using cells unfolding cells_inv_def by blast
  moreover have "cell (buf st) j \<noteq> ?E mod 2 ^ n" if "cpc st = C_read j" for j
    using that idx cell_of_nat [OF ok, of ?D] b mod_neq [of ?D ?E "2 ^ n"]
    by (simp add: index_inv_def)
  moreover have "cell (buf st) j \<noteq> ?E mod 2 ^ n" if "cpc st = C_destroy j" for j
  proof -
    have "j + 1 = of_nat ?D" "0 < ?D" using that idx by (auto simp: index_inv_def)
    moreover from this obtain d where "?D = Suc d" by (cases ?D) auto
    ultimately have "j = of_nat (?D - 1)" by (simp add: add.commute [of 1])
    then have "cell (buf st) j = (?D - 1) mod 2 ^ n" by (simp only: cell_of_nat [OF ok])
    moreover have "(?D - 1) mod 2 ^ n \<noteq> ?E mod 2 ^ n"
      by (rule mod_neq) (use b that \<open>0 < ?D\<close> in \<open>simp_all; linarith\<close>)+
    ultimately show ?thesis by simp
  qed
  ultimately show ?thesis using i ring_okD(1) [OF ok, of i] by auto
qed

theorem spsc_no_overlap_witness:
  "\<exists>st :: nat spsc. spsc_reach 1 st \<and> ppc st = P_write 7 0 \<and> data (buf st) ! cell (buf st) 0 = None"
proof -
  let ?st = "(spsc_init 1 :: nat spsc)\<lparr>buf := (new_buffer 1)\<lparr>slots := add_count (-1) (new_semaphore 1),
      nextSlot := 1\<rparr>, ppc := P_write 7 0\<rparr>"
  have r: "spsc_reach 1 ?st"
    using spsc_run_claim [OF spsc_start, of 1 7]
    by (simp add: spsc_init_def new_buffer_def new_semaphore_def)
  show ?thesis using spsc_no_overlap [OF _ _ r, of 7 0] r by (intro exI [of _ ?st]) simp
qed

text \<open>
  C17. No wake-up is lost and the threads cannot block each other for ever: a producer blocked in the
  kernel for a token that exists has a kernel unit waiting for it, or the consumer is about to post it
  (and the other way round), and the two threads are never both blocked without a token.
\<close>

theorem spsc_no_lost_wakeup:
  assumes "0 < unat capacity" "unat capacity < 2 ^ 63" "spsc_reach capacity st"
  shows "(p_wpc (ppc st) = Kernel_wait \<and> 0 \<le> m_count (slots (buf st)) \<longrightarrow>
        0 < m_sema (slots (buf st)) \<or> cpc st = C_signal Kernel_post)
    \<and> (c_wpc (cpc st) = Kernel_wait \<and> 0 \<le> m_count (items (buf st)) \<longrightarrow>
        0 < m_sema (items (buf st)) \<or> ppc st = P_signal Kernel_post)
    \<and> \<not> (p_wpc (ppc st) = Kernel_wait \<and> m_count (slots (buf st)) < 0
         \<and> c_wpc (cpc st) = Kernel_wait \<and> m_count (items (buf st)) < 0)"
proof -
  obtain sa ia where tok: "tokens_inv st sa ia" and cap: "maxcap (buf st) = capacity"
    using spsc_reach_inv [OF assms(3,1,2)] by (auto simp: spsc_inv_def)
  have "p_wpc (ppc st) = Kernel_wait \<Longrightarrow> 0 \<le> m_count (slots (buf st)) \<Longrightarrow>
      0 < m_sema (slots (buf st)) \<or> cpc st = C_signal Kernel_post"
    using tok by (auto simp: tokens_inv_def sem_tokens_waiting)
  moreover have "c_wpc (cpc st) = Kernel_wait \<Longrightarrow> 0 \<le> m_count (items (buf st)) \<Longrightarrow>
      0 < m_sema (items (buf st)) \<or> ppc st = P_signal Kernel_post"
    using tok by (auto simp: tokens_inv_def sem_tokens_waiting)
  moreover have False if w: "p_wpc (ppc st) = Kernel_wait" "m_count (slots (buf st)) < 0"
      "c_wpc (cpc st) = Kernel_wait" "m_count (items (buf st)) < 0"
  proof -
    have "sa = 0" "ia = 0" using tok w by (auto simp: tokens_inv_def sem_tokens_waiting)
    moreover obtain m x where "ppc st = P_wait m x Kernel_wait" using w(1) by (cases "ppc st") auto
    moreover obtain m' where "cpc st = C_wait m' Kernel_wait" using w(3) by (cases "cpc st") auto
    ultimately show False using tok cap assms(1) by (simp add: tokens_inv_def)
  qed
  ultimately show ?thesis by blast
qed

theorem spsc_no_lost_wakeup_witness:
  "\<exists>st :: nat spsc. spsc_reach 1 st \<and> c_wpc (cpc st) = Kernel_wait \<and> 0 \<le> m_count (items (buf st))
     \<and> (0 < m_sema (items (buf st)) \<or> ppc st = P_signal Kernel_post)"
  using spsc_run_wakeup spsc_no_lost_wakeup [of 1] by fastforce

end
