(* ===== verification/Packet_Receiver.thy ===== *)
theory Packet_Receiver
  imports Vdif Circular_Buffer
begin

text \<open>
  The receive loop of one stream, \<^verbatim>\<open>recv2mem\<close> of \<^verbatim>\<open>src/dpdk.cpp\<close>: length and port filters, the
  sequence check, the batch ring of the stream's pool, the storing of packets, the finishing of
  incomplete batches and the hand-over through the queue. A \<^verbatim>\<open>PacketBatch *\<close> is the index of the
  batch in the pool. What the environment decides is an argument: the bytes of a frame, the timer
  value read by the loss report, and the outcome of opening the monitor file. The loop is cut
  at its calls of the queue: \<open>rx_classify\<close> is the part before the batch loop, \<open>rx_try_publish\<close> and
  \<open>rx_wait_publish\<close> one pass of the batch loop, \<open>rx_store\<close> the part after it.
\<close>

section \<open>Data\<close>

definition EXPECTED_PKT_LEN :: nat where "EXPECTED_PKT_LEN = 8266"
definition UDP_HEADER_OFFSET :: nat where "UDP_HEADER_OFFSET = 34"
definition VDIF_HEADER_OFFSET :: nat where "VDIF_HEADER_OFFSET = 42"
definition VDIF_PAYLOAD_LEN :: nat where "VDIF_PAYLOAD_LEN = 8192"
definition MONITOR_SIZE :: nat where "MONITOR_SIZE = 32 + 8192"

record PacketBatch =
  batch_count :: int
  batch_id :: u64
  received_count :: u32
  header_valid :: bool
  pkt_ids :: "u64 list"
  noise_states :: "u8 list"
  batch_valid :: bool
  buffer :: "bytes list"
  hdrs :: "VDIF list"

definition allocatePacketBatch :: "nat \<Rightarrow> PacketBatch" where
  "allocatePacketBatch numpkts =
     \<lparr>batch_count = int numpkts, batch_id = 0, received_count = 0, header_valid = False,
      pkt_ids = replicate numpkts 0, noise_states = replicate numpkts 0, batch_valid = False,
      buffer = replicate numpkts (replicate VDIF_PAYLOAD_LEN 0),
      hdrs = replicate numpkts new_VDIF\<rparr>"

text \<open>What the loop reads once from the configuration and its thread parameter.\<close>

record rx_config =
  baseband_mode :: bool
  rx_cal_mode :: bool
  monitor_enabled :: bool
  batchsize :: u32
  dest_port :: u16
  Baseband_bits :: u8
  thread_id :: u16
  loss_report_interval_cycles :: u64

datatype monitor_open = Mon_open_failed | Mon_resize_failed | Mon_map_failed | Mon_mapped

record receiver =
  pool :: "PacketBatch list"
  queue :: "nat circular_buffer"
  pool_idx :: nat
  prebatchid :: u64
  expected_pkt_id :: u64
  total_lostnmber :: u64
  total_pkts :: u64
  loss_events :: u64
  pending_loss_events :: u64
  pending_lost_packets :: u64
  latest_loss_packets :: u64
  latest_loss_recv_id :: u64
  latest_loss_expected_id :: u64
  last_loss_report_cycles :: u64
  late_or_duplicate_packets :: u64
  misdirected_packets :: u64
  queue_full_events :: u64
  last_header_template :: VDIF
  have_header_template :: bool
  last_noise_source_state :: u8
  monitor_map :: "bytes option"

definition new_receiver :: "PacketBatch list \<Rightarrow> u64 \<Rightarrow> receiver" where
  "new_receiver p capacity =
     \<lparr>pool = p, queue = new_buffer capacity, pool_idx = 0, prebatchid = 0, expected_pkt_id = 0,
      total_lostnmber = 0, total_pkts = 0, loss_events = 0, pending_loss_events = 0,
      pending_lost_packets = 0, latest_loss_packets = 0, latest_loss_recv_id = 0,
      latest_loss_expected_id = 0, last_loss_report_cycles = 0, late_or_duplicate_packets = 0,
      misdirected_packets = 0, queue_full_events = 0, last_header_template = new_VDIF,
      have_header_template = False, last_noise_source_state = 0, monitor_map = None\<rparr>"

section \<open>The lambdas of the loop\<close>

definition report_pending_loss :: "rx_config \<Rightarrow> u64 \<Rightarrow> receiver \<Rightarrow> receiver" where
  "report_pending_loss cfg now r =
     (if pending_loss_events r = 0 then r
      else if last_loss_report_cycles r \<noteq> 0
              \<and> now - last_loss_report_cycles r < loss_report_interval_cycles cfg then r
      else r\<lparr>pending_loss_events := 0, pending_lost_packets := 0, last_loss_report_cycles := now\<rparr>)"

definition batch_start :: "rx_config \<Rightarrow> u64 \<Rightarrow> u64" where
  "batch_start cfg b = b * ucast (batchsize cfg)"

definition prepare_batch :: "rx_config \<Rightarrow> receiver \<Rightarrow> u64 \<Rightarrow> PacketBatch \<Rightarrow> PacketBatch" where
  "prepare_batch cfg r bid batch =
     (let batch = batch\<lparr>batch_id := bid, received_count := 0, batch_valid := False,
                        header_valid := have_header_template r\<rparr>
      in if have_header_template r
         then batch\<lparr>hdrs := (hdrs batch)[0 := setPacketId (batch_start cfg bid) (last_header_template r)],
                    noise_states := (noise_states batch)[0 := last_noise_source_state r]\<rparr>
         else batch)"

fun fill_missing :: "u64 \<Rightarrow> nat \<Rightarrow> nat \<Rightarrow> PacketBatch \<Rightarrow> PacketBatch" where
  "fill_missing start i 0 batch = batch"
| "fill_missing start i (Suc k) batch =
     (let expected_id = start + of_nat i
      in fill_missing start (i + 1) k
           (if pkt_ids batch ! i = expected_id then batch
            else batch\<lparr>buffer := (buffer batch)[i := replicate VDIF_PAYLOAD_LEN 0x80],
                       hdrs := (hdrs batch)[i := setInvalid True
                                 (setPacketId expected_id (hdrs batch ! 0))]\<rparr>))"

definition finalize_batch :: "rx_config \<Rightarrow> PacketBatch \<Rightarrow> PacketBatch" where
  "finalize_batch cfg batch =
     (let batch = batch\<lparr>batch_valid := header_valid batch \<and> received_count batch = batchsize cfg\<rparr>
      in if \<not> baseband_mode cfg \<or> batch_valid batch \<or> \<not> header_valid batch then batch
         else fill_missing (batch_start cfg (batch_id batch)) 0 (unat (batchsize cfg)) batch)"

section \<open>One packet\<close>

text \<open>What the rest of the loop body uses of an accepted packet; \<open>frame\<close> is at \<^verbatim>\<open>vdif_ptr\<close>.\<close>

record packet_info =
  recv_packet_id :: u64
  info_batchid :: u64
  pkt_idx_inbatch :: u32
  info_metadata :: Metadata
  frame :: bytes

datatype classified = Rx_discard receiver | Rx_stop receiver | Rx_accept receiver packet_info

text \<open>
  The subband monitor: on the first packet the file is created and mapped; then every frame 0 of an
  even second is copied. A failed system call ends the thread.
\<close>

definition update_monitor :: "rx_config \<Rightarrow> monitor_open \<Rightarrow> Metadata \<Rightarrow> bytes \<Rightarrow> receiver \<Rightarrow>
    receiver option" where
  "update_monitor cfg mon metadata vdif r =
     (let scheduled = monitor_enabled cfg \<and> seconds_from_epoch metadata AND 1 = 0
                      \<and> frame_number metadata = 0
      in if monitor_enabled cfg \<and> (monitor_map r = None \<or> scheduled)
         then if monitor_map r = None \<and> mon \<noteq> Mon_mapped then None
              else Some (r\<lparr>monitor_map := Some (take MONITOR_SIZE vdif)\<rparr>)
         else Some r)"

text \<open>The sequence check for a packet of the stream, with the preparation of the first batch.\<close>

definition sequence_check :: "rx_config \<Rightarrow> u64 \<Rightarrow> packet_info \<Rightarrow> receiver \<Rightarrow> classified" where
  "sequence_check cfg now info r =
     (let pid = recv_packet_id info
      in if expected_pkt_id r = 0 then
           if pkt_idx_inbatch info \<noteq> 0 then Rx_discard r
           else Rx_accept (r\<lparr>expected_pkt_id := pid + 1, prebatchid := info_batchid info,
                  pool := (pool r)[pool_idx r := prepare_batch cfg r (info_batchid info)
                                                  (pool r ! pool_idx r)]\<rparr>) info
         else if pid > expected_pkt_id r then
           (let lost = pid - expected_pkt_id r;
                r = r\<lparr>total_lostnmber := total_lostnmber r + lost, loss_events := loss_events r + 1,
                      pending_loss_events := pending_loss_events r + 1,
                      pending_lost_packets := pending_lost_packets r + lost,
                      latest_loss_packets := lost, latest_loss_recv_id := pid,
                      latest_loss_expected_id := expected_pkt_id r\<rparr>;
                r = report_pending_loss cfg now r
            in Rx_accept (r\<lparr>expected_pkt_id := pid + 1\<rparr>) info)
         else if pid = expected_pkt_id r then
           Rx_accept (r\<lparr>expected_pkt_id := expected_pkt_id r + 1\<rparr>) info
         else Rx_discard (r\<lparr>late_or_duplicate_packets := late_or_duplicate_packets r + 1\<rparr>))"

definition packet_of_frame :: "rx_config \<Rightarrow> bytes \<Rightarrow> packet_info" where
  "packet_of_frame cfg vdif =
     (let metadata = readMetadata vdif (rx_cal_mode cfg); pid = packet_id metadata
      in \<lparr>recv_packet_id = pid, info_batchid = pid div ucast (batchsize cfg),
          pkt_idx_inbatch = ucast (pid mod ucast (batchsize cfg)),
          info_metadata = metadata, frame = vdif\<rparr>)"

text \<open>The UDP destination port is big endian; the frame passes when its bytes are those of \<open>dest_port\<close>.\<close>

definition udp_dst_port :: "bytes \<Rightarrow> u16" where
  "udp_dst_port pkt = push_bit 8 (ucast (pkt ! (UDP_HEADER_OFFSET + 2)))
     OR ucast (pkt ! (UDP_HEADER_OFFSET + 3))"

definition rx_classify :: "rx_config \<Rightarrow> monitor_open \<Rightarrow> u64 \<Rightarrow> bytes \<Rightarrow> receiver \<Rightarrow> classified" where
  "rx_classify cfg mon now pkt r =
     (if length pkt \<noteq> EXPECTED_PKT_LEN then Rx_discard r
      else if udp_dst_port pkt \<noteq> dest_port cfg
      then Rx_discard (r\<lparr>misdirected_packets := misdirected_packets r + 1\<rparr>)
      else
        let r = r\<lparr>total_pkts := total_pkts r + 1\<rparr>;
            vdif = drop VDIF_HEADER_OFFSET pkt;
            info = packet_of_frame cfg vdif
        in case update_monitor cfg mon (info_metadata info) vdif r of
             None \<Rightarrow> Rx_stop r
           | Some r \<Rightarrow> sequence_check cfg now info r)"

section \<open>The batch loop and the store\<close>

text \<open>\<open>finish_current\<close>: the call of \<^verbatim>\<open>finalize_batch\<close>, before the enqueue of the same batch.\<close>

definition finish_current :: "rx_config \<Rightarrow> receiver \<Rightarrow> receiver" where
  "finish_current cfg r =
     r\<lparr>pool := (pool r)[pool_idx r := finalize_batch cfg (pool r ! pool_idx r)]\<rparr>"

definition next_batch :: "rx_config \<Rightarrow> receiver \<Rightarrow> receiver" where
  "next_batch cfg r =
     (let r = r\<lparr>prebatchid := prebatchid r + 1,
                pool_idx := (if pool_idx r + 1 \<ge> length (pool r) then 0 else pool_idx r + 1)\<rparr>
      in r\<lparr>pool := (pool r)[pool_idx r := prepare_batch cfg r (prebatchid r) (pool r ! pool_idx r)]\<rparr>)"

definition rx_try_publish :: "rx_config \<Rightarrow> receiver \<Rightarrow> bool \<times> receiver" where
  "rx_try_publish cfg r =
     (let r = finish_current cfg r
      in case try_enqueue (pool_idx r) (queue r) of
           (True, q) \<Rightarrow> (True, next_batch cfg (r\<lparr>queue := q\<rparr>))
         | (False, q) \<Rightarrow> (False, r\<lparr>queue := q, queue_full_events := queue_full_events r + 1\<rparr>))"

text \<open>
  The blocked \<^verbatim>\<open>wait_enqueue\<close> after a failed attempt: \<open>None\<close> while the queue is full.
\<close>

definition rx_wait_publish :: "rx_config \<Rightarrow> receiver \<Rightarrow> receiver option" where
  "rx_wait_publish cfg r =
     (case try_enqueue (pool_idx r) (queue r) of
        (True, q) \<Rightarrow> Some (next_batch cfg (r\<lparr>queue := q\<rparr>))
      | (False, q) \<Rightarrow> None)"

definition frame_header :: "rx_config \<Rightarrow> bytes \<Rightarrow> VDIF result" where
  "frame_header cfg vdif =
     (let header = \<lparr>header_bytes = take HEADER_SIZE vdif\<rparr>
      in if baseband_mode cfg
         then configureBaseband (Baseband_bits cfg) (thread_id cfg) (of_nat VDIF_PAYLOAD_LEN) header
         else Inr header)"

definition rx_store :: "rx_config \<Rightarrow> packet_info \<Rightarrow> receiver \<Rightarrow> receiver result" where
  "rx_store cfg info r =
     (let i = unat (pkt_idx_inbatch info); noise = noise_source_state (info_metadata info);
          batch = pool r ! pool_idx r;
          batch = batch\<lparr>pkt_ids := (pkt_ids batch)[i := recv_packet_id info],
                        noise_states := (noise_states batch)[i := noise]\<rparr>
      in bind_result (frame_header cfg (frame info)) (\<lambda>h.
         let batch = (if baseband_mode cfg then batch\<lparr>hdrs := (hdrs batch)[i := h]\<rparr> else batch);
             h0 = setPacketId (batch_start cfg (info_batchid info)) h;
             first = (received_count batch = 0);
             batch = (if first
                      then batch\<lparr>hdrs := (hdrs batch)[0 := h0], header_valid := True,
                                 noise_states := (noise_states batch)[0 := noise]\<rparr>
                      else batch);
             r = (if first
                  then r\<lparr>last_header_template := h0, have_header_template := True,
                         last_noise_source_state := noise\<rparr>
                  else r);
             batch = batch\<lparr>received_count := received_count batch + 1,
                           buffer := (buffer batch)[i := take VDIF_PAYLOAD_LEN
                                        (drop HEADER_SIZE (frame info))]\<rparr>
         in Inr (r\<lparr>pool := (pool r)[pool_idx r := batch]\<rparr>)))"

end
