(* ===== verification/Receiver_Pool.thy ===== *)
theory Receiver_Pool
  imports Packet_Receiver
begin

text \<open>
  The receiver of \<open>Packet_Receiver\<close> and the consumer of its queue as one transition system. The
  receiver's steps are the parts of its loop between two queue operations; the consumer dequeues a
  batch, which it owns until its next dequeue, and may rewrite the payloads of the batch it owns, as
  the baseband recorder does. The ghost fields \<open>stored\<close> and \<open>published\<close> record the packets stored
  and a copy of every batch at the moment it is enqueued. This theory proves that the batches
  circulate without two owners.
\<close>

section \<open>The system\<close>

datatype rx_pc = R_idle | R_advance packet_info | R_blocked packet_info | R_ended

record rx_sys =
  rx :: receiver
  rpc :: rx_pc
  held :: "nat option"
  stored :: "packet_info list"
  published :: "PacketBatch list"

definition rx_init :: "rx_config \<Rightarrow> u64 \<Rightarrow> rx_sys" where
  "rx_init cfg capacity =
     \<lparr>rx = new_receiver (replicate (unat capacity + 2) (allocatePacketBatch (unat (batchsize cfg)))) capacity,
      rpc = R_idle, held = None, stored = [], published = []\<rparr>"

abbreviation current :: "receiver \<Rightarrow> PacketBatch" where
  "current r \<equiv> pool r ! pool_idx r"

inductive rx_step :: "rx_config \<Rightarrow> rx_sys \<Rightarrow> rx_sys \<Rightarrow> bool" for cfg where
  rx_discard: "rpc s = R_idle \<Longrightarrow> rx_classify cfg mon now pkt (rx s) = Rx_discard r \<Longrightarrow>
    rx_step cfg s (s\<lparr>rx := r\<rparr>)"
| rx_stop: "rpc s = R_idle \<Longrightarrow> rx_classify cfg mon now pkt (rx s) = Rx_stop r \<Longrightarrow>
    rx_step cfg s (s\<lparr>rx := r, rpc := R_ended\<rparr>)"
| rx_accept: "rpc s = R_idle \<Longrightarrow> rx_classify cfg mon now pkt (rx s) = Rx_accept r info \<Longrightarrow>
    rx_step cfg s (s\<lparr>rx := r, rpc := R_advance info\<rparr>)"
| rx_report: "rpc s = R_idle \<Longrightarrow>
    rx_step cfg s (s\<lparr>rx := report_pending_loss cfg now (rx s)\<rparr>)"
| rx_publish: "rpc s = R_advance info \<Longrightarrow> prebatchid (rx s) < info_batchid info \<Longrightarrow>
    rx_try_publish cfg (rx s) = (True, r) \<Longrightarrow>
    rx_step cfg s (s\<lparr>rx := r, published := published s @ [current (finish_current cfg (rx s))]\<rparr>)"
| rx_full: "rpc s = R_advance info \<Longrightarrow> prebatchid (rx s) < info_batchid info \<Longrightarrow>
    rx_try_publish cfg (rx s) = (False, r) \<Longrightarrow>
    rx_step cfg s (s\<lparr>rx := r, rpc := R_blocked info\<rparr>)"
| rx_wait: "rpc s = R_blocked info \<Longrightarrow> rx_wait_publish cfg (rx s) = Some r \<Longrightarrow>
    rx_step cfg s (s\<lparr>rx := r, rpc := R_advance info, published := published s @ [current (rx s)]\<rparr>)"
| rx_done: "rpc s = R_advance info \<Longrightarrow> \<not> prebatchid (rx s) < info_batchid info \<Longrightarrow>
    rx_store cfg info (rx s) = Inr r \<Longrightarrow>
    rx_step cfg s (s\<lparr>rx := r, rpc := R_idle, stored := stored s @ [info]\<rparr>)"
| rx_throw: "rpc s = R_advance info \<Longrightarrow> \<not> prebatchid (rx s) < info_batchid info \<Longrightarrow>
    rx_store cfg info (rx s) = Inl e \<Longrightarrow>
    rx_step cfg s (s\<lparr>rpc := R_ended\<rparr>)"
| co_dequeue: "try_dequeue (queue (rx s)) = (True, Some i, q) \<Longrightarrow>
    rx_step cfg s (s\<lparr>rx := (rx s)\<lparr>queue := q\<rparr>, held := Some i\<rparr>)"
| co_rewrite: "held s = Some i \<Longrightarrow> map length bufs = map length (buffer (pool (rx s) ! i)) \<Longrightarrow>
    rx_step cfg s (s\<lparr>rx := (rx s)\<lparr>pool := (pool (rx s))[i := (pool (rx s) ! i)\<lparr>buffer := bufs\<rparr>]\<rparr>\<rparr>)"

inductive rx_reach :: "rx_config \<Rightarrow> u64 \<Rightarrow> rx_sys \<Rightarrow> bool" for cfg capacity where
  rx_start: "rx_reach cfg capacity (rx_init cfg capacity)"
| rx_next: "rx_reach cfg capacity s \<Longrightarrow> rx_step cfg s s' \<Longrightarrow> rx_reach cfg capacity s'"

section \<open>Fields the parts of the loop leave alone\<close>

lemma report_pending_loss_sel [simp]:
  "pool (report_pending_loss cfg now r) = pool r" "queue (report_pending_loss cfg now r) = queue r"
  "pool_idx (report_pending_loss cfg now r) = pool_idx r"
  "prebatchid (report_pending_loss cfg now r) = prebatchid r"
  "expected_pkt_id (report_pending_loss cfg now r) = expected_pkt_id r"
  "total_lostnmber (report_pending_loss cfg now r) = total_lostnmber r"
  "have_header_template (report_pending_loss cfg now r) = have_header_template r"
  "last_header_template (report_pending_loss cfg now r) = last_header_template r"
  by (simp_all add: report_pending_loss_def)

lemma update_monitor_sel:
  assumes "update_monitor cfg mon m vdif r = Some r'"
  shows "\<exists>mm. r' = r\<lparr>monitor_map := mm\<rparr>"
proof -
  have "r' = r \<or> r' = r\<lparr>monitor_map := Some (take MONITOR_SIZE vdif)\<rparr>"
    using assms by (auto simp: update_monitor_def Let_def split: if_splits)
  moreover have "r = r\<lparr>monitor_map := monitor_map r\<rparr>" by simp
  ultimately show ?thesis by metis
qed

lemma prepare_batch_upd [simp]:
  "prepare_batch cfg (r\<lparr>monitor_map := mm\<rparr>) = prepare_batch cfg r"
  "prepare_batch cfg (r\<lparr>total_pkts := n\<rparr>) = prepare_batch cfg r"
  by (simp_all add: prepare_batch_def fun_eq_iff Let_def)

text \<open>A packet that is discarded, or that ends the thread, leaves the batches and the sequence state.\<close>

lemma rx_classify_discard:
  assumes "rx_classify cfg mon now pkt r = Rx_discard r' \<or> rx_classify cfg mon now pkt r = Rx_stop r'"
  shows "pool r' = pool r" "queue r' = queue r" "pool_idx r' = pool_idx r"
    "prebatchid r' = prebatchid r" "expected_pkt_id r' = expected_pkt_id r"
    "total_lostnmber r' = total_lostnmber r" "have_header_template r' = have_header_template r"
    "last_header_template r' = last_header_template r"
  using assms
  by (auto simp: rx_classify_def sequence_check_def Let_def dest!: update_monitor_sel
      split: if_splits option.splits)

text \<open>An accepted packet belongs to the stream and advances the expected id past its own.\<close>

lemma rx_classify_accept:
  assumes "rx_classify cfg mon now pkt r = Rx_accept r' info"
  shows "length pkt = EXPECTED_PKT_LEN \<and> info = packet_of_frame cfg (drop VDIF_HEADER_OFFSET pkt)
    \<and> udp_dst_port pkt = dest_port cfg
    \<and> queue r' = queue r \<and> pool_idx r' = pool_idx r
    \<and> expected_pkt_id r' = recv_packet_id info + 1
    \<and> have_header_template r' = have_header_template r
    \<and> last_header_template r' = last_header_template r
    \<and> (if expected_pkt_id r = 0
       then pkt_idx_inbatch info = 0 \<and> prebatchid r' = info_batchid info
         \<and> total_lostnmber r' = total_lostnmber r
         \<and> pool r' = (pool r)[pool_idx r := prepare_batch cfg r (info_batchid info) (current r)]
       else expected_pkt_id r \<le> recv_packet_id info \<and> prebatchid r' = prebatchid r
         \<and> pool r' = pool r
         \<and> total_lostnmber r' = total_lostnmber r + (recv_packet_id info - expected_pkt_id r))"
  using assms
  by (auto simp: rx_classify_def sequence_check_def Let_def dest!: update_monitor_sel
      split: if_splits option.splits)

lemma finish_current_sel [simp]:
  "queue (finish_current cfg r) = queue r" "pool_idx (finish_current cfg r) = pool_idx r"
  "prebatchid (finish_current cfg r) = prebatchid r"
  "length (pool (finish_current cfg r)) = length (pool r)"
  by (simp_all add: finish_current_def)

lemma next_batch_sel [simp]:
  "queue (next_batch cfg r) = queue r"
  "pool_idx (next_batch cfg r) = (if pool_idx r + 1 \<ge> length (pool r) then 0 else pool_idx r + 1)"
  "prebatchid (next_batch cfg r) = prebatchid r + 1"
  "length (pool (next_batch cfg r)) = length (pool r)"
  by (simp_all add: next_batch_def Let_def)

lemma rx_store_sel:
  assumes "rx_store cfg info r = Inr r'"
  shows "queue r' = queue r" "pool_idx r' = pool_idx r" "length (pool r') = length (pool r)"
    "prebatchid r' = prebatchid r" "expected_pkt_id r' = expected_pkt_id r"
    "total_lostnmber r' = total_lostnmber r"
  using assms by (auto simp: rx_store_def Let_def bind_result_Inr_iff)

section \<open>Ownership\<close>

text \<open>
  The queued batches are the ones just behind the batch being filled, in ring order, and the
  consumer's batch is the one behind those. With \<open>QUEUE_CAPACITY + 2\<close> batches they are all distinct.
\<close>

definition behind :: "receiver \<Rightarrow> nat \<Rightarrow> nat" where
  "behind r j = (pool_idx r + length (pool r) - j) mod length (pool r)"

definition own_ring :: "receiver \<Rightarrow> nat list \<Rightarrow> nat option \<Rightarrow> bool" where
  "own_ring r ql h \<longleftrightarrow> pool_idx r < length (pool r)
     \<and> ql = map (\<lambda>j. behind r (length ql - j)) [0..<length ql]
     \<and> (\<forall>i. h = Some i \<longrightarrow> i = behind r (length ql + 1))"

definition own_inv :: "rx_sys \<Rightarrow> bool" where
  "own_inv s \<longleftrightarrow> cb_inv (queue (rx s))
     \<and> length (pool (rx s)) = unat (maxcap (queue (rx s))) + 2
     \<and> own_ring (rx s) (queue_list (queue (rx s))) (held s)"

lemma behind_cong:
  assumes "pool_idx r' = pool_idx r" "length (pool r') = length (pool r)"
  shows "behind r' j = behind r j"
  using assms by (simp add: behind_def)

lemma behind_next:
  assumes "pool_idx r < length (pool r)" "j < length (pool r)"
    and "pool_idx r' = (if pool_idx r + 1 \<ge> length (pool r) then 0 else pool_idx r + 1)"
    and "length (pool r') = length (pool r)"
  shows "behind r' (Suc j) = behind r j"
proof (cases "pool_idx r + 1 \<ge> length (pool r)")
  case True
  then have "pool_idx r + length (pool r) - j = (length (pool r) - Suc j) + length (pool r)"
    using assms(1,2) by linarith
  then show ?thesis using True assms by (simp only: behind_def mod_add_self2) simp
next
  case False
  then show ?thesis using assms by (simp add: behind_def)
qed

lemma behind_inj:
  assumes "i < length (pool r)" "j < length (pool r)" "behind r i = behind r j"
  shows "i = j"
proof -
  have "a = b" if "a \<le> b" "b < length (pool r)" "behind r a = behind r b" for a b
  proof -
    have "pool_idx r + length (pool r) - b = pool_idx r + length (pool r) - a"
      by (rule mod_eq_close [of _ "length (pool r)"])
        (use that in \<open>simp_all add: behind_def\<close>)
    then show ?thesis using that by linarith
  qed
  then show ?thesis using assms by (metis nat_le_linear)
qed


text \<open>The effect of an enqueue of the current batch followed by the move to the next one.\<close>

lemma own_ring_push:
  assumes ring: "own_ring r ql h" and room: "length ql + 2 < length (pool r)"
    and r': "length (pool r') = length (pool r)"
      "pool_idx r' = (if pool_idx r + 1 \<ge> length (pool r) then 0 else pool_idx r + 1)"
  shows "own_ring r' (ql @ [pool_idx r]) h"
proof -
  let ?k = "length ql"
  have i: "pool_idx r < length (pool r)" "ql = map (\<lambda>j. behind r (?k - j)) [0..<?k]"
      "\<And>i. h = Some i \<Longrightarrow> i = behind r (?k + 1)"
    using ring by (auto simp: own_ring_def)
  have sh: "behind r' (Suc j) = behind r j" if "j \<le> ?k + 1" for j
    by (rule behind_next) (use i r' that room in auto)
  have "behind r 0 = pool_idx r" using i(1) by (simp add: behind_def)
  then have "ql @ [pool_idx r] = map (\<lambda>j. behind r (?k - j)) [0..<Suc ?k]"
    using i(2) by (metis (no_types, lifting) append.right_neutral cancel_comm_monoid_add_class.diff_cancel
        le0 list.simps(8) list.simps(9) map_append upt_Suc_append)
  also have "\<dots> = map (\<lambda>j. behind r' (Suc ?k - j)) [0..<Suc ?k]"
    by (intro map_cong refl) (auto simp: sh [symmetric] Suc_diff_le)
  finally have "ql @ [pool_idx r] = map (\<lambda>j. behind r' (Suc ?k - j)) [0..<Suc ?k]" .
  moreover have "i = behind r' (Suc ?k + 1)" if "h = Some i" for i
    using i(3) [OF that] sh [of "?k + 1"] by simp
  moreover have "pool_idx r' < length (pool r')" using i(1) r' room by auto
  ultimately show ?thesis by (simp add: own_ring_def del: upt_Suc)
qed

lemma own_ring_pop:
  assumes "own_ring r (x # xs) h"
  shows "own_ring r xs (Some x)"
proof -
  let ?k = "length xs"
  have "[0..<Suc ?k] = 0 # map Suc [0..<?k]" by (simp add: map_Suc_upt upt_conv_Cons del: upt_Suc)
  then have "x # xs = behind r (Suc ?k) # map (\<lambda>j. behind r (?k - j)) [0..<?k]"
    using assms by (simp add: own_ring_def comp_def del: upt_Suc)
  then show ?thesis using assms by (simp add: own_ring_def)
qed

lemma own_ring_distinct:
  assumes ring: "own_ring r ql h" and k: "length ql + 1 < length (pool r)"
  defines "all \<equiv> pool_idx r # ql @ (case h of None \<Rightarrow> [] | Some i \<Rightarrow> [i])"
  shows "distinct all \<and> set all \<subseteq> {..<length (pool r)}"
proof -
  let ?k = "length ql"
  have i: "pool_idx r < length (pool r)" "ql = map (\<lambda>j. behind r (?k - j)) [0..<?k]"
      "\<And>i. h = Some i \<Longrightarrow> i = behind r (?k + 1)"
    using ring by (auto simp: own_ring_def)
  define js where "js = 0 # rev [1..<Suc ?k] @ (case h of None \<Rightarrow> [] | Some i \<Rightarrow> [?k + 1])"
  have "map (\<lambda>j. ?k - j) [0..<?k] = rev [1..<Suc ?k]"
    by (rule nth_equalityI) (simp_all add: rev_nth del: upt_Suc)
  then have "map (behind r) (rev [1..<Suc ?k]) = map (\<lambda>j. behind r (?k - j)) [0..<?k]"
    by (metis (no_types, lifting) map_map comp_apply map_cong)
  then have "ql = map (behind r) (rev [1..<Suc ?k])" using i(2) by simp
  moreover have "pool_idx r = behind r 0" using i(1) by (simp add: behind_def)
  ultimately have eq: "all = map (behind r) js"
    using i(3) by (auto simp: js_def all_def split: option.splits)
  have "distinct js" by (cases h) (auto simp: js_def simp del: upt_Suc)
  moreover have "j < length (pool r)" if "j \<in> set js" for j
    using that k by (cases h) (auto simp: js_def simp del: upt_Suc)
  then have "inj_on (behind r) (set js)" by (meson inj_onI behind_inj)
  ultimately have "distinct (map (behind r) js)" by (simp add: distinct_map)
  moreover have "set (map (behind r) js) \<subseteq> {..<length (pool r)}"
    using i(1) by (auto simp: behind_def intro!: mod_less_divisor)
  ultimately show ?thesis unfolding eq by blast
qed

lemma own_ring_cong:
  assumes "pool_idx r' = pool_idx r" "length (pool r') = length (pool r)"
  shows "own_ring r' ql h = own_ring r ql h"
  using assms behind_cong [OF assms] by (simp add: own_ring_def)

lemma own_inv_enqueue:
  assumes inv: "own_inv s" and enq: "try_enqueue (pool_idx (rx s)) (queue (rx s)) = (True, q)"
    and r: "queue r = q" "length (pool r) = length (pool (rx s))"
      "pool_idx r = (if pool_idx (rx s) + 1 \<ge> length (pool (rx s)) then 0 else pool_idx (rx s) + 1)"
  shows "own_inv (s\<lparr>rx := r\<rparr>)"
  using inv cb.enq_spec [OF _ enq] r own_ring_push [OF _ _ r(2,3)] by (auto simp: own_inv_def)

lemma own_inv_dequeue:
  assumes inv: "own_inv s" and deq: "try_dequeue (queue (rx s)) = (True, Some h, q)"
  shows "own_inv (s\<lparr>rx := (rx s)\<lparr>queue := q\<rparr>, held := Some h\<rparr>)"
proof -
  have d: "cb_inv q" "unat (maxcap q) = unat (maxcap (queue (rx s)))"
      "queue_list (queue (rx s)) = h # queue_list q"
    using cb.deq_spec [OF _ deq] inv by (auto simp: own_inv_def)
  then have "own_ring (rx s) (queue_list q) (Some h)"
    using inv own_ring_pop [of "rx s" h "queue_list q" "held s"] by (simp add: own_inv_def)
  then show ?thesis using inv d own_ring_cong [of "(rx s)\<lparr>queue := q\<rparr>" "rx s"]
    by (simp add: own_inv_def)
qed

lemma own_inv_cong:
  assumes "own_inv s" "queue r = queue (rx s)" "pool_idx r = pool_idx (rx s)"
    "length (pool r) = length (pool (rx s))"
  shows "own_inv (s\<lparr>rx := r, rpc := p\<rparr>)" "own_inv (s\<lparr>rx := r\<rparr>)"
    "own_inv (s\<lparr>rx := r, rpc := p, stored := xs\<rparr>)" "own_inv (s\<lparr>rx := r, rpc := p, published := bs\<rparr>)"
    "own_inv (s\<lparr>rx := r, published := bs\<rparr>)"
  using assms own_ring_cong [of r "rx s"] by (simp_all add: own_inv_def)

lemma own_inv_step:
  assumes "rx_step cfg s s'" "own_inv s"
  shows "own_inv s'"
  using assms(1)
proof cases
  case (rx_discard mon now pkt r)
  then show ?thesis using rx_classify_discard [of cfg mon now pkt "rx s" r]
    by (auto intro!: own_inv_cong assms(2))
next
  case (rx_stop mon now pkt r)
  then show ?thesis using rx_classify_discard [of cfg mon now pkt "rx s" r]
    by (auto intro!: own_inv_cong assms(2))
next
  case (rx_accept mon now pkt r info)
  then have "queue r = queue (rx s)" "pool_idx r = pool_idx (rx s)" "length (pool r) = length (pool (rx s))"
    using rx_classify_accept [of cfg mon now pkt "rx s" r info] by (auto split: if_splits)
  then show ?thesis using rx_accept by (auto intro!: own_inv_cong assms(2))
next
  case (rx_publish info r)
  then obtain q where "try_enqueue (pool_idx (rx s)) (queue (rx s)) = (True, q)"
      "r = next_batch cfg ((finish_current cfg (rx s))\<lparr>queue := q\<rparr>)"
    by (auto simp: rx_try_publish_def Let_def split: prod.splits bool.splits)
  then have "own_inv (s\<lparr>rx := r\<rparr>)" by (intro own_inv_enqueue [OF assms(2)]) simp_all
  then show ?thesis using rx_publish by (simp add: own_inv_def)
next
  case (rx_full info r)
  then obtain q where "try_enqueue (pool_idx (rx s)) (queue (rx s)) = (False, q)"
      and r: "r = (finish_current cfg (rx s))\<lparr>queue := q, queue_full_events := queue_full_events (finish_current cfg (rx s)) + 1\<rparr>"
    by (auto simp: rx_try_publish_def Let_def split: prod.splits bool.splits)
  then have "q = queue (rx s)"
    using assms(2) by (auto simp: own_inv_def try_enqueue_eq split: if_splits)
  then show ?thesis using rx_full r by (auto intro!: own_inv_cong assms(2))
next
  case (rx_wait info r)
  then obtain q where "try_enqueue (pool_idx (rx s)) (queue (rx s)) = (True, q)"
      "r = next_batch cfg ((rx s)\<lparr>queue := q\<rparr>)"
    by (auto simp: rx_wait_publish_def split: prod.splits bool.splits)
  then have "own_inv (s\<lparr>rx := r\<rparr>)" by (intro own_inv_enqueue [OF assms(2)]) simp_all
  then show ?thesis using rx_wait by (simp add: own_inv_def)
next
  case (rx_done info r)
  then show ?thesis using rx_store_sel [of cfg info "rx s" r] by (auto intro!: own_inv_cong assms(2))
next
  case (co_dequeue i q)
  then show ?thesis using own_inv_dequeue [OF assms(2)] by simp
qed (use assms(2) in \<open>auto intro!: own_inv_cong simp: own_inv_def own_ring_def behind_def\<close>)

lemma own_inv_init:
  assumes "0 < unat capacity" "unat capacity < 2 ^ 63"
  shows "own_inv (rx_init cfg capacity)"
proof -
  have "cb_inv (new_buffer capacity :: nat circular_buffer)"
      "queue_list (new_buffer capacity :: nat circular_buffer) = []"
    using assms by (auto intro: new_buffer_inv)
  moreover have "maxcap (new_buffer capacity :: nat circular_buffer) = capacity"
    by (simp add: new_buffer_def)
  ultimately show ?thesis
    by (simp add: own_inv_def own_ring_def rx_init_def new_receiver_def)
qed

lemma own_inv_reach:
  assumes "rx_reach cfg capacity s" "0 < unat capacity" "unat capacity < 2 ^ 63"
  shows "own_inv s"
  using assms(1)
  by induction (use assms own_inv_init own_inv_step in blast)+

section \<open>Property\<close>

text \<open>
  The batches of a stream circulate without two owners: at every moment the batch the receiver
  fills, the batches in the queue and the batch the consumer works on are distinct elements of the pool
  of \<open>QUEUE_CAPACITY + 2\<close> batches, so neither side writes a batch the other side uses, and the queue
  hands each batch to the consumer once per turn.
\<close>

theorem pool_ownership:
  assumes "0 < unat capacity" "unat capacity < 2 ^ 63" "rx_reach cfg capacity s"
  shows "distinct (pool_idx (rx s) # queue_list (queue (rx s)) @ (case held s of None \<Rightarrow> [] | Some h \<Rightarrow> [h]))
    \<and> set (pool_idx (rx s) # queue_list (queue (rx s)) @ (case held s of None \<Rightarrow> [] | Some h \<Rightarrow> [h]))
        \<subseteq> {..<length (pool (rx s))}"
proof -
  have inv: "own_inv s" using own_inv_reach [OF assms(3,1,2)] .
  then have "length (queue_list (queue (rx s))) \<le> unat (maxcap (queue (rx s)))"
    unfolding own_inv_def using cb.bounded by blast
  then have "length (queue_list (queue (rx s))) + 1 < length (pool (rx s))"
    using inv unfolding own_inv_def by linarith
  then show ?thesis using inv own_ring_distinct unfolding own_inv_def by blast
qed

text \<open>A concrete run: packets 0 and 1 of a stream with one packet per batch.\<close>

definition demo_cfg :: "bool \<Rightarrow> rx_config" where
  "demo_cfg bb = \<lparr>baseband_mode = bb, rx_cal_mode = False, monitor_enabled = False, batchsize = 1,
     dest_port = 0, Baseband_bits = 8, thread_id = 0, loss_report_interval_cycles = 0\<rparr>"

definition demo_packet :: "u8 \<Rightarrow> bytes" where
  "demo_packet n = replicate 46 0 @ n # replicate 8219 0"

lemma demo_frame:
  "length (demo_packet n) = EXPECTED_PKT_LEN" "udp_dst_port (demo_packet n) = 0"
  "drop VDIF_HEADER_OFFSET (demo_packet n) = replicate 4 0 @ n # replicate 8219 0"
  by (simp_all add: demo_packet_def EXPECTED_PKT_LEN_def udp_dst_port_def UDP_HEADER_OFFSET_def
      VDIF_HEADER_OFFSET_def nth_append)

lemma demo_info:
  "packet_of_frame (demo_cfg bb) (replicate 4 0 @ n # replicate 8219 0) =
     \<lparr>recv_packet_id = ucast n, info_batchid = ucast n, pkt_idx_inbatch = 0,
      info_metadata = \<lparr>seconds_from_epoch = 0, frame_number = ucast n, noise_source_state = 0\<rparr>,
      frame = replicate 4 0 @ n # replicate 8219 0\<rparr>"
proof -
  have m: "(0xffffff :: u32) = semiring_bit_operations_class.mask 24" by (simp add: mask_eq_decr_exp)
  have "(ucast n AND 0xffffff :: u32) = ucast n"
    unfolding m by (rule bit_word_eqI) (auto simp: bit_simps dest: bit_imp_le_length)
  then have "readMetadata (replicate 4 0 @ n # replicate 8219 0) False
    = \<lparr>seconds_from_epoch = 0, frame_number = ucast n, noise_source_state = 0\<rparr>"
    by (simp add: readMetadata_def readLE32_def nth_append nth_Cons')
  moreover have "ucast (ucast n :: u32) = (ucast n :: u64)"
    by (rule bit_word_eqI) (auto simp: bit_simps dest: bit_imp_le_length)
  ultimately show ?thesis
    by (simp add: packet_of_frame_def demo_cfg_def packet_id_def Let_def)
qed

definition demo_pinfo :: "bool \<Rightarrow> u8 \<Rightarrow> packet_info" where
  "demo_pinfo bb n = packet_of_frame (demo_cfg bb) (drop VDIF_HEADER_OFFSET (demo_packet n))"

lemma demo_pinfo_sel:
  "recv_packet_id (demo_pinfo bb n) = ucast n" "info_batchid (demo_pinfo bb n) = ucast n"
  "pkt_idx_inbatch (demo_pinfo bb n) = 0"
  by (simp_all add: demo_pinfo_def demo_frame demo_info)

lemma demo_classify:
  "rx_classify (demo_cfg bb) mon now (demo_packet n) r =
     sequence_check (demo_cfg bb) now (demo_pinfo bb n) (r\<lparr>total_pkts := total_pkts r + 1\<rparr>)"
  by (simp add: rx_classify_def demo_frame(1,2) demo_pinfo_def Let_def update_monitor_def)
    (simp add: demo_cfg_def)

lemma demo_store: "\<exists>r'. rx_store (demo_cfg bb) info r = Inr r'"
proof -
  have "\<exists>h. frame_header (demo_cfg bb) vdif = Inr h" for vdif
    by (auto simp: frame_header_def demo_cfg_def configureBaseband_eq baseband_frame_bytes_def
        VDIF_PAYLOAD_LEN_def Let_def)
  then obtain h where "frame_header (demo_cfg bb) (frame info) = Inr h" by blast
  then show ?thesis by (simp add: rx_store_def Let_def)
qed

lemma demo_run:
  "\<exists>s. rx_reach (demo_cfg bb) 1 s \<and> stored s = [demo_pinfo bb 0, demo_pinfo bb 1] \<and> length (published s) = 1
     \<and> pool_idx (rx s) = 1 \<and> queue_list (queue (rx s)) = [0] \<and> held s = None
     \<and> rpc s = R_idle"
proof -
  let ?s0 = "rx_init (demo_cfg bb) 1"
  have init: "expected_pkt_id (rx ?s0) = 0" "queue (rx ?s0) = new_buffer 1" "pool_idx (rx ?s0) = 0"
    "rpc ?s0 = R_idle" "length (pool (rx ?s0)) = 3"
    by (simp_all add: rx_init_def new_receiver_def)
  obtain r1 where a0: "rx_classify (demo_cfg bb) Mon_mapped 0 (demo_packet 0) (rx ?s0) = Rx_accept r1 (demo_pinfo bb 0)"
    using init by (simp add: demo_classify sequence_check_def demo_pinfo_sel Let_def)
  have f1: "prebatchid r1 = 0" "queue r1 = new_buffer 1" "pool_idx r1 = 0" "expected_pkt_id r1 = 1"
      "length (pool r1) = 3"
    using rx_classify_accept [OF a0] init by (simp_all add: demo_pinfo_sel)
  note s1 = rx_next [OF rx_start [of "demo_cfg bb" 1] rx_accept [OF init(4) a0]]
  obtain r2 where st: "rx_store (demo_cfg bb) (demo_pinfo bb 0) r1 = Inr r2" using demo_store by blast
  note f2 = rx_store_sel [OF st, unfolded f1]
  have s2: "rx_reach (demo_cfg bb) 1 (?s0\<lparr>rx := r2, stored := [demo_pinfo bb 0]\<rparr>)"
    using rx_next [OF s1 rx_done [of _ "demo_pinfo bb 0" "demo_cfg bb" r2]] st f1
    by (simp add: demo_pinfo_sel rx_init_def)
  obtain r3 where a1: "rx_classify (demo_cfg bb) Mon_mapped 0 (demo_packet 1) r2 = Rx_accept r3 (demo_pinfo bb 1)"
    using f2 by (simp add: demo_classify sequence_check_def demo_pinfo_sel Let_def)
  have f3: "prebatchid r3 = 0" "queue r3 = new_buffer 1" "pool_idx r3 = 0" "length (pool r3) = 3"
    using rx_classify_accept [OF a1] f2 by (simp_all add: demo_pinfo_sel)
  let ?s2 = "?s0\<lparr>rx := r2, stored := [demo_pinfo bb 0]\<rparr>"
  have s3: "rx_reach (demo_cfg bb) 1 (?s0\<lparr>rx := r3, rpc := R_advance (demo_pinfo bb 1), stored := [demo_pinfo bb 0]\<rparr>)"
    using rx_next [OF s2 rx_accept [of ?s2 "demo_cfg bb" Mon_mapped 0 "demo_packet 1" r3 "demo_pinfo bb 1"]] a1
    by (simp add: rx_init_def)
  let ?s3 = "?s0\<lparr>rx := r3, rpc := R_advance (demo_pinfo bb 1), stored := [demo_pinfo bb 0]\<rparr>"
  have nbuf: "cb_inv (new_buffer 1 :: nat circular_buffer)" by (rule new_buffer_inv) simp_all
  have nbl: "queue_list (new_buffer 1 :: nat circular_buffer) = []" by (rule new_buffer_inv) simp_all
  have nbc: "unat (maxcap (new_buffer 1 :: nat circular_buffer)) = 1" by (simp add: new_buffer_def)
  obtain q where q: "try_enqueue 0 (new_buffer 1) = (True, q)" "queue_list q = [0 :: nat]"
    using cb.enqE [OF nbuf, of 0] nbl nbc by auto
  define r4 where "r4 = next_batch (demo_cfg bb) ((finish_current (demo_cfg bb) r3)\<lparr>queue := q\<rparr>)"
  have p: "rx_try_publish (demo_cfg bb) r3 = (True, r4)"
    using q f3 by (simp add: rx_try_publish_def r4_def)
  have f4: "queue r4 = q" "pool_idx r4 = 1" "prebatchid r4 = 1" using f3 by (simp_all add: r4_def)
  let ?b = "current (finish_current (demo_cfg bb) r3)"
  have s4: "rx_reach (demo_cfg bb) 1 (?s3\<lparr>rx := r4, published := [?b]\<rparr>)"
    using rx_next [OF s3 rx_publish [of ?s3 "demo_pinfo bb 1" "demo_cfg bb" r4]] p f3
    by (simp add: demo_pinfo_sel rx_init_def)
  obtain r5 where st5: "rx_store (demo_cfg bb) (demo_pinfo bb 1) r4 = Inr r5" using demo_store by blast
  note f5 = rx_store_sel [OF st5, unfolded f4]
  let ?s4 = "?s3\<lparr>rx := r4, published := [?b]\<rparr>"
  note s5 = rx_next [OF s4 rx_done [of ?s4 "demo_pinfo bb 1" "demo_cfg bb" r5]]
  show ?thesis
    by (rule exI, rule conjI, rule s5)
      (use f4 f5 st5 q in \<open>simp_all add: demo_pinfo_sel rx_init_def\<close>)
qed

theorem pool_ownership_witness:
  "\<exists>s. rx_reach (demo_cfg False) 1 s \<and> queue_list (queue (rx s)) = [0] \<and> pool_idx (rx s) = 1
     \<and> distinct (pool_idx (rx s) # queue_list (queue (rx s)))"
proof -
  obtain s where s: "rx_reach (demo_cfg False) 1 s" "pool_idx (rx s) = 1" "queue_list (queue (rx s)) = [0]"
    using demo_run by blast
  then show ?thesis using pool_ownership [OF _ _ s(1)] by (intro exI [of _ s]) simp
qed

end
