(* ===== verification/Receiver_Content.thy ===== *)
theory Receiver_Content
  imports Receiver_Pool
begin

text \<open>
  What the batches published by the receiver contain. The invariant relates the batch being filled
  to the packets stored so far, each published batch to the packets of its id, and the sequence of
  published batch ids to the first packet; it is proved by induction over the runs of
  \<open>Receiver_Pool\<close>, with one lemma per part of the loop.
\<close>

section \<open>Headers of stored frames\<close>

text \<open>The packet id a reader computes from a header.\<close>

definition hdr_id :: "VDIF \<Rightarrow> u64" where
  "hdr_id h = packet_id \<lparr>seconds_from_epoch = getSecondsFromEpoch h, frame_number = getFrameNumber h,
     noise_source_state = 0\<rparr>"

lemma hdr_id_frame:
  assumes "HEADER_SIZE \<le> length vdif"
  shows "hdr_id \<lparr>header_bytes = take HEADER_SIZE vdif\<rparr> = packet_id (readMetadata vdif noise)"
    "wf_VDIF \<lparr>header_bytes = take HEADER_SIZE vdif\<rparr>"
proof -
  show wf: "wf_VDIF \<lparr>header_bytes = take HEADER_SIZE vdif\<rparr>" using assms by (simp add: wf_VDIF_def)
  have "vdif = header_bytes \<lparr>header_bytes = take HEADER_SIZE vdif\<rparr> @ drop HEADER_SIZE vdif" by simp
  then have "readMetadata vdif noise = readMetadata
      (header_bytes \<lparr>header_bytes = take HEADER_SIZE vdif\<rparr> @ drop HEADER_SIZE vdif) noise" by simp
  then show "hdr_id \<lparr>header_bytes = take HEADER_SIZE vdif\<rparr> = packet_id (readMetadata vdif noise)"
    unfolding readMetadata_header [OF wf] by (simp add: hdr_id_def packet_id_def)
qed

lemma hdr_id_setPacketId:
  assumes "wf_VDIF v" "unat pid div 62500 < 2 ^ 30"
  shows "hdr_id (setPacketId pid v) = pid" "wf_VDIF (setPacketId pid v)"
    "getInvalid (setPacketId pid v) = getInvalid v"
proof -
  show wf: "wf_VDIF (setPacketId pid v)" using assms by (simp add: setPacketId_table)
  note r = setPacketId_read [OF assms, of "[]" False]
  show "hdr_id (setPacketId pid v) = pid"
    using r unfolding readMetadata_header [OF wf] by (simp add: hdr_id_def packet_id_def)
  show "getInvalid (setPacketId pid v) = getInvalid v" using r by simp
qed

lemma hdr_id_setInvalid:
  assumes "wf_VDIF v"
  shows "hdr_id (setInvalid b v) = hdr_id v" "wf_VDIF (setInvalid b v)" "getInvalid (setInvalid b v) = b"
  using assms invalid.get_set [of v b]
  by (simp_all add: hdr_id_def fields_table get_set_field_other WORDS_def)

lemma hdr_id_configureBaseband:
  assumes "wf_VDIF v" "configureBaseband bits tid payload v = Inr v'" "tid < 2 ^ 10"
  shows "hdr_id v' = hdr_id v" "wf_VDIF v'" "getInvalid v' = getInvalid v"
  using configureBaseband_read [OF assms] by (simp_all add: hdr_id_def)

lemma frame_header_ok:
  assumes "frame_header cfg vdif = Inr h" "HEADER_SIZE \<le> length vdif" "thread_id cfg < 2 ^ 10"
  shows "wf_VDIF h" "hdr_id h = packet_id (readMetadata vdif noise)"
    "getInvalid h = getInvalid \<lparr>header_bytes = take HEADER_SIZE vdif\<rparr>"
  using assms hdr_id_frame(1) [OF assms(2), of noise] hdr_id_frame(2) [OF assms(2)]
    hdr_id_configureBaseband [OF hdr_id_frame(2) [OF assms(2)]]
  by (auto simp: frame_header_def Let_def split: if_splits)

section \<open>Packet ids as numbers\<close>

abbreviation bs :: "rx_config \<Rightarrow> nat" where "bs cfg \<equiv> unat (batchsize cfg)"
abbreviation pid :: "packet_info \<Rightarrow> nat" where "pid i \<equiv> unat (recv_packet_id i)"
abbreviation bid :: "packet_info \<Rightarrow> nat" where "bid i \<equiv> unat (info_batchid i)"
abbreviation idx :: "packet_info \<Rightarrow> nat" where "idx i \<equiv> unat (pkt_idx_inbatch i)"

definition wf_info :: "rx_config \<Rightarrow> packet_info \<Rightarrow> bool" where
  "wf_info cfg i \<longleftrightarrow> i = packet_of_frame cfg (frame i) \<and> length (frame i) = HEADER_SIZE + VDIF_PAYLOAD_LEN"

lemma readMetadata_bounds:
  "unat (seconds_from_epoch (readMetadata b noise)) < 2 ^ 30"
  "unat (frame_number (readMetadata b noise)) < 2 ^ 24"
proof -
  have 1: "w AND 0x3fffffff = take_bit 30 w" "w AND 0xffffff = take_bit 24 w" for w :: u32
    by (simp_all add: take_bit_eq_mask mask_eq_exp_minus_1)
  show "unat (seconds_from_epoch (readMetadata b noise)) < 2 ^ 30"
    "unat (frame_number (readMetadata b noise)) < 2 ^ 24"
    using take_bit_nat_less_exp [of 30 "unat (readLE32 b)"]
      take_bit_nat_less_exp [of 24 "unat (readLE32 (drop 4 b))"]
    by (simp_all add: readMetadata_def Let_def 1 unsigned_take_bit_eq)
qed

lemma packet_id_nat:
  assumes "unat (seconds_from_epoch m) < 2 ^ 30" "unat (frame_number m) < 2 ^ 24"
  shows "unat (packet_id m) = unat (seconds_from_epoch m) * 62500 + unat (frame_number m)"
  using assms by (simp add: packet_id_def FRAMES_PER_SECOND_def unat_word_ariths unat_ucast_up)

lemma pid_bounds:
  assumes "wf_info cfg i"
  shows "pid i < 2 ^ 47" "pid i div 62500 < 2 ^ 30 + 270"
proof -
  let ?m = "readMetadata (frame i) (rx_cal_mode cfg)"
  have "recv_packet_id i = packet_id ?m"
    using assms by (metis packet_of_frame_def packet_info.select_convs(1) wf_info_def)
  then have "pid i = unat (seconds_from_epoch ?m) * 62500 + unat (frame_number ?m)"
    using packet_id_nat [OF readMetadata_bounds] by simp
  then show "pid i < 2 ^ 47" "pid i div 62500 < 2 ^ 30 + 270"
    using readMetadata_bounds [of "frame i" "rx_cal_mode cfg"] by simp_all
qed

lemma wf_info_nat:
  assumes "wf_info cfg i" "0 < bs cfg"
  shows "bid i = pid i div bs cfg" "idx i = pid i mod bs cfg"
proof -
  define f where "f = frame i"
  have i: "i = packet_of_frame cfg f" using assms(1) by (simp add: wf_info_def f_def)
  have u: "unat (ucast (batchsize cfg) :: u64) = bs cfg" by (simp add: unat_ucast_up)
  show "bid i = pid i div bs cfg" unfolding i by (simp add: packet_of_frame_def Let_def unat_div u)
  define w where "w = recv_packet_id i mod ucast (batchsize cfg)"
  have w: "unat w = pid i mod bs cfg" by (simp add: w_def unat_mod u)
  moreover have "pid i mod bs cfg < 2 ^ 32"
    using mod_less_divisor [OF assms(2), of "pid i"] unsigned_less [of "batchsize cfg", where 'a = nat]
    by simp
  ultimately have "unat (ucast w :: u32) = unat w" by (simp add: unsigned_ucast_eq take_bit_nat_eq_self)
  moreover have "pkt_idx_inbatch i = ucast w" by (simp add: i w_def packet_of_frame_def Let_def)
  ultimately show "idx i = pid i mod bs cfg" using w by simp
qed

lemma wf_info_split:
  assumes "wf_info cfg i" "0 < bs cfg"
  shows "pid i = bid i * bs cfg + idx i" "idx i < bs cfg"
  using assms by (simp_all add: wf_info_nat)

lemma unat_batch_start:
  assumes "unat b * bs cfg < 2 ^ 64"
  shows "unat (batch_start cfg b) = unat b * bs cfg"
  using assms by (simp add: batch_start_def unat_mult_exact unat_ucast_up)

text \<open>Two packets of one batch have distinct indices; the later one has the larger.\<close>

lemma same_batch_idx:
  assumes "wf_info cfg i" "wf_info cfg j" "0 < bs cfg" "bid i = bid j" "pid i < pid j"
  shows "idx i < idx j"
  using wf_info_split [OF assms(1,3)] wf_info_split [OF assms(2,3)] assms(4,5) by simp

section \<open>One batch\<close>

definition payload :: "packet_info \<Rightarrow> bytes" where
  "payload i = take VDIF_PAYLOAD_LEN (drop HEADER_SIZE (frame i))"

definition shape :: "rx_config \<Rightarrow> PacketBatch \<Rightarrow> bool" where
  "shape cfg b \<longleftrightarrow> length (pkt_ids b) = bs cfg \<and> length (hdrs b) = bs cfg
     \<and> length (buffer b) = bs cfg \<and> length (noise_states b) = bs cfg \<and> (\<forall>h \<in> set (hdrs b). wf_VDIF h)"

text \<open>\<open>filled cfg t B xs b\<close>: batch \<open>b\<close> was prepared for id \<open>B\<close> with header template \<open>t\<close> and then
  received the packets \<open>xs\<close>.\<close>

definition filled :: "rx_config \<Rightarrow> VDIF option \<Rightarrow> u64 \<Rightarrow> packet_info list \<Rightarrow> PacketBatch \<Rightarrow> bool" where
  "filled cfg t B xs b \<longleftrightarrow>
     batch_id b = B \<and> received_count b = of_nat (length xs)
     \<and> (\<forall>i \<in> set xs. pkt_ids b ! idx i = recv_packet_id i \<and> buffer b ! idx i = payload i
          \<and> (baseband_mode cfg \<and> idx i \<noteq> 0 \<longrightarrow> frame_header cfg (frame i) = Inr (hdrs b ! idx i)))
     \<and> (if xs = [] then
          (case t of None \<Rightarrow> \<not> header_valid b
           | Some h \<Rightarrow> header_valid b \<and> hdrs b ! 0 = setPacketId (batch_start cfg B) h)
        else header_valid b \<and> (\<exists>h. frame_header cfg (frame (hd xs)) = Inr h
               \<and> hdrs b ! 0 = setPacketId (batch_start cfg B) h))"

definition template :: "receiver \<Rightarrow> VDIF option" where
  "template r = (if have_header_template r then Some (last_header_template r) else None)"

lemma wf_setPacketId: "wf_VDIF (setPacketId p v) = wf_VDIF v"
  by (simp add: setPacketId_def header_defs put_word_def writeLE32_def wf_VDIF_def)

lemma shape_prepare:
  assumes "shape cfg b" "have_header_template r \<longrightarrow> wf_VDIF (last_header_template r)"
  shows "shape cfg (prepare_batch cfg r B b)"
  using assms by (auto simp: shape_def prepare_batch_def Let_def wf_setPacketId
      dest!: set_update_subset_insert [THEN subsetD])

lemma filled_prepare:
  assumes "shape cfg b" "0 < bs cfg"
  shows "filled cfg (template r) B [] (prepare_batch cfg r B b)"
  using assms by (auto simp: filled_def template_def prepare_batch_def shape_def Let_def)

lemma pkt_ids_prepare [simp]: "pkt_ids (prepare_batch cfg r B b) = pkt_ids b"
  by (simp add: prepare_batch_def Let_def)


text \<open>Storing a packet of the batch that is later than the ones already in it.\<close>

lemma rx_store_fields:
  assumes st: "rx_store cfg info r = Inr r'" and inb: "pool_idx r < length (pool r)"
  obtains h where "frame_header cfg (frame info) = Inr h"
    "pool r' = (pool r)[pool_idx r := current r']"
    "pkt_ids (current r') = (pkt_ids (current r))[idx info := recv_packet_id info]"
    "buffer (current r') = (buffer (current r))[idx info := payload info]"
    "batch_id (current r') = batch_id (current r)"
    "received_count (current r') = received_count (current r) + 1"
    "header_valid (current r') = (header_valid (current r) \<or> received_count (current r) = 0)"
    "length (noise_states (current r')) = length (noise_states (current r))"
    "hdrs (current r') = (let hs = (if baseband_mode cfg then (hdrs (current r))[idx info := h]
           else hdrs (current r))
       in if received_count (current r) = 0
          then hs[0 := setPacketId (batch_start cfg (info_batchid info)) h] else hs)"
    "template r' = (if received_count (current r) = 0
       then Some (setPacketId (batch_start cfg (info_batchid info)) h) else template r)"
proof -
  obtain h where h: "frame_header cfg (frame info) = Inr h"
    using st by (auto simp: rx_store_def Let_def bind_result_Inr_iff)
  show ?thesis
    by (rule that [OF h])
      (use st h inb in \<open>cases "baseband_mode cfg"; cases "received_count (current r) = 0";
        auto simp: rx_store_def Let_def payload_def template_def\<close>)+
qed

lemma filled_store:
  assumes fil: "filled cfg t (info_batchid info) xs (current r)" and sh: "shape cfg (current r)"
    and wf: "wf_info cfg info" "\<forall>i \<in> set xs. wf_info cfg i" "0 < bs cfg"
    and later: "\<forall>i \<in> set xs. pid i < pid info \<and> info_batchid i = info_batchid info"
    and few: "length xs < 2 ^ 32"
    and inb: "pool_idx r < length (pool r)" and st: "rx_store cfg info r = Inr r'"
  shows "filled cfg t (info_batchid info) (xs @ [info]) (current r')"
proof -
  from st obtain h where h: "frame_header cfg (frame info) = Inr h"
    and r': "pkt_ids (current r') = (pkt_ids (current r))[idx info := recv_packet_id info]"
      "buffer (current r') = (buffer (current r))[idx info := payload info]"
      "batch_id (current r') = batch_id (current r)"
      "received_count (current r') = received_count (current r) + 1"
      "header_valid (current r') = (header_valid (current r) \<or> received_count (current r) = 0)"
      "hdrs (current r') = (let hs = (if baseband_mode cfg then (hdrs (current r))[idx info := h]
             else hdrs (current r))
         in if received_count (current r) = 0
            then hs[0 := setPacketId (batch_start cfg (info_batchid info)) h] else hs)"
    using inb by (rule rx_store_fields)
  have ix: "idx info < bs cfg" using wf wf_info_split by blast
  have other: "idx i < idx info" if "i \<in> set xs" for i
    using same_batch_idx wf later that by metis
  have len: "length (pkt_ids (current r)) = bs cfg" "length (hdrs (current r)) = bs cfg"
      "length (buffer (current r)) = bs cfg"
    using sh by (simp_all add: shape_def)
  have rc: "received_count (current r) = 0 \<longleftrightarrow> xs = []"
    using fil few by (simp add: filled_def word_eq_unat unat_of_nat)
  show ?thesis
  proof (cases "xs = []")
    case True
    then show ?thesis using fil h r' len ix wf(3) rc by (auto simp: filled_def Let_def)
  next
    case False
    then have "idx info \<noteq> 0" using other by (metis list.set_sel(1) not_less_zero)
    then show ?thesis using False fil h r' len ix rc other
      by (fastforce simp: filled_def Let_def nth_list_update_if)
  qed
qed

lemma shape_store:
  assumes sh: "shape cfg (current r)" and wf: "wf_info cfg info" "thread_id cfg < 2 ^ 10"
    and inb: "pool_idx r < length (pool r)" and st: "rx_store cfg info r = Inr r'"
  shows "shape cfg (current r')"
    "(\<forall>v. template r = Some v \<longrightarrow> wf_VDIF v) \<Longrightarrow> (\<forall>v. template r' = Some v \<longrightarrow> wf_VDIF v)"
proof -
  from st inb obtain h where h: "frame_header cfg (frame info) = Inr h"
    and r': "pkt_ids (current r') = (pkt_ids (current r))[idx info := recv_packet_id info]"
      "buffer (current r') = (buffer (current r))[idx info := payload info]"
      "length (noise_states (current r')) = length (noise_states (current r))"
      "hdrs (current r') = (let hs = (if baseband_mode cfg then (hdrs (current r))[idx info := h]
             else hdrs (current r))
         in if received_count (current r) = 0
            then hs[0 := setPacketId (batch_start cfg (info_batchid info)) h] else hs)"
      "template r' = (if received_count (current r) = 0
         then Some (setPacketId (batch_start cfg (info_batchid info)) h) else template r)"
    by (rule rx_store_fields)
  have wh: "wf_VDIF h"
    using frame_header_ok(1) [OF h _ wf(2)] wf(1) by (simp add: wf_info_def)
  have upd: "\<forall>x \<in> set (hs[k := v]). wf_VDIF x" if "\<forall>x \<in> set hs. wf_VDIF x" "wf_VDIF v"
    for hs :: "VDIF list" and k v
    using that by (metis insert_iff set_update_subset_insert subsetD)
  have base: "\<forall>x \<in> set (hdrs (current r)). wf_VDIF x" using sh by (simp add: shape_def)
  define hs where "hs = (if baseband_mode cfg then (hdrs (current r))[idx info := h] else hdrs (current r))"
  have "\<forall>x \<in> set hs. wf_VDIF x" unfolding hs_def using upd [OF base wh, of "idx info"] base by simp
  then have "\<forall>x \<in> set (hdrs (current r')). wf_VDIF x"
    unfolding r'(4) Let_def hs_def [symmetric]
    using upd [of hs "setPacketId (batch_start cfg (info_batchid info)) h" 0] wh
    by (simp add: wf_setPacketId)
  then show "shape cfg (current r')" using sh r' by (simp add: shape_def Let_def)
  show "(\<forall>v. template r = Some v \<longrightarrow> wf_VDIF v) \<Longrightarrow> (\<forall>v. template r' = Some v \<longrightarrow> wf_VDIF v)"
    using r'(5) wh by (simp add: wf_setPacketId)
qed

section \<open>Finishing a batch\<close>

lemma fill_missing_sel [simp]:
  "pkt_ids (fill_missing start i k b) = pkt_ids b" "batch_id (fill_missing start i k b) = batch_id b"
  "batch_valid (fill_missing start i k b) = batch_valid b"
  "header_valid (fill_missing start i k b) = header_valid b"
  "received_count (fill_missing start i k b) = received_count b"
  "noise_states (fill_missing start i k b) = noise_states b"
  "length (buffer (fill_missing start i k b)) = length (buffer b)"
  "length (hdrs (fill_missing start i k b)) = length (hdrs b)"
  by (induction start i k b rule: fill_missing.induct) (simp_all add: Let_def)

definition missing_slot :: "u64 \<Rightarrow> PacketBatch \<Rightarrow> nat \<Rightarrow> bool" where
  "missing_slot start b k \<longleftrightarrow> buffer b ! k = replicate VDIF_PAYLOAD_LEN 0x80
     \<and> (\<exists>h. wf_VDIF h \<and> hdrs b ! k = setInvalid True (setPacketId (start + of_nat k) h))"

lemma wf_setInvalid: "wf_VDIF (setInvalid b v) = wf_VDIF v"
  by (simp add: header_defs put_word_def writeLE32_def wf_VDIF_def)

lemma fill_missing_spec:
  assumes "i + k \<le> n" "length (hdrs b) = n" "length (buffer b) = n" "\<forall>h \<in> set (hdrs b). wf_VDIF h"
  shows "(\<forall>h \<in> set (hdrs (fill_missing start i k b)). wf_VDIF h)
    \<and> (\<forall>j < n. if i \<le> j \<and> j < i + k \<and> pkt_ids b ! j \<noteq> start + of_nat j
         then missing_slot start (fill_missing start i k b) j
         else buffer (fill_missing start i k b) ! j = buffer b ! j
              \<and> hdrs (fill_missing start i k b) ! j = hdrs b ! j)"
  using assms
proof (induction start i k b rule: fill_missing.induct)
  case (2 start i k b)
  let ?h = "setInvalid True (setPacketId (start + of_nat i) (hdrs b ! 0))"
  define b1 where "b1 = (if pkt_ids b ! i = start + of_nat i then b
      else b\<lparr>buffer := (buffer b)[i := replicate VDIF_PAYLOAD_LEN 0x80], hdrs := (hdrs b)[i := ?h]\<rparr>)"
  have i: "i < n" and h0: "wf_VDIF (hdrs b ! 0)" using "2.prems" by auto
  have wf1: "\<forall>h \<in> set (hdrs b1). wf_VDIF h"
    using "2.prems"(4) h0 set_update_subset_insert [of "hdrs b" i ?h]
    by (auto simp: b1_def wf_setInvalid wf_setPacketId)
  have b1: "pkt_ids b1 = pkt_ids b" "length (hdrs b1) = n" "length (buffer b1) = n"
    using "2.prems" by (simp_all add: b1_def)
  define f where "f = fill_missing start (i + 1) k b1"
  have eq: "fill_missing start i (Suc k) b = f" by (simp add: b1_def f_def Let_def)
  have IH: "(\<forall>h \<in> set (hdrs f). wf_VDIF h)
    \<and> (\<forall>j < n. if i + 1 \<le> j \<and> j < i + 1 + k \<and> pkt_ids b1 ! j \<noteq> start + of_nat j
         then missing_slot start f j
         else buffer f ! j = buffer b1 ! j \<and> hdrs f ! j = hdrs b1 ! j)"
    unfolding f_def
    by (rule "2.IH" [OF refl, folded b1_def]) (use "2.prems"(1) b1 wf1 in simp_all)
  have step: "if j = i \<and> pkt_ids b ! i \<noteq> start + of_nat i then missing_slot start b1 j
      else buffer b1 ! j = buffer b ! j \<and> hdrs b1 ! j = hdrs b ! j" if "j < n" for j
    using "2.prems"(2,3) h0 i by (auto simp: b1_def missing_slot_def nth_list_update_if)
  show ?case unfolding eq
  proof (intro conjI allI impI)
    fix j assume j: "j < n"
    show "if i \<le> j \<and> j < i + Suc k \<and> pkt_ids b ! j \<noteq> start + of_nat j
         then missing_slot start f j else buffer f ! j = buffer b ! j \<and> hdrs f ! j = hdrs b ! j"
    proof (cases "j = i")
      case True
      then have "buffer f ! j = buffer b1 ! j \<and> hdrs f ! j = hdrs b1 ! j" using IH j by simp
      then show ?thesis using True step [OF j] by (auto simp: missing_slot_def split: if_splits)
    next
      case False
      then show ?thesis using IH j step [OF j] b1(1) by (auto split: if_splits)
    qed
  qed (use IH in blast)
qed auto

text \<open>\<open>final_ok cfg B xs b\<close>: what a finished batch with id \<open>B\<close> and packets \<open>xs\<close> holds.\<close>

definition final_ok :: "rx_config \<Rightarrow> u64 \<Rightarrow> packet_info list \<Rightarrow> PacketBatch \<Rightarrow> bool" where
  "final_ok cfg B xs b \<longleftrightarrow>
     batch_id b = B \<and> header_valid b \<and> (batch_valid b \<longleftrightarrow> length xs = bs cfg)
     \<and> (\<forall>i \<in> set xs. buffer b ! idx i = payload i
          \<and> (baseband_mode cfg \<and> idx i \<noteq> 0 \<longrightarrow> frame_header cfg (frame i) = Inr (hdrs b ! idx i)))
     \<and> (if baseband_mode cfg \<and> 0 \<notin> idx ` set xs then missing_slot (batch_start cfg B) b 0
        else \<exists>h. wf_VDIF h \<and> hdrs b ! 0 = setPacketId (batch_start cfg B) h
           \<and> (xs \<noteq> [] \<longrightarrow> frame_header cfg (frame (hd xs)) = Inr h))
     \<and> (baseband_mode cfg \<longrightarrow> (\<forall>k < bs cfg. k \<notin> idx ` set xs \<longrightarrow> missing_slot (batch_start cfg B) b k))"

lemma full_batch:
  assumes "\<forall>i \<in> set xs. idx i < n" "distinct (map idx xs)" "length xs = n"
  shows "idx ` set xs = {..<n}"
proof (rule card_subset_eq)
  show "card (idx ` set xs) = card {..<n}"
    using assms(2,3) by (metis card_lessThan distinct_card length_map list.set_map)
qed (use assms(1) in auto)

lemma batch_length:
  assumes "\<forall>i \<in> set xs. idx i < n" "distinct (map idx xs)"
  shows "length xs \<le> n"
proof -
  have "length xs = card (idx ` set xs)" using distinct_card [OF assms(2)] by simp
  also have "\<dots> \<le> card {..<n}" using assms(1) by (intro card_mono) auto
  finally show ?thesis by simp
qed

lemma filled_header0:
  assumes "filled cfg t B xs b" "header_valid b" "thread_id cfg < 2 ^ 10"
    and "\<forall>i \<in> set xs. wf_info cfg i" "\<forall>h. t = Some h \<longrightarrow> wf_VDIF h"
  obtains h where "wf_VDIF h" "hdrs b ! 0 = setPacketId (batch_start cfg B) h"
    "xs \<noteq> [] \<longrightarrow> frame_header cfg (frame (hd xs)) = Inr h"
proof (cases "xs = []")
  case True
  then show ?thesis using that assms by (auto simp: filled_def split: option.splits)
next
  case False
  then obtain h where h: "frame_header cfg (frame (hd xs)) = Inr h"
      "hdrs b ! 0 = setPacketId (batch_start cfg B) h"
    using assms(1) by (auto simp: filled_def)
  moreover have "wf_VDIF h"
    by (rule frame_header_ok(1) [OF h(1)]) (use False assms(3,4) in \<open>auto simp: wf_info_def\<close>)
  ultimately show ?thesis using that by blast
qed

lemma finalize_ok:
  assumes fil: "filled cfg t B xs b" and sh: "shape cfg b" and bs: "0 < bs cfg"
    and wf: "\<forall>i \<in> set xs. wf_info cfg i" "\<forall>h. t = Some h \<longrightarrow> wf_VDIF h" "thread_id cfg < 2 ^ 10"
    and dist: "distinct (map idx xs)" and hv: "header_valid b"
    and ids: "\<forall>k < bs cfg. pkt_ids b ! k = batch_start cfg B + of_nat k \<longleftrightarrow> k \<in> idx ` set xs"
  shows "final_ok cfg B xs (finalize_batch cfg b)"
proof -
  have ixs: "\<forall>i \<in> set xs. idx i < bs cfg" using wf(1) wf_info_split [OF _ bs] by blast
  have "length xs \<le> bs cfg" using batch_length [OF ixs dist] .
  moreover have "bs cfg < 2 ^ 32" using unsigned_less [of "batchsize cfg", where 'a = nat] by simp
  ultimately have rc: "received_count b = batchsize cfg \<longleftrightarrow> length xs = bs cfg"
    using fil by (simp add: filled_def word_eq_unat unat_of_nat)
  obtain h0 where h0: "wf_VDIF h0" "hdrs b ! 0 = setPacketId (batch_start cfg B) h0"
      "xs \<noteq> [] \<longrightarrow> frame_header cfg (frame (hd xs)) = Inr h0"
    using fil hv wf(3,1,2) by (rule filled_header0)
  define b1 where "b1 = b\<lparr>batch_valid := header_valid b \<and> received_count b = batchsize cfg\<rparr>"
  have b1: "batch_id b1 = B" "header_valid b1" "batch_valid b1 \<longleftrightarrow> length xs = bs cfg" "buffer b1 = buffer b"
      "hdrs b1 = hdrs b" "pkt_ids b1 = pkt_ids b"
    using fil hv rc by (simp_all add: b1_def filled_def)
  have got: "buffer b ! idx i = payload i"
      "baseband_mode cfg \<and> idx i \<noteq> 0 \<longrightarrow> frame_header cfg (frame i) = Inr (hdrs b ! idx i)"
    if "i \<in> set xs" for i
    using fil that by (auto simp: filled_def)
  show ?thesis
  proof (cases "\<not> baseband_mode cfg \<or> batch_valid b1")
    case True
    then have f: "finalize_batch cfg b = b1" by (simp add: finalize_batch_def b1_def Let_def)
    have "idx ` set xs = {..<bs cfg}" if "baseband_mode cfg"
      using True that b1(3) full_batch [OF ixs dist] by simp
    then show ?thesis unfolding f final_ok_def using b1 got h0 bs by auto
  next
    case False
    define b2 where "b2 = fill_missing (batch_start cfg B) 0 (bs cfg) b1"
    have f: "finalize_batch cfg b = b2"
      using False b1(1,2) by (simp add: finalize_batch_def b1_def [symmetric] b2_def Let_def)
    have len: "length (hdrs b1) = bs cfg" "length (buffer b1) = bs cfg" "\<forall>h \<in> set (hdrs b1). wf_VDIF h"
      using sh b1 by (simp_all add: shape_def)
    have spec: "if j \<notin> idx ` set xs then missing_slot (batch_start cfg B) b2 j
        else buffer b2 ! j = buffer b ! j \<and> hdrs b2 ! j = hdrs b ! j" if "j < bs cfg" for j
      using fill_missing_spec [OF _ len, of 0 "bs cfg" "batch_start cfg B"] that ids b1(4-6)
      by (auto simp: b2_def split: if_splits)
    have "batch_id b2 = B" "header_valid b2" "batch_valid b2 \<longleftrightarrow> length xs = bs cfg"
      using b1 by (simp_all add: b2_def)
    then show ?thesis unfolding f final_ok_def using False spec got h0 ixs bs by (auto split: if_splits)
  qed
qed

lemma shape_fill: "shape cfg b \<Longrightarrow> shape cfg (fill_missing start 0 (bs cfg) b)"
  using fill_missing_spec [of 0 "bs cfg" "bs cfg" b start] by (simp add: shape_def)

lemma shape_valid [simp]: "shape cfg (b\<lparr>batch_valid := v\<rparr>) = shape cfg b"
  by (simp add: shape_def)

lemma shape_finalize: "shape cfg b \<Longrightarrow> shape cfg (finalize_batch cfg b)"
  by (simp add: finalize_batch_def Let_def shape_fill)

lemma pkt_ids_finalize [simp]: "pkt_ids (finalize_batch cfg b) = pkt_ids b"
  by (simp add: finalize_batch_def Let_def)

end
