(* ===== verification/Receiver_Batches.thy ===== *)
theory Receiver_Batches
  imports Receiver_Content
begin

text \<open>
  The invariant of the receiver over all its runs, and the properties of the batches it publishes:
  which batch ids are published, what each batch holds, how baseband gaps are filled and how the
  lost packets are counted.
\<close>

section \<open>The invariant\<close>

definition batch_of :: "u64 \<Rightarrow> packet_info list \<Rightarrow> packet_info list" where
  "batch_of B xs = filter (\<lambda>i. info_batchid i = B) xs"

text \<open>An accepted packet that has not been stored yet.\<close>

definition incoming :: "rx_config \<Rightarrow> rx_sys \<Rightarrow> packet_info \<Rightarrow> bool" where
  "incoming cfg s i \<longleftrightarrow> wf_info cfg i \<and> (\<forall>j \<in> set (stored s). pid j < pid i)
     \<and> unat (prebatchid (rx s)) \<le> bid i \<and> expected_pkt_id (rx s) = recv_packet_id i + 1
     \<and> (stored s = [] \<longrightarrow> idx i = 0 \<and> bid i = unat (prebatchid (rx s)))"

definition sequence_ok :: "rx_config \<Rightarrow> rx_sys \<Rightarrow> bool" where
  "sequence_ok cfg s \<longleftrightarrow>
     (case rpc s of
        R_idle \<Rightarrow> stored s \<noteq> [] \<and> expected_pkt_id (rx s) = recv_packet_id (last (stored s)) + 1
          \<and> bid (last (stored s)) = unat (prebatchid (rx s))
      | R_advance i \<Rightarrow> incoming cfg s i
      | R_blocked i \<Rightarrow> incoming cfg s i \<and> unat (prebatchid (rx s)) < bid i
      | R_ended \<Rightarrow> True)"

definition blocked :: "rx_pc \<Rightarrow> bool" where
  "blocked p = (case p of R_blocked i \<Rightarrow> True | _ \<Rightarrow> False)"

definition filling :: "rx_config \<Rightarrow> rx_sys \<Rightarrow> PacketBatch \<Rightarrow> bool" where
  "filling cfg s b \<longleftrightarrow>
     (\<exists>t. (\<forall>h. t = Some h \<longrightarrow> wf_VDIF h)
        \<and> filled cfg t (prebatchid (rx s)) (batch_of (prebatchid (rx s)) (stored s)) b)
     \<and> shape cfg b \<and> (stored s \<noteq> [] \<longrightarrow> header_valid b)
     \<and> current (rx s) = (if blocked (rpc s) then finalize_batch cfg b else b)"

definition started_inv :: "rx_config \<Rightarrow> rx_sys \<Rightarrow> bool" where
  "started_inv cfg s \<longleftrightarrow>
     (have_header_template (rx s) \<longleftrightarrow> stored s \<noteq> [])
     \<and> (\<forall>i \<in> set (stored s). bid i \<le> unat (prebatchid (rx s)))
     \<and> (stored s \<noteq> [] \<longrightarrow> idx (hd (stored s)) = 0
          \<and> unat (prebatchid (rx s)) = bid (hd (stored s)) + length (published s))
     \<and> (stored s = [] \<longrightarrow> published s = [])
     \<and> unat (prebatchid (rx s)) * bs cfg < 2 ^ 47
     \<and> sequence_ok cfg s \<and> (\<exists>b. filling cfg s b)"

definition common_inv :: "rx_config \<Rightarrow> rx_sys \<Rightarrow> bool" where
  "common_inv cfg s \<longleftrightarrow>
     (\<forall>i \<in> set (stored s). wf_info cfg i) \<and> sorted_wrt (<) (map pid (stored s))
     \<and> (\<forall>b \<in> set (pool (rx s)). shape cfg b
          \<and> (\<forall>p \<in> set (pkt_ids b). p = 0 \<or> p \<in> recv_packet_id ` set (stored s)))
     \<and> (\<forall>v. template (rx s) = Some v \<longrightarrow> wf_VDIF v)
     \<and> (\<forall>b \<in> set (published s). unat (batch_id b) < unat (prebatchid (rx s))
          \<and> final_ok cfg (batch_id b) (batch_of (batch_id b) (stored s)) b)
     \<and> map (\<lambda>b. unat (batch_id b)) (published s)
         = [unat (prebatchid (rx s)) - length (published s)..<unat (prebatchid (rx s))]
     \<and> (expected_pkt_id (rx s) = 0 \<longrightarrow> stored s = [] \<and> published s = []
          \<and> \<not> have_header_template (rx s) \<and> rpc s \<in> {R_idle, R_ended})"

definition rx_inv :: "rx_config \<Rightarrow> rx_sys \<Rightarrow> bool" where
  "rx_inv cfg s \<longleftrightarrow> common_inv cfg s \<and> (expected_pkt_id (rx s) \<noteq> 0 \<longrightarrow> started_inv cfg s)"

lemma own_inv_index:
  assumes "own_inv s"
  shows "pool_idx (rx s) < length (pool (rx s))" "held s = Some h \<Longrightarrow> h \<noteq> pool_idx (rx s)"
    "held s = Some h \<Longrightarrow> h < length (pool (rx s))"
proof -
  have "length (queue_list (queue (rx s))) + 1 < length (pool (rx s))"
    using assms cb.bounded [of "queue (rx s)"] unfolding own_inv_def by linarith
  then have "distinct (pool_idx (rx s) # queue_list (queue (rx s)) @ (case held s of None \<Rightarrow> [] | Some h \<Rightarrow> [h]))
    \<and> set (pool_idx (rx s) # queue_list (queue (rx s)) @ (case held s of None \<Rightarrow> [] | Some h \<Rightarrow> [h]))
        \<subseteq> {..<length (pool (rx s))}"
    using assms own_ring_distinct unfolding own_inv_def by blast
  then show "pool_idx (rx s) < length (pool (rx s))" "held s = Some h \<Longrightarrow> h \<noteq> pool_idx (rx s)"
    "held s = Some h \<Longrightarrow> h < length (pool (rx s))" by auto
qed

lemma blocked_simps [simp]: "\<not> blocked R_idle" "\<not> blocked (R_advance i)" "blocked (R_blocked i)"
    "\<not> blocked R_ended"
  by (simp_all add: blocked_def)

text \<open>Steps that leave the batches and the sequence state alone.\<close>

lemma rx_inv_cong_pool:
  assumes "rx_inv cfg s" "current r = current (rx s)"
    and "\<forall>b \<in> set (pool r). shape cfg b
      \<and> (\<forall>p \<in> set (pkt_ids b). p = 0 \<or> p \<in> recv_packet_id ` set (stored s))"
    and "prebatchid r = prebatchid (rx s)" "expected_pkt_id r = expected_pkt_id (rx s)"
    "have_header_template r = have_header_template (rx s)" "template r = template (rx s)"
    and "p = rpc s \<or> (p = R_ended \<and> \<not> blocked (rpc s))"
  shows "rx_inv cfg (s\<lparr>rx := r, rpc := p, held := h\<rparr>)"
  using assms
  by (auto simp: rx_inv_def common_inv_def started_inv_def filling_def sequence_ok_def incoming_def
      split: rx_pc.splits)

lemma rx_inv_cong:
  assumes "rx_inv cfg s" "pool r = pool (rx s)" "pool_idx r = pool_idx (rx s)"
    "prebatchid r = prebatchid (rx s)" "expected_pkt_id r = expected_pkt_id (rx s)"
    "have_header_template r = have_header_template (rx s)"
    "last_header_template r = last_header_template (rx s)"
  shows "rx_inv cfg (s\<lparr>rx := r, held := h\<rparr>)" "rx_inv cfg (s\<lparr>rx := r\<rparr>)"
    "\<not> blocked (rpc s) \<Longrightarrow> rx_inv cfg (s\<lparr>rx := r, rpc := R_ended\<rparr>)"
proof -
  have p: "\<forall>b \<in> set (pool r). shape cfg b
      \<and> (\<forall>p \<in> set (pkt_ids b). p = 0 \<or> p \<in> recv_packet_id ` set (stored s))"
    using assms(1,2) by (simp add: rx_inv_def common_inv_def)
  have c: "current r = current (rx s)" "template r = template (rx s)"
    using assms by (simp_all add: template_def)
  note k = rx_inv_cong_pool [OF assms(1) c(1) p assms(4-6) c(2)]
  show "rx_inv cfg (s\<lparr>rx := r, held := h\<rparr>)" "rx_inv cfg (s\<lparr>rx := r\<rparr>)"
    using k [of "rpc s" h] k [of "rpc s" "held s"] by simp_all
  show "rx_inv cfg (s\<lparr>rx := r, rpc := R_ended\<rparr>)" if "\<not> blocked (rpc s)"
    using k [of R_ended "held s"] that by simp
qed

lemma rx_inv_init:
  assumes "0 < bs cfg"
  shows "rx_inv cfg (rx_init cfg capacity)"
  by (simp add: rx_inv_def common_inv_def rx_init_def new_receiver_def shape_def template_def
      allocatePacketBatch_def wf_new_VDIF)

section \<open>Accepting a packet\<close>

lemma accept_info:
  assumes "rx_classify cfg mon now pkt r = Rx_accept r' info"
  shows "wf_info cfg info"
proof -
  have f: "length pkt = EXPECTED_PKT_LEN" "info = packet_of_frame cfg (drop VDIF_HEADER_OFFSET pkt)"
    using rx_classify_accept [OF assms] by auto
  then have "frame info = drop VDIF_HEADER_OFFSET pkt" by (simp add: packet_of_frame_def Let_def)
  then show ?thesis using f
    by (simp add: wf_info_def EXPECTED_PKT_LEN_def VDIF_HEADER_OFFSET_def HEADER_SIZE_def VDIF_PAYLOAD_LEN_def)
qed

lemma unat_recv_Suc:
  assumes "wf_info cfg i"
  shows "unat (recv_packet_id i + 1) = pid i + 1" "recv_packet_id i + 1 \<noteq> 0"
proof -
  have "pid i + 1 < 2 ^ 64" using pid_bounds(1) [OF assms] by simp
  then show u: "unat (recv_packet_id i + 1) = pid i + 1" by (subst unat_add_exact) simp_all
  show "recv_packet_id i + 1 \<noteq> 0" using u by (metis Suc_eq_plus1 nat.distinct(1) unat_0)
qed

lemma last_is_max:
  assumes "sorted_wrt (<) (map f xs)" "x \<in> set xs"
  shows "f x \<le> (f (last xs) :: nat)"
proof -
  have "x = last xs \<or> x \<in> set (butlast xs)"
    using assms(2) by (metis append_butlast_last_id empty_iff empty_set in_set_conv_decomp_last
        rotate1.simps(2) set_ConsD set_append set_rotate1 Un_iff)
  moreover have "f x < f (last xs)" if "x \<in> set (butlast xs)"
  proof -
    have "xs = butlast xs @ [last xs]" using assms(2) by (metis append_butlast_last_id empty_iff empty_set)
    then have "sorted_wrt (<) (map f (butlast xs) @ [f (last xs)])"
      using assms(1) by (metis list.simps(8,9) map_append)
    then show ?thesis using that by (simp add: sorted_wrt_append)
  qed
  ultimately show ?thesis by auto
qed

lemma accept_facts:
  assumes "rx_classify cfg mon now pkt r = Rx_accept r' info" "0 < bs cfg"
  shows "expected_pkt_id r' = recv_packet_id info + 1" "expected_pkt_id r' \<noteq> 0"
    "template r' = template r" "have_header_template r' = have_header_template r"
    "pool_idx r' = pool_idx r" "bid info * bs cfg < 2 ^ 47"
proof -
  note c = rx_classify_accept [OF assms(1)]
  have wf: "wf_info cfg info" using assms(1) by (rule accept_info)
  show "expected_pkt_id r' = recv_packet_id info + 1" "expected_pkt_id r' \<noteq> 0"
      "template r' = template r" "have_header_template r' = have_header_template r"
      "pool_idx r' = pool_idx r"
    using c unat_recv_Suc(2) [OF wf] by (auto simp: template_def)
  show "bid info * bs cfg < 2 ^ 47" using wf_info_split [OF wf assms(2)] pid_bounds [OF wf] by simp
qed

lemma rx_inv_accept_first:
  assumes inv: "rx_inv cfg s" and own: "pool_idx (rx s) < length (pool (rx s))" and bs: "0 < bs cfg"
    and acc: "rx_classify cfg mon now pkt (rx s) = Rx_accept r info"
    and zero: "expected_pkt_id (rx s) = 0"
  shows "rx_inv cfg (s\<lparr>rx := r, rpc := R_advance info\<rparr>)"
proof -
  let ?s = "s\<lparr>rx := r, rpc := R_advance info\<rparr>"
  let ?b = "prepare_batch cfg (rx s) (info_batchid info) (current (rx s))"
  have wf: "wf_info cfg info" using acc by (rule accept_info)
  note e = accept_facts [OF acc bs]
  have com: "common_inv cfg s" using inv by (simp add: rx_inv_def)
  have n: "stored s = []" "published s = []" "\<not> have_header_template (rx s)"
    using com zero by (simp_all add: common_inv_def)
  have r: "prebatchid r = info_batchid info" "pool r = (pool (rx s))[pool_idx (rx s) := ?b]"
      "pool_idx r = pool_idx (rx s)" "pkt_idx_inbatch info = 0"
    using rx_classify_accept [OF acc] unfolding if_P [OF zero] by blast+
  have shb: "shape cfg (current (rx s))" "\<forall>p \<in> set (pkt_ids (current (rx s))). p = 0"
    using com own n by (auto simp: common_inv_def)
  have b: "shape cfg ?b" "filled cfg (template (rx s)) (info_batchid info) [] ?b"
    using shb shape_prepare [of cfg "current (rx s)" "rx s"] filled_prepare [OF _ bs] n by auto
  have "filling cfg ?s ?b" using b n r own by (auto simp: filling_def batch_of_def template_def)
  moreover have "incoming cfg ?s info" using wf n r e by (simp add: incoming_def)
  ultimately have "started_inv cfg ?s" using n r e by (auto simp: started_inv_def sequence_ok_def)
  moreover have "common_inv cfg ?s"
    using com n r e b shb own unfolding common_inv_def
    by (auto dest!: set_update_subset_insert [THEN subsetD])
  ultimately show ?thesis by (simp add: rx_inv_def)
qed

lemma rx_inv_accept_next:
  assumes inv: "rx_inv cfg s" and bs: "0 < bs cfg" and pc: "rpc s = R_idle"
    and acc: "rx_classify cfg mon now pkt (rx s) = Rx_accept r info"
    and run: "expected_pkt_id (rx s) \<noteq> 0"
  shows "rx_inv cfg (s\<lparr>rx := r, rpc := R_advance info\<rparr>)"
proof -
  let ?s = "s\<lparr>rx := r, rpc := R_advance info\<rparr>"
  have wf: "wf_info cfg info" using acc by (rule accept_info)
  note e = accept_facts [OF acc bs]
  have com: "common_inv cfg s" and st: "started_inv cfg s" using inv run by (simp_all add: rx_inv_def)
  have r: "expected_pkt_id (rx s) \<le> recv_packet_id info" "prebatchid r = prebatchid (rx s)"
      "pool r = pool (rx s)" "pool_idx r = pool_idx (rx s)"
    using rx_classify_accept [OF acc] unfolding if_not_P [OF run] by blast+
  have l: "stored s \<noteq> []" "expected_pkt_id (rx s) = recv_packet_id (last (stored s)) + 1"
      "bid (last (stored s)) = unat (prebatchid (rx s))"
    using st pc by (simp_all add: started_inv_def sequence_ok_def)
  have wl: "wf_info cfg (last (stored s))" using com l(1) by (simp add: common_inv_def)
  have lt: "pid (last (stored s)) < pid info"
    using r(1) l(2) unat_recv_Suc(1) [OF wl] by (simp add: word_le_nat_alt)
  have "pid j < pid info" if "j \<in> set (stored s)" for j
    using last_is_max [OF _ that, of pid] com lt by (simp add: common_inv_def)
  moreover have "unat (prebatchid (rx s)) \<le> bid info"
    unfolding l(3) [symmetric] wf_info_nat [OF wl bs] wf_info_nat [OF wf bs]
    using lt by (intro div_le_mono) simp
  ultimately have "incoming cfg ?s info" using wf e r l(1) by (simp add: incoming_def)
  moreover obtain b where "filling cfg s b" using st by (auto simp: started_inv_def)
  then have "filling cfg ?s b" using r pc by (simp add: filling_def)
  ultimately have "started_inv cfg ?s" using st r e by (auto simp: started_inv_def sequence_ok_def)
  moreover have "common_inv cfg ?s" using com r e by (simp add: common_inv_def)
  ultimately show ?thesis by (simp add: rx_inv_def)
qed

section \<open>Publishing a batch\<close>

lemma batch_of_distinct:
  assumes "\<forall>i \<in> set xs. wf_info cfg i" "sorted_wrt (<) (map pid xs)" "0 < bs cfg"
  shows "distinct (map idx (batch_of B xs))"
  using assms
proof (induction xs)
  case (Cons i xs)
  have "idx i \<noteq> idx j" if "j \<in> set xs" "info_batchid j = info_batchid i" for j
    using same_batch_idx [of cfg i j] Cons.prems that by auto
  then have "idx i \<notin> idx ` set (filter (\<lambda>j. info_batchid j = info_batchid i) xs)" by auto
  then show ?case using Cons by (auto simp: batch_of_def)
qed (simp add: batch_of_def)

lemma recv_packet_id_start:
  assumes "wf_info cfg i" "0 < bs cfg"
  shows "recv_packet_id i = batch_start cfg (info_batchid i) + of_nat (idx i)"
proof -
  have s: "pid i = bid i * bs cfg + idx i" "pid i < 2 ^ 47"
    using wf_info_split [OF assms] pid_bounds [OF assms(1)] by simp_all
  then have b: "unat (batch_start cfg (info_batchid i)) = bid i * bs cfg"
    by (intro unat_batch_start) simp
  moreover have u: "unat (of_nat (idx i) :: u64) = idx i" by (simp add: unat_ucast_up)
  ultimately have "unat (batch_start cfg (info_batchid i) + of_nat (idx i)) = bid i * bs cfg + idx i"
    using s by (subst unat_add_exact) simp_all
  then show ?thesis using s(1) unfolding word_eq_unat by linarith
qed

text \<open>The test of \<^verbatim>\<open>finalize_batch\<close> for a missing packet is exact, although ids are never reset.\<close>

lemma ids_exact:
  assumes com: "common_inv cfg s" and st: "started_inv cfg s" and bs: "0 < bs cfg"
    and ne: "stored s \<noteq> []" and fil: "filling cfg s b" and k: "k < bs cfg"
    and own: "pool_idx (rx s) < length (pool (rx s))"
  shows "pkt_ids b ! k = batch_start cfg (prebatchid (rx s)) + of_nat k
    \<longleftrightarrow> k \<in> idx ` set (batch_of (prebatchid (rx s)) (stored s))"
proof
  let ?P = "prebatchid (rx s)"
  have P: "unat ?P * bs cfg < 2 ^ 47" using st by (simp add: started_inv_def)
  have us: "unat (batch_start cfg ?P + of_nat k) = unat ?P * bs cfg + k"
  proof -
    have "k < 2 ^ 32" using k unsigned_less [of "batchsize cfg", where 'a = nat] by simp
    then have "unat (of_nat k :: u64) = k" by (simp add: unat_of_nat)
    then show ?thesis using P \<open>k < 2 ^ 32\<close> by (simp add: unat_add_exact unat_batch_start)
  qed
  have "pkt_ids b = pkt_ids (current (rx s))" using fil by (simp add: filling_def)
  moreover have "length (pkt_ids b) = bs cfg" using fil by (simp add: filling_def shape_def)
  ultimately have old: "pkt_ids b ! k = 0 \<or> pkt_ids b ! k \<in> recv_packet_id ` set (stored s)"
    using com own k nth_mem [OF own] unfolding common_inv_def by (metis nth_mem)
  assume eq: "pkt_ids b ! k = batch_start cfg ?P + of_nat k"
  have "\<exists>j \<in> set (stored s). pid j = unat ?P * bs cfg + k"
  proof (cases "pkt_ids b ! k = 0")
    case True
    then have z: "unat ?P * bs cfg + k = 0" using eq us by simp
    then have "unat ?P = 0" "k = 0" using bs by auto
    moreover have "bid (hd (stored s)) \<le> unat ?P" "idx (hd (stored s)) = 0" "wf_info cfg (hd (stored s))"
      using st ne com by (simp_all add: started_inv_def common_inv_def)
    ultimately have "pid (hd (stored s)) = 0" using wf_info_split [OF _ bs] by simp
    then show ?thesis using z ne by (intro bexI [of _ "hd (stored s)"]) simp_all
  next
    case False
    then obtain j where "j \<in> set (stored s)" "pkt_ids b ! k = recv_packet_id j" using old by auto
    then show ?thesis using eq us by (intro bexI [of _ j]) simp_all
  qed
  then obtain j where j: "j \<in> set (stored s)" "pid j = unat ?P * bs cfg + k" by blast
  then have "wf_info cfg j" using com by (simp add: common_inv_def)
  then have "bid j = unat ?P" "idx j = k" using wf_info_nat [OF _ bs] j(2) k by simp_all
  then show "k \<in> idx ` set (batch_of ?P (stored s))"
    using j(1) by (auto simp: batch_of_def word_eq_unat)
next
  let ?P = "prebatchid (rx s)"
  assume "k \<in> idx ` set (batch_of ?P (stored s))"
  then obtain j where j: "j \<in> set (batch_of ?P (stored s))" "k = idx j" by blast
  then have "wf_info cfg j" "info_batchid j = ?P" using com by (auto simp: batch_of_def common_inv_def)
  moreover have "pkt_ids b ! idx j = recv_packet_id j" using fil j by (auto simp: filling_def filled_def)
  ultimately show "pkt_ids b ! k = batch_start cfg ?P + of_nat k"
    using recv_packet_id_start [OF _ bs] j(2) by simp
qed

lemma final_current:
  assumes com: "common_inv cfg s" and st: "started_inv cfg s" and ne: "stored s \<noteq> []"
    and fil: "filling cfg s b" and own: "pool_idx (rx s) < length (pool (rx s))"
    and cfg: "0 < bs cfg" "thread_id cfg < 2 ^ 10"
  shows "final_ok cfg (prebatchid (rx s)) (batch_of (prebatchid (rx s)) (stored s)) (finalize_batch cfg b)"
proof -
  obtain t where t: "\<forall>h. t = Some h \<longrightarrow> wf_VDIF h"
      "filled cfg t (prebatchid (rx s)) (batch_of (prebatchid (rx s)) (stored s)) b"
    using fil by (auto simp: filling_def)
  have wf: "\<forall>i \<in> set (batch_of (prebatchid (rx s)) (stored s)). wf_info cfg i"
    using com by (auto simp: common_inv_def batch_of_def)
  have d: "distinct (map idx (batch_of (prebatchid (rx s)) (stored s)))"
    using com by (intro batch_of_distinct [OF _ _ cfg(1)]) (simp_all add: common_inv_def)
  show ?thesis
    by (rule finalize_ok [OF t(2) _ cfg(1) wf t(1) cfg(2) d])
      (use fil ne ids_exact [OF com st cfg(1) ne fil _ own] in \<open>auto simp: filling_def\<close>)
qed

lemma map_batch_ids_snoc:
  assumes "n \<le> p"
  shows "[p - n..<p] @ [p] = [Suc p - Suc n..<Suc p]"
  using assms by simp

lemma ball_set_update:
  assumes "Q v" "\<forall>x \<in> set xs. Q x"
  shows "\<forall>x \<in> set (xs[i := v]). Q x"
  using assms by (metis insert_iff set_update_subset_insert subsetD)

lemma header_valid_prepare [simp]:
  "header_valid (prepare_batch cfg r B b) = have_header_template r"
  by (simp add: prepare_batch_def Let_def)

text \<open>The batch the loop moves to.\<close>

lemma next_batch_pool:
  assumes r0: "pool r0 = ps" "prebatchid r0 = P" and Q: "\<forall>b \<in> set ps. shape cfg b \<and> set (pkt_ids b) \<subseteq> ids"
    and t: "template r0 = Some v" "wf_VDIF v" and cfg: "0 < bs cfg" and own: "pool_idx r0 < length ps"
  shows "\<forall>b \<in> set (pool (next_batch cfg r0)). shape cfg b \<and> set (pkt_ids b) \<subseteq> ids"
    "filled cfg (Some v) (P + 1) [] (current (next_batch cfg r0))"
    "header_valid (current (next_batch cfg r0))" "shape cfg (current (next_batch cfg r0))"
proof -
  let ?k = "pool_idx (next_batch cfg r0)"
  define r1 where "r1 = r0\<lparr>prebatchid := P + 1, pool_idx := ?k\<rparr>"
  define nb where "nb = prepare_batch cfg r1 (P + 1) (ps ! ?k)"
  have k: "?k < length ps" using own r0 by auto
  then have old: "shape cfg (ps ! ?k)" "set (pkt_ids (ps ! ?k)) \<subseteq> ids" using Q by auto
  have hv: "have_header_template r1" "last_header_template r1 = v" "template r1 = Some v"
    using t by (auto simp: r1_def template_def split: if_splits)
  have nb: "shape cfg nb" "set (pkt_ids nb) \<subseteq> ids" "header_valid nb" "filled cfg (Some v) (P + 1) [] nb"
    unfolding nb_def using old hv t(2) shape_prepare [OF old(1), of r1] filled_prepare [OF old(1) cfg, of r1]
    by simp_all
  have pool: "pool (next_batch cfg r0) = ps[?k := nb]"
    using r0 by (simp add: next_batch_def Let_def nb_def r1_def)
  show "\<forall>b \<in> set (pool (next_batch cfg r0)). shape cfg b \<and> set (pkt_ids b) \<subseteq> ids"
    unfolding pool by (rule ball_set_update) (use nb Q in auto)
  have "current (next_batch cfg r0) = nb" using pool k by simp
  then show "filled cfg (Some v) (P + 1) [] (current (next_batch cfg r0))"
    "header_valid (current (next_batch cfg r0))" "shape cfg (current (next_batch cfg r0))"
    using nb by simp_all
qed

lemma rx_inv_next:
  assumes inv: "rx_inv cfg s" and own: "pool_idx (rx s) < length (pool (rx s))"
    and cfg: "0 < bs cfg" "thread_id cfg < 2 ^ 10"
    and inc: "incoming cfg s i" "unat (prebatchid (rx s)) < bid i" and fil: "filling cfg s b"
    and r0: "pool r0 = (pool (rx s))[pool_idx (rx s) := finalize_batch cfg b]"
      "pool_idx r0 = pool_idx (rx s)" "prebatchid r0 = prebatchid (rx s)"
      "expected_pkt_id r0 = expected_pkt_id (rx s)"
      "have_header_template r0 = have_header_template (rx s)"
      "last_header_template r0 = last_header_template (rx s)"
  shows "rx_inv cfg (s\<lparr>rx := next_batch cfg r0, rpc := R_advance i,
    published := published s @ [finalize_batch cfg b]\<rparr>)"
proof -
  let ?r = "next_batch cfg r0" and ?P = "prebatchid (rx s)" and ?fb = "finalize_batch cfg b"
  let ?s = "s\<lparr>rx := ?r, rpc := R_advance i, published := published s @ [?fb]\<rparr>"
  have wfi: "wf_info cfg i" and e: "expected_pkt_id (rx s) = recv_packet_id i + 1"
      "expected_pkt_id (rx s) \<noteq> 0" and ne: "stored s \<noteq> []"
    using inc unat_recv_Suc [of cfg i] by (auto simp: incoming_def)
  have com: "common_inv cfg s" and st: "started_inv cfg s" using inv e(2) by (simp_all add: rx_inv_def)
  have bid: "bid i * bs cfg < 2 ^ 47" using wf_info_split [OF wfi cfg(1)] pid_bounds [OF wfi] by simp
  have "bid i \<le> bid i * bs cfg" using cfg(1) by simp
  then have "unat ?P + 1 < 2 ^ 47" using inc(2) bid by linarith
  then have P1: "unat (?P + 1) = unat ?P + 1" by (subst unat_add_exact) simp_all
  have tm: "template r0 = template (rx s)" using r0 by (simp add: template_def)
  have r: "prebatchid ?r = ?P + 1" "expected_pkt_id ?r = expected_pkt_id (rx s)"
      "have_header_template ?r = have_header_template (rx s)" "template ?r = template (rx s)"
    using r0 tm by (simp_all add: next_batch_def Let_def template_def)
  let ?ids = "insert 0 (recv_packet_id ` set (stored s))"
  let ?ps = "(pool (rx s))[pool_idx (rx s) := ?fb]"
  have fb: "pkt_ids ?fb = pkt_ids (current (rx s))" "shape cfg ?fb"
    using fil shape_finalize by (simp_all add: filling_def)
  have Qp: "\<forall>b \<in> set (pool (rx s)). shape cfg b \<and> set (pkt_ids b) \<subseteq> ?ids"
    using com by (auto simp: common_inv_def)
  then have Q: "\<forall>b \<in> set ?ps. shape cfg b \<and> set (pkt_ids b) \<subseteq> ?ids"
    using fb own by (intro ball_set_update) auto
  obtain v where v: "template (rx s) = Some v" "wf_VDIF v"
    using com st ne by (auto simp: common_inv_def started_inv_def template_def)
  note nxt = next_batch_pool [OF r0(1,3) Q _ v(2) cfg(1), unfolded tm r0(2), OF v(1)]
  have none: "batch_of (?P + 1) (stored s) = []"
    using st P1 by (auto simp: batch_of_def started_inv_def filter_empty_conv word_eq_unat)
  have "filling cfg ?s (current ?r)"
    using nxt none r v(2) own by (auto simp: filling_def)
  moreover have "incoming cfg ?s i" using inc r P1 ne by (auto simp: incoming_def)
  moreover have "(unat ?P + 1) * bs cfg \<le> bid i * bs cfg"
    by (rule mult_le_mono1) (use inc(2) in simp)
  then have "(unat ?P + 1) * bs cfg < 2 ^ 47" using bid by linarith
  ultimately have started: "started_inv cfg ?s"
    using st r P1 ne by (auto simp: started_inv_def sequence_ok_def)
  have fin: "final_ok cfg ?P (batch_of ?P (stored s)) ?fb"
    using final_current [OF com st ne fil own cfg] .
  then have id: "batch_id ?fb = ?P" by (simp add: final_ok_def)
  have "\<forall>b \<in> set (published s). unat (batch_id b) < unat ?P
      \<and> final_ok cfg (batch_id b) (batch_of (batch_id b) (stored s)) b"
    using com unfolding common_inv_def by blast
  then have pub: "\<forall>b \<in> set (published s @ [?fb]). unat (batch_id b) < unat ?P + 1
      \<and> final_ok cfg (batch_id b) (batch_of (batch_id b) (stored s)) b"
    using fin id by auto
  have "map (\<lambda>b. unat (batch_id b)) (published s @ [?fb])
      = [unat ?P + 1 - length (published s @ [?fb])..<unat ?P + 1]"
    using com id map_batch_ids_snoc [of "length (published s)" "unat ?P"] st ne
    by (simp add: common_inv_def started_inv_def)
  moreover have "\<forall>b \<in> set (pool ?r). shape cfg b \<and> (\<forall>p \<in> set (pkt_ids b). p = 0 \<or> p \<in> recv_packet_id ` set (stored s))"
    using nxt(1) [OF own [unfolded length_list_update [symmetric, of "pool (rx s)" "pool_idx (rx s)" ?fb]]]
    by blast
  ultimately have "common_inv cfg ?s"
    using com r P1 e(2) pub by (simp add: common_inv_def)
  then show ?thesis using started by (simp add: rx_inv_def)
qed

lemma rx_inv_full:
  assumes inv: "rx_inv cfg s" and own: "pool_idx (rx s) < length (pool (rx s))"
    and pc: "rpc s = R_advance i" and lt: "prebatchid (rx s) < info_batchid i"
    and r: "pool r = (pool (rx s))[pool_idx (rx s) := finalize_batch cfg (current (rx s))]"
      "pool_idx r = pool_idx (rx s)" "prebatchid r = prebatchid (rx s)"
      "expected_pkt_id r = expected_pkt_id (rx s)"
      "have_header_template r = have_header_template (rx s)" "template r = template (rx s)"
  shows "rx_inv cfg (s\<lparr>rx := r, rpc := R_blocked i\<rparr>)"
proof -
  let ?s = "s\<lparr>rx := r, rpc := R_blocked i\<rparr>"
  have com: "common_inv cfg s" using inv by (simp add: rx_inv_def)
  then have "expected_pkt_id (rx s) \<noteq> 0" using pc by (auto simp: common_inv_def)
  then have st: "started_inv cfg s" using inv by (simp add: rx_inv_def)
  then obtain b where b: "filling cfg s b" by (auto simp: started_inv_def)
  then have cur: "current (rx s) = b" using pc by (simp add: filling_def)
  have "shape cfg b" using b by (simp add: filling_def)
  then have "filling cfg ?s b" using b r own cur by (simp add: filling_def)
  moreover have "incoming cfg ?s i"
    using st pc r by (simp add: started_inv_def sequence_ok_def incoming_def)
  ultimately have "started_inv cfg ?s"
    using st r lt by (auto simp: started_inv_def sequence_ok_def word_less_nat_alt)
  moreover have "\<forall>x \<in> set (pool r). shape cfg x
      \<and> (\<forall>p \<in> set (pkt_ids x). p = 0 \<or> p \<in> recv_packet_id ` set (stored s))"
    unfolding r(1)
    by (rule ball_set_update) (use com own nth_mem [OF own] shape_finalize in \<open>auto simp: common_inv_def\<close>)
  then have "common_inv cfg ?s"
    using com r \<open>expected_pkt_id (rx s) \<noteq> 0\<close> by (simp add: common_inv_def)
  ultimately show ?thesis by (simp add: rx_inv_def)
qed

section \<open>Storing a packet\<close>

lemma batch_of_snoc: "batch_of B (xs @ [i]) = batch_of B xs @ (if info_batchid i = B then [i] else [])"
  by (simp add: batch_of_def)

lemma incoming_current:
  assumes inv: "rx_inv cfg s" and pc: "rpc s = R_advance i" and le: "\<not> prebatchid (rx s) < info_batchid i"
  shows "common_inv cfg s" "started_inv cfg s" "incoming cfg s i" "prebatchid (rx s) = info_batchid i"
    "expected_pkt_id (rx s) \<noteq> 0"
proof -
  show com: "common_inv cfg s" using inv by (simp add: rx_inv_def)
  then show e: "expected_pkt_id (rx s) \<noteq> 0" using pc by (auto simp: common_inv_def)
  then show st: "started_inv cfg s" using inv by (simp add: rx_inv_def)
  show inc: "incoming cfg s i" using st pc by (simp add: started_inv_def sequence_ok_def)
  then show "prebatchid (rx s) = info_batchid i"
    using le by (simp add: incoming_def word_eq_unat word_less_nat_alt)
qed

lemma store_current:
  assumes inv: "rx_inv cfg s" and own: "pool_idx (rx s) < length (pool (rx s))"
    and cfg: "0 < bs cfg" "thread_id cfg < 2 ^ 10"
    and pc: "rpc s = R_advance i" and le: "\<not> prebatchid (rx s) < info_batchid i"
    and store: "rx_store cfg i (rx s) = Inr r"
  shows "filling cfg (s\<lparr>rx := r, rpc := R_idle, stored := stored s @ [i]\<rparr>) (current r)"
    "\<forall>v. template r = Some v \<longrightarrow> wf_VDIF v" "have_header_template r"
    "pool r = (pool (rx s))[pool_idx (rx s) := current r]" "shape cfg (current r)"
    "set (pkt_ids (current r)) \<subseteq> insert (recv_packet_id i) (set (pkt_ids (current (rx s))))"
proof -
  let ?B = "info_batchid i" and ?xs = "batch_of (info_batchid i) (stored s)"
  note c = incoming_current [OF inv pc le]
  have inc: "wf_info cfg i" "\<forall>j \<in> set (stored s). pid j < pid i" using c(3) by (simp_all add: incoming_def)
  obtain b where "filling cfg s b" using c(2) by (auto simp: started_inv_def)
  then obtain t where t: "\<forall>h. t = Some h \<longrightarrow> wf_VDIF h" "filled cfg t ?B ?xs (current (rx s))"
      "shape cfg (current (rx s))"
    using pc c(4) by (auto simp: filling_def)
  have xs: "\<forall>j \<in> set ?xs. wf_info cfg j" "\<forall>j \<in> set ?xs. pid j < pid i \<and> info_batchid j = ?B"
    using c(1) inc(2) by (auto simp: batch_of_def common_inv_def)
  have "distinct (map idx ?xs)"
    using c(1) by (intro batch_of_distinct [OF _ _ cfg(1)]) (simp_all add: common_inv_def)
  then have "length ?xs \<le> bs cfg" using xs(1) wf_info_split(2) [OF _ cfg(1)] by (intro batch_length) auto
  moreover have "bs cfg < 2 ^ 32" using unsigned_less [of "batchsize cfg", where 'a = nat] by simp
  ultimately have few: "length ?xs < 2 ^ 32" by linarith
  have fil: "filled cfg t ?B (?xs @ [i]) (current r)"
    using filled_store [OF t(2,3) inc(1) xs(1) cfg(1) xs(2) few own store] .
  note sel = rx_store_sel [OF store]
  note shp = shape_store [OF t(3) inc(1) cfg(2) own store]
  have "header_valid (current r)" using fil by (simp add: filled_def)
  then show "filling cfg (s\<lparr>rx := r, rpc := R_idle, stored := stored s @ [i]\<rparr>) (current r)"
    using fil t(1) shp(1) sel c(4) by (auto simp: filling_def batch_of_snoc)
  have wt: "\<forall>v. template (rx s) = Some v \<longrightarrow> wf_VDIF v" using c(1) by (simp add: common_inv_def)
  then show "\<forall>v. template r = Some v \<longrightarrow> wf_VDIF v" using shp(2) by blast
  show "shape cfg (current r)" by (rule shp(1))
  from store own obtain h where f: "pool r = (pool (rx s))[pool_idx (rx s) := current r]"
      "pkt_ids (current r) = (pkt_ids (current (rx s)))[idx i := recv_packet_id i]"
      "template r = (if received_count (current (rx s)) = 0
         then Some (setPacketId (batch_start cfg (info_batchid i)) h) else template (rx s))"
    by (rule rx_store_fields)
  show "pool r = (pool (rx s))[pool_idx (rx s) := current r]" by (rule f(1))
  show "set (pkt_ids (current r)) \<subseteq> insert (recv_packet_id i) (set (pkt_ids (current (rx s))))"
    unfolding f(2) by (rule set_update_subset_insert)
  show "have_header_template r"
  proof (cases "stored s = []")
    case True
    then have "received_count (current (rx s)) = 0" using t(2) by (simp add: filled_def batch_of_def)
    then show ?thesis using f(3) by (simp add: template_def split: if_splits)
  next
    case False
    then have "have_header_template (rx s)" using c(2) by (simp add: started_inv_def)
    then show ?thesis using f(3) by (simp add: template_def split: if_splits)
  qed
qed

lemma rx_inv_store:
  assumes inv: "rx_inv cfg s" and own: "pool_idx (rx s) < length (pool (rx s))"
    and cfg: "0 < bs cfg" "thread_id cfg < 2 ^ 10"
    and pc: "rpc s = R_advance i" and le: "\<not> prebatchid (rx s) < info_batchid i"
    and store: "rx_store cfg i (rx s) = Inr r"
  shows "rx_inv cfg (s\<lparr>rx := r, rpc := R_idle, stored := stored s @ [i]\<rparr>)"
proof -
  let ?s = "s\<lparr>rx := r, rpc := R_idle, stored := stored s @ [i]\<rparr>"
  note c = incoming_current [OF inv pc le] and n = store_current [OF inv own cfg pc le store]
    and sel = rx_store_sel [OF store]
  have inc: "wf_info cfg i" "\<forall>j \<in> set (stored s). pid j < pid i"
      "expected_pkt_id (rx s) = recv_packet_id i + 1" "stored s = [] \<longrightarrow> idx i = 0"
    using c(3) by (simp_all add: incoming_def)
  have "sequence_ok cfg ?s" using sel inc c(4) by (simp add: sequence_ok_def)
  moreover have "\<forall>j \<in> set (stored s @ [i]). bid j \<le> bid i"
    using c(2,4) by (auto simp: started_inv_def)
  ultimately have "started_inv cfg ?s"
    using c(2,4) n(1,3) sel inc(4) by (auto simp: started_inv_def hd_append)
  moreover have "\<forall>b \<in> set (pool r). shape cfg b
      \<and> (\<forall>p \<in> set (pkt_ids b). p = 0 \<or> p \<in> recv_packet_id ` set (stored s @ [i]))"
    by (subst n(4), rule ball_set_update) (use c(1) n(5,6) nth_mem [OF own] in \<open>auto simp: common_inv_def\<close>)
  moreover have "batch_of (batch_id b) (stored s @ [i]) = batch_of (batch_id b) (stored s)"
    if "b \<in> set (published s)" for b
    using c(1,4) that by (auto simp: batch_of_snoc common_inv_def)
  ultimately have "common_inv cfg ?s"
    using c(1,5) n(2) sel inc(1,2) by (simp add: common_inv_def sorted_wrt_append)
  then show ?thesis using \<open>started_inv cfg ?s\<close> by (simp add: rx_inv_def)
qed

section \<open>All runs\<close>

lemma filling_exists:
  assumes "rx_inv cfg s" "rpc s = R_advance i \<or> rpc s = R_blocked i"
  obtains b where "filling cfg s b" "incoming cfg s i"
    "current (rx s) = (if blocked (rpc s) then finalize_batch cfg b else b)"
proof -
  have "expected_pkt_id (rx s) \<noteq> 0" using assms by (auto simp: rx_inv_def common_inv_def)
  then have st: "started_inv cfg s" using assms(1) by (simp add: rx_inv_def)
  then obtain b where "filling cfg s b" by (auto simp: started_inv_def)
  moreover have "incoming cfg s i" using st assms(2) by (auto simp: started_inv_def sequence_ok_def)
  ultimately show ?thesis using that by (auto simp: filling_def)
qed

lemma rx_inv_rewrite:
  assumes inv: "rx_inv cfg s" and h: "i \<noteq> pool_idx (rx s)" "i < length (pool (rx s))"
    and len: "length bufs = length (buffer (pool (rx s) ! i))"
  shows "rx_inv cfg (s\<lparr>rx := (rx s)\<lparr>pool := (pool (rx s))[i := (pool (rx s) ! i)\<lparr>buffer := bufs\<rparr>]\<rparr>\<rparr>)"
proof -
  let ?ps = "(pool (rx s))[i := (pool (rx s) ! i)\<lparr>buffer := bufs\<rparr>]"
  have "pool (rx s) ! i \<in> set (pool (rx s))" using h(2) by simp
  then have "\<forall>b \<in> set ?ps. shape cfg b
      \<and> (\<forall>p \<in> set (pkt_ids b). p = 0 \<or> p \<in> recv_packet_id ` set (stored s))"
    using inv len by (intro ball_set_update) (auto simp: rx_inv_def common_inv_def shape_def)
  moreover have "?ps ! pool_idx (rx s) = current (rx s)" using h(1) by simp
  ultimately show ?thesis
    using rx_inv_cong_pool [OF inv, of "(rx s)\<lparr>pool := ?ps\<rparr>" "rpc s" "held s"] by (simp add: template_def)
qed

lemma rx_inv_step:
  assumes step: "rx_step cfg s s'" and inv: "rx_inv cfg s" and own: "own_inv s"
    and cfg: "0 < bs cfg" "thread_id cfg < 2 ^ 10"
  shows "rx_inv cfg s'"
  using step
proof cases
  case (rx_discard mon now pkt r)
  note f = rx_classify_discard [of cfg mon now pkt "rx s" r]
  show ?thesis unfolding rx_discard(1)
    by (rule rx_inv_cong(2) [OF inv]) (use rx_discard f in simp_all)
next
  case (rx_stop mon now pkt r)
  note f = rx_classify_discard [of cfg mon now pkt "rx s" r]
  show ?thesis unfolding rx_stop(1)
    by (rule rx_inv_cong(3) [OF inv]) (use rx_stop f in simp_all)
next
  case (rx_accept mon now pkt r info)
  then show ?thesis
    using rx_inv_accept_first [OF inv own_inv_index(1) [OF own] cfg(1)]
      rx_inv_accept_next [OF inv cfg(1)] by metis
next
  case (rx_report now)
  then show ?thesis using rx_inv_cong(2) [OF inv, of "report_pending_loss cfg now (rx s)"] by simp
next
  case (rx_publish info r)
  obtain q where r: "r = next_batch cfg ((finish_current cfg (rx s))\<lparr>queue := q\<rparr>)"
    using rx_publish by (auto simp: rx_try_publish_def Let_def split: prod.splits bool.splits)
  obtain b where b: "filling cfg s b" "incoming cfg s info" "current (rx s) = b"
    using filling_exists [OF inv, of info] rx_publish by (auto simp: blocked_def)
  have "rx_inv cfg (s\<lparr>rx := r, rpc := R_advance info, published := published s @ [finalize_batch cfg b]\<rparr>)"
    unfolding r by (rule rx_inv_next [OF inv own_inv_index(1) [OF own] cfg b(2) _ b(1)])
      (use rx_publish b in \<open>simp_all add: finish_current_def word_less_nat_alt\<close>)
  moreover have "s\<lparr>rx := r, rpc := R_advance info, published := published s @ [finalize_batch cfg b]\<rparr> = s'"
    using rx_publish(1,2) b(3) own_inv_index(1) [OF own] by (cases s) (simp add: finish_current_def)
  ultimately show ?thesis by simp
next
  case (rx_full info r)
  obtain q where "r = (finish_current cfg (rx s))\<lparr>queue := q, queue_full_events := queue_full_events (finish_current cfg (rx s)) + 1\<rparr>"
    using rx_full by (auto simp: rx_try_publish_def Let_def split: prod.splits bool.splits)
  then show ?thesis unfolding rx_full(1)
    by (intro rx_inv_full [OF inv own_inv_index(1) [OF own] rx_full(2,3)])
      (simp_all add: finish_current_def template_def)
next
  case (rx_wait info r)
  obtain q where r: "r = next_batch cfg ((rx s)\<lparr>queue := q\<rparr>)"
    using rx_wait by (auto simp: rx_wait_publish_def split: prod.splits bool.splits)
  obtain b where b: "filling cfg s b" "incoming cfg s info" "current (rx s) = finalize_batch cfg b"
    using filling_exists [OF inv, of info] rx_wait by (auto simp: blocked_def)
  have "expected_pkt_id (rx s) \<noteq> 0" using inv rx_wait by (auto simp: rx_inv_def common_inv_def)
  then have "unat (prebatchid (rx s)) < bid info"
    using inv rx_wait by (auto simp: rx_inv_def started_inv_def sequence_ok_def)
  then have "rx_inv cfg (s\<lparr>rx := r, rpc := R_advance info, published := published s @ [finalize_batch cfg b]\<rparr>)"
    unfolding r by (intro rx_inv_next [OF inv own_inv_index(1) [OF own] cfg b(2) _ b(1)])
      (use b(3) in \<open>simp_all add: list_update_id flip: b(3)\<close>)
  then show ?thesis using rx_wait b by simp
next
  case (rx_done info r)
  then show ?thesis using rx_inv_store [OF inv own_inv_index(1) [OF own] cfg] by blast
next
  case (rx_throw info e)
  then show ?thesis using rx_inv_cong(3) [OF inv, of "rx s"] by simp
next
  case (co_dequeue i q)
  then show ?thesis using rx_inv_cong(1) [OF inv, of "(rx s)\<lparr>queue := q\<rparr>" "Some i"] by simp
next
  case (co_rewrite i bufs)
  then show ?thesis using rx_inv_rewrite [OF inv] own_inv_index [OF own] map_eq_imp_length_eq by fastforce
qed

lemma rx_inv_reach:
  assumes "rx_reach cfg capacity s" "0 < unat capacity" "unat capacity < 2 ^ 63"
    and "0 < bs cfg" "thread_id cfg < 2 ^ 10"
  shows "rx_inv cfg s"
  using assms(1)
proof induction
  case rx_start
  then show ?case using rx_inv_init [OF assms(4)] .
next
  case (rx_next s s')
  then show ?case using rx_inv_step own_inv_reach assms(2-) by blast
qed

section \<open>Properties of the published batches\<close>

lemma stored_in_batch:
  assumes "rx_inv cfg s" "0 < bs cfg" "k < bs cfg"
  shows "(\<exists>i \<in> set (stored s). pid i = unat B * bs cfg + k) \<longleftrightarrow> k \<in> idx ` set (batch_of B (stored s))"
proof -
  have wf: "\<forall>i \<in> set (stored s). wf_info cfg i" using assms(1) by (simp add: rx_inv_def common_inv_def)
  have "pid i = unat B * bs cfg + k \<longleftrightarrow> info_batchid i = B \<and> idx i = k" if "i \<in> set (stored s)" for i
    using wf_info_nat [OF wf [rule_format, OF that] assms(2)] assms(3)
    by (auto simp: word_eq_unat) (metis div_mult_mod_eq)+
  then show ?thesis by (auto simp: batch_of_def)
qed

lemma published_final:
  assumes "rx_inv cfg s" "b \<in> set (published s)"
  shows "final_ok cfg (batch_id b) (batch_of (batch_id b) (stored s)) b"
    "unat (batch_id b) * bs cfg < 2 ^ 47"
proof -
  show "final_ok cfg (batch_id b) (batch_of (batch_id b) (stored s)) b"
    using assms by (auto simp: rx_inv_def common_inv_def)
  have "expected_pkt_id (rx s) \<noteq> 0" using assms by (auto simp: rx_inv_def common_inv_def)
  then have "unat (prebatchid (rx s)) * bs cfg < 2 ^ 47" "unat (batch_id b) < unat (prebatchid (rx s))"
    using assms by (auto simp: rx_inv_def common_inv_def started_inv_def)
  moreover from this have "unat (batch_id b) * bs cfg \<le> unat (prebatchid (rx s)) * bs cfg"
    by (intro mult_le_mono1) simp
  ultimately show "unat (batch_id b) * bs cfg < 2 ^ 47" by linarith
qed

lemma full_iff:
  assumes inv: "rx_inv cfg s" and bs: "0 < bs cfg"
  shows "length (batch_of B (stored s)) = bs cfg
    \<longleftrightarrow> (\<forall>k < bs cfg. \<exists>i \<in> set (stored s). pid i = unat B * bs cfg + k)"
proof -
  let ?xs = "batch_of B (stored s)"
  have wf: "\<forall>i \<in> set (stored s). wf_info cfg i" "sorted_wrt (<) (map pid (stored s))"
    using inv by (simp_all add: rx_inv_def common_inv_def)
  then have d: "distinct (map idx ?xs)" and ix: "\<forall>i \<in> set ?xs. idx i < bs cfg"
    using batch_of_distinct [OF wf bs] wf_info_split(2) [OF _ bs] by (auto simp: batch_of_def)
  have "length ?xs = card (idx ` set ?xs)" using distinct_card [OF d] by simp
  moreover have "idx ` set ?xs \<subseteq> {..<bs cfg}" using ix by auto
  ultimately have "length ?xs = bs cfg \<longleftrightarrow> idx ` set ?xs = {..<bs cfg}"
    by (metis card_lessThan card_subset_eq finite_lessThan)
  also have "\<dots> \<longleftrightarrow> (\<forall>k < bs cfg. k \<in> idx ` set ?xs)" using \<open>idx ` set ?xs \<subseteq> {..<bs cfg}\<close> by auto
  also have "\<dots> \<longleftrightarrow> (\<forall>k < bs cfg. \<exists>i \<in> set (stored s). pid i = unat B * bs cfg + k)"
    using stored_in_batch [OF inv bs] by simp
  finally show ?thesis .
qed

lemma unat_slot:
  assumes "unat B * bs cfg < 2 ^ 47" "k < bs cfg"
  shows "batch_start cfg B + of_nat k = of_nat (unat B * bs cfg + k)"
  using assms unat_batch_start [of B cfg] by (simp add: word_eq_unat batch_start_def)

lemma missing_slot_header:
  assumes "missing_slot (batch_start cfg B) b k" "unat B * bs cfg < 2 ^ 47" "k < bs cfg"
    and "unat B * bs cfg + k < 62500 * 2 ^ 30"
  shows "hdr_id (hdrs b ! k) = of_nat (unat B * bs cfg + k)" "getInvalid (hdrs b ! k)"
    "buffer b ! k = replicate VDIF_PAYLOAD_LEN 0x80"
proof -
  obtain h where h: "wf_VDIF h"
      "hdrs b ! k = setInvalid True (setPacketId (of_nat (unat B * bs cfg + k)) h)"
    using assms(1) unat_slot [OF assms(2,3)] by (auto simp: missing_slot_def)
  have "unat (of_nat (unat B * bs cfg + k) :: u64) div 62500 < 2 ^ 30"
    using assms(4) by (simp add: unat_of_nat less_mult_imp_div_less del: of_nat_add of_nat_mult)
  note p = hdr_id_setPacketId [OF h(1) this]
  show "hdr_id (hdrs b ! k) = of_nat (unat B * bs cfg + k)" "getInvalid (hdrs b ! k)"
    unfolding h(2) using p hdr_id_setInvalid [OF p(2), of True] by simp_all
  show "buffer b ! k = replicate VDIF_PAYLOAD_LEN 0x80" using assms(1) by (simp add: missing_slot_def)
qed

lemma batch_hd:
  assumes "rx_inv cfg s" "0 < bs cfg" "i \<in> set (batch_of B (stored s))" "idx i = 0"
  shows "hd (batch_of B (stored s)) = i"
proof -
  have wf: "\<forall>i \<in> set (stored s). wf_info cfg i" "sorted_wrt (<) (map pid (stored s))"
    using assms(1) by (simp_all add: rx_inv_def common_inv_def)
  obtain x ys where xs: "batch_of B (stored s) = x # ys"
    using assms(3) by (cases "batch_of B (stored s)") auto
  have "sorted_wrt (<) (map pid (x # ys))"
    using wf(2) unfolding xs [symmetric] batch_of_def by (simp add: sorted_wrt_map sorted_wrt_filter)
  moreover have "wf_info cfg x" "wf_info cfg i" "bid x = bid i"
  proof -
    have "x \<in> set (batch_of B (stored s))" using xs by simp
    then show "wf_info cfg x" "wf_info cfg i" "bid x = bid i"
      using wf(1) assms(3) by (auto simp: batch_of_def)
  qed
  ultimately have "i \<notin> set ys" using same_batch_idx [of cfg x i] assms(2,4) by auto
  then show ?thesis using assms(3) xs by simp
qed

lemma received_header:
  assumes inv: "rx_inv cfg s" and cfg: "0 < bs cfg" "thread_id cfg < 2 ^ 10" "baseband_mode cfg"
    and b: "b \<in> set (published s)" and i: "i \<in> set (batch_of (batch_id b) (stored s))"
    and small: "pid i < 62500 * 2 ^ 30"
  shows "hdr_id (hdrs b ! idx i) = recv_packet_id i"
    "getInvalid (hdrs b ! idx i) = getInvalid \<lparr>header_bytes = take HEADER_SIZE (frame i)\<rparr>"
proof -
  note fin = published_final(1) [OF inv b]
  have wfi: "wf_info cfg i" and B: "info_batchid i = batch_id b"
    using inv i by (auto simp: rx_inv_def common_inv_def batch_of_def)
  have len: "HEADER_SIZE \<le> length (frame i)" using wfi by (simp add: wf_info_def)
  have id: "recv_packet_id i = packet_id (readMetadata (frame i) (rx_cal_mode cfg))"
    using wfi by (metis packet_of_frame_def packet_info.select_convs(1) wf_info_def)
  have "\<exists>h. frame_header cfg (frame i) = Inr h
      \<and> (hdrs b ! idx i = h \<or> hdrs b ! idx i = setPacketId (recv_packet_id i) h)"
  proof (cases "idx i = 0")
    case True
    then have "0 \<in> idx ` set (batch_of (batch_id b) (stored s))" using i by force
    moreover have "recv_packet_id i = batch_start cfg (batch_id b)"
      using recv_packet_id_start [OF wfi cfg(1)] True B by simp
    ultimately show ?thesis using fin batch_hd [OF inv cfg(1) i True] i cfg(3) True
      by (auto simp: final_ok_def)
  next
    case False
    then show ?thesis using fin i cfg(3) by (auto simp: final_ok_def)
  qed
  then obtain h where h: "frame_header cfg (frame i) = Inr h"
      "hdrs b ! idx i = h \<or> hdrs b ! idx i = setPacketId (recv_packet_id i) h" by blast
  have ho: "wf_VDIF h" "hdr_id h = recv_packet_id i"
      "getInvalid h = getInvalid \<lparr>header_bytes = take HEADER_SIZE (frame i)\<rparr>"
    using frame_header_ok [OF h(1) len cfg(2)] id by simp_all
  have "pid i div 62500 < 2 ^ 30" using small by (simp add: less_mult_imp_div_less)
  note p = hdr_id_setPacketId [OF ho(1) this]
  show "hdr_id (hdrs b ! idx i) = recv_packet_id i"
    "getInvalid (hdrs b ! idx i) = getInvalid \<lparr>header_bytes = take HEADER_SIZE (frame i)\<rparr>"
    using h(2) ho p by auto
qed

lemma published_ids:
  assumes "0 < unat capacity" "unat capacity < 2 ^ 63" "0 < bs cfg" "thread_id cfg < 2 ^ 10"
    and reach: "rx_reach cfg capacity s" and ne: "stored s \<noteq> []"
  shows "map (\<lambda>b. unat (batch_id b)) (published s)
      = [pid (hd (stored s)) div bs cfg..<pid (hd (stored s)) div bs cfg + length (published s)]
    \<and> pid (hd (stored s)) mod bs cfg = 0"
proof -
  have inv: "rx_inv cfg s" using rx_inv_reach [OF reach assms(1-4)] .
  then have "expected_pkt_id (rx s) \<noteq> 0" using ne by (auto simp: rx_inv_def common_inv_def)
  then have st: "started_inv cfg s" using inv by (simp add: rx_inv_def)
  have "wf_info cfg (hd (stored s))" using inv ne by (simp add: rx_inv_def common_inv_def)
  note w = wf_info_nat [OF this assms(3)]
  show ?thesis using inv st ne w by (auto simp: rx_inv_def common_inv_def started_inv_def)
qed

lemma published_valid_iff:
  assumes "0 < unat capacity" "unat capacity < 2 ^ 63" "0 < bs cfg" "thread_id cfg < 2 ^ 10"
    and reach: "rx_reach cfg capacity s" and b: "b \<in> set (published s)"
  shows "batch_valid b \<longleftrightarrow> (\<forall>k < bs cfg. \<exists>i \<in> set (stored s). pid i = unat (batch_id b) * bs cfg + k)"
proof -
  have inv: "rx_inv cfg s" using rx_inv_reach [OF reach assms(1-4)] .
  show ?thesis using published_final [OF inv b] full_iff [OF inv assms(3)] by (simp add: final_ok_def)
qed

text \<open>
  C9. A published batch is marked valid exactly when all its packets were received; the payload of every
  packet received for it is at the packet's place, and its first header carries the time of the batch
  start. Packet ids left in a reused batch never make a missing packet look present.
\<close>

theorem published_content:
  assumes "0 < unat capacity" "unat capacity < 2 ^ 63" "0 < bs cfg" "thread_id cfg < 2 ^ 10"
    and reach: "rx_reach cfg capacity s" and b: "b \<in> set (published s)"
  shows "(batch_valid b \<longleftrightarrow> (\<forall>k < bs cfg. \<exists>i \<in> set (stored s). pid i = unat (batch_id b) * bs cfg + k))
    \<and> (\<forall>i \<in> set (stored s). bid i = unat (batch_id b) \<longrightarrow> buffer b ! idx i = payload i)
    \<and> header_valid b
    \<and> (unat (batch_id b) * bs cfg < 62500 * 2 ^ 30 \<longrightarrow>
         hdr_id (hdrs b ! 0) = of_nat (unat (batch_id b) * bs cfg))"
proof -
  have inv: "rx_inv cfg s" using rx_inv_reach [OF reach assms(1-4)] .
  note fin = published_final [OF inv b]
  let ?B = "batch_id b"
  have s0: "batch_start cfg ?B = of_nat (unat ?B * bs cfg)"
    using unat_slot [OF fin(2) assms(3)] by simp
  have "hdr_id (hdrs b ! 0) = of_nat (unat ?B * bs cfg)" if "unat ?B * bs cfg < 62500 * 2 ^ 30"
  proof (cases "baseband_mode cfg \<and> 0 \<notin> idx ` set (batch_of ?B (stored s))")
    case True
    then have "missing_slot (batch_start cfg ?B) b 0" using fin(1) by (simp add: final_ok_def)
    then show ?thesis using missing_slot_header(1) [OF _ fin(2) assms(3)] that by simp
  next
    case False
    then obtain h where h: "wf_VDIF h" "hdrs b ! 0 = setPacketId (of_nat (unat ?B * bs cfg)) h"
      using fin(1) unfolding final_ok_def if_not_P [OF False] s0 by blast
    have "unat (of_nat (unat ?B * bs cfg) :: u64) div 62500 < 2 ^ 30"
      using that by (simp add: unat_of_nat less_mult_imp_div_less del: of_nat_mult)
    then show ?thesis unfolding h(2) by (rule hdr_id_setPacketId(1) [OF h(1)])
  qed
  moreover have "batch_valid b \<longleftrightarrow> (\<forall>k < bs cfg. \<exists>i \<in> set (stored s). pid i = unat ?B * bs cfg + k)"
    by (rule published_valid_iff [OF assms])
  moreover have "buffer b ! idx i = payload i" if "i \<in> set (stored s)" "bid i = unat ?B" for i
    using fin(1) that by (auto simp: final_ok_def batch_of_def word_eq_unat)
  moreover have "header_valid b" using fin(1) by (simp add: final_ok_def)
  ultimately show ?thesis by blast
qed

text \<open>
  C10. The batches come out with consecutive ids from the batch of the first packet, without a gap
  however many packets are lost.
\<close>

theorem published_consecutive:
  assumes "0 < unat capacity" "unat capacity < 2 ^ 63" "0 < bs cfg" "thread_id cfg < 2 ^ 10"
    and reach: "rx_reach cfg capacity s" and ne: "stored s \<noteq> []"
  shows "map (\<lambda>b. unat (batch_id b)) (published s)
      = [pid (hd (stored s)) div bs cfg..<pid (hd (stored s)) div bs cfg + length (published s)]
    \<and> pid (hd (stored s)) mod bs cfg = 0"
  using published_ids [OF assms] .

text \<open>A frame slot of a published baseband batch.\<close>

lemma baseband_slot:
  assumes "0 < unat capacity" "unat capacity < 2 ^ 63" "0 < bs cfg" "thread_id cfg < 2 ^ 10"
    and "rx_reach cfg capacity s" "baseband_mode cfg" "b \<in> set (published s)" "k < bs cfg"
    and small: "unat (batch_id b) * bs cfg + k < 62500 * 2 ^ 30"
  shows "hdr_id (hdrs b ! k) = of_nat (unat (batch_id b) * bs cfg + k)
    \<and> (\<forall>i \<in> set (stored s). pid i = unat (batch_id b) * bs cfg + k \<longrightarrow> buffer b ! k = payload i
         \<and> getInvalid (hdrs b ! k) = getInvalid \<lparr>header_bytes = take HEADER_SIZE (frame i)\<rparr>)
    \<and> ((\<forall>i \<in> set (stored s). pid i \<noteq> unat (batch_id b) * bs cfg + k) \<longrightarrow>
         buffer b ! k = replicate VDIF_PAYLOAD_LEN 0x80 \<and> getInvalid (hdrs b ! k))"
proof -
  have inv: "rx_inv cfg s" using rx_inv_reach [OF assms(5,1-4)] .
  note fin = published_final [OF inv assms(7)]
  let ?B = "batch_id b" and ?xs = "batch_of (batch_id b) (stored s)"
  have got: "hdr_id (hdrs b ! k) = of_nat (unat ?B * bs cfg + k) \<and> buffer b ! k = payload i
      \<and> getInvalid (hdrs b ! k) = getInvalid \<lparr>header_bytes = take HEADER_SIZE (frame i)\<rparr>"
    if i: "i \<in> set (stored s)" "pid i = unat ?B * bs cfg + k" for i
  proof -
    have "wf_info cfg i" using inv i by (simp add: rx_inv_def common_inv_def)
    then have "bid i = unat ?B" "idx i = k" using wf_info_nat [OF _ assms(3)] i(2) assms(8) by simp_all
    then have m: "i \<in> set ?xs" using i(1) by (simp add: batch_of_def word_eq_unat)
    have "recv_packet_id i = of_nat (unat ?B * bs cfg + k)" using i(2) [symmetric] by simp
    moreover have "buffer b ! idx i = payload i" using fin(1) m by (simp add: final_ok_def)
    ultimately show ?thesis
      using received_header [OF inv assms(3,4,6,7) m] small i(2) \<open>idx i = k\<close> by simp
  qed
  show ?thesis
  proof (cases "\<exists>i \<in> set (stored s). pid i = unat ?B * bs cfg + k")
    case True
    then show ?thesis using got by blast
  next
    case False
    then have "k \<notin> idx ` set ?xs" using stored_in_batch [OF inv assms(3,8)] by blast
    then have "missing_slot (batch_start cfg ?B) b k"
      using fin(1) assms(6,8) by (simp add: final_ok_def)
    note m = missing_slot_header [OF this fin(2) assms(8) small]
    show ?thesis using m False by blast
  qed
qed

text \<open>
  In baseband mode every frame slot of a published batch is a frame of its own time: the header
  of slot \<open>k\<close> carries packet id \<open>batch start + k\<close>; a received packet keeps its payload and its
  invalid flag, and a missing one is replaced by a zero-voltage payload marked invalid.
\<close>

theorem baseband_frames:
  assumes "0 < unat capacity" "unat capacity < 2 ^ 63" "0 < bs cfg" "thread_id cfg < 2 ^ 10"
    and "rx_reach cfg capacity s" "baseband_mode cfg" "b \<in> set (published s)" "k < bs cfg"
    and small: "unat (batch_id b) * bs cfg + k < 62500 * 2 ^ 30"
  shows "hdr_id (hdrs b ! k) = of_nat (unat (batch_id b) * bs cfg + k)
    \<and> (\<forall>i \<in> set (stored s). pid i = unat (batch_id b) * bs cfg + k \<longrightarrow> buffer b ! k = payload i
         \<and> getInvalid (hdrs b ! k) = getInvalid \<lparr>header_bytes = take HEADER_SIZE (frame i)\<rparr>)
    \<and> ((\<forall>i \<in> set (stored s). pid i \<noteq> unat (batch_id b) * bs cfg + k) \<longrightarrow>
         buffer b ! k = replicate VDIF_PAYLOAD_LEN 0x80 \<and> getInvalid (hdrs b ! k))"
  using baseband_slot [OF assms] .

lemma demo_published:
  "\<exists>s b. rx_reach (demo_cfg bb) 1 s \<and> published s = [b] \<and> stored s = [demo_pinfo bb 0, demo_pinfo bb 1]
     \<and> pid (demo_pinfo bb 0) = 0 \<and> pid (demo_pinfo bb 1) = 1 \<and> batch_id b = 0"
proof -
  obtain s where s: "rx_reach (demo_cfg bb) 1 s" "stored s = [demo_pinfo bb 0, demo_pinfo bb 1]"
      "length (published s) = 1"
    using demo_run [of bb] by blast
  then obtain b where b: "published s = [b]" by (auto simp: length_Suc_conv)
  have i: "pid (demo_pinfo bb 0) = 0" "pid (demo_pinfo bb 1) = 1" "bid (demo_pinfo bb 0) = 0"
    by (simp_all add: demo_pinfo_sel)
  have inv: "rx_inv (demo_cfg bb) s" by (rule rx_inv_reach [OF s(1)]) (simp_all add: demo_cfg_def)
  then have "map (\<lambda>b. unat (batch_id b)) (published s)
      = [unat (prebatchid (rx s)) - 1..<unat (prebatchid (rx s))]" "started_inv (demo_cfg bb) s"
    using s b by (auto simp: rx_inv_def common_inv_def)
  then have "unat (batch_id b) = 0" using b s(2) i(3) by (auto simp: started_inv_def)
  then have "batch_id b = 0" by (simp add: unsigned_eq_0_iff)
  with s b i show ?thesis by (intro exI [of _ s] exI [of _ b]) simp
qed

theorem published_consecutive_witness:
  "\<exists>s. rx_reach (demo_cfg False) 1 s \<and> stored s \<noteq> [] \<and> map (\<lambda>b. unat (batch_id b)) (published s) = [0]"
proof -
  obtain s b where s: "rx_reach (demo_cfg False) 1 s" "published s = [b]"
      "stored s = [demo_pinfo False 0, demo_pinfo False 1]" "pid (demo_pinfo False 0) = 0"
    using demo_published by blast
  have "0 < bs (demo_cfg False)" "thread_id (demo_cfg False) < 2 ^ 10" by (simp_all add: demo_cfg_def)
  from published_consecutive [OF _ _ this s(1)] show ?thesis
    using s by (intro exI [of _ s]) simp
qed

theorem published_content_witness:
  "\<exists>s b. rx_reach (demo_cfg False) 1 s \<and> published s = [b] \<and> header_valid b
     \<and> (batch_valid b \<longleftrightarrow> (\<forall>k < 1. \<exists>i \<in> set (stored s). pid i = unat (batch_id b) + k))"
proof -
  obtain s b where s: "rx_reach (demo_cfg False) 1 s" "published s = [b]" using demo_published by blast
  have c: "0 < bs (demo_cfg False)" "thread_id (demo_cfg False) < 2 ^ 10" "bs (demo_cfg False) = 1"
    by (simp_all add: demo_cfg_def)
  from published_content [OF _ _ c(1,2) s(1), of b] show ?thesis
    using s c(3) by (intro exI [of _ s] exI [of _ b]) simp
qed

theorem baseband_frames_witness:
  "\<exists>s b. rx_reach (demo_cfg True) 1 s \<and> published s = [b]
     \<and> hdr_id (hdrs b ! 0) = 0 \<and> buffer b ! 0 = payload (demo_pinfo True 0)"
proof -
  obtain s b where s: "rx_reach (demo_cfg True) 1 s" "published s = [b]"
      "stored s = [demo_pinfo True 0, demo_pinfo True 1]" "pid (demo_pinfo True 0) = 0" "batch_id b = 0"
    using demo_published by blast
  have c: "0 < bs (demo_cfg True)" "thread_id (demo_cfg True) < 2 ^ 10" "bs (demo_cfg True) = 1"
      "baseband_mode (demo_cfg True)"
    by (simp_all add: demo_cfg_def)
  show ?thesis
    using baseband_frames [OF _ _ c(1,2) s(1) c(4), of b 0] s c(3)
    by (intro exI [of _ s] exI [of _ b]) simp
qed

end
