(* ===== verification/Receiver_Delivery.thy ===== *)
theory Receiver_Delivery
  imports Receiver_Batches
begin

text \<open>
  What the consumer of a stream gets: every batch, in the pool or published, is well formed, the
  batches come out of the queue exactly as they were published, and the loss counter of the receiver
  is the number of packet ids that were skipped.
\<close>

section \<open>Where a step writes\<close>

lemma own_inv_queue:
  assumes "own_inv s"
  shows "pool_idx (rx s) \<notin> set (queue_list (queue (rx s)))"
    "held s = Some h \<Longrightarrow> h \<notin> set (queue_list (queue (rx s)))"
    "set (queue_list (queue (rx s))) \<subseteq> {..<length (pool (rx s))}"
proof -
  have "length (queue_list (queue (rx s))) + 1 < length (pool (rx s))"
    using assms cb.bounded [of "queue (rx s)"] unfolding own_inv_def by linarith
  note d = own_ring_distinct [OF _ this, of "held s"]
  have r: "own_ring (rx s) (queue_list (queue (rx s))) (held s)" using assms by (simp add: own_inv_def)
  show "pool_idx (rx s) \<notin> set (queue_list (queue (rx s)))"
    "set (queue_list (queue (rx s))) \<subseteq> {..<length (pool (rx s))}" using d [OF r] by auto
  show "h \<notin> set (queue_list (queue (rx s)))" if "held s = Some h" using d [OF r] that by auto
qed

lemma rx_store_pool:
  assumes "rx_store cfg info r = Inr r'"
  obtains b where "pool r' = (pool r)[pool_idx r := b]" "batch_count b = batch_count (current r)"
    "buffer b = (buffer (current r))[idx info := payload info]"
proof -
  from assms obtain h where "frame_header cfg (frame info) = Inr h"
    by (auto simp: rx_store_def Let_def bind_result_Inr_iff)
  then show ?thesis using assms that
    by (cases "baseband_mode cfg"; cases "received_count (current r) = 0")
      (auto simp: rx_store_def Let_def payload_def)
qed

lemma rx_classify_unchanged:
  "rx_classify cfg mon now pkt r = Rx_discard r' \<Longrightarrow> pool r' = pool r \<and> queue r' = queue r
    \<and> expected_pkt_id r' = expected_pkt_id r \<and> total_lostnmber r' = total_lostnmber r"
  "rx_classify cfg mon now pkt r = Rx_stop r' \<Longrightarrow> pool r' = pool r \<and> queue r' = queue r
    \<and> expected_pkt_id r' = expected_pkt_id r \<and> total_lostnmber r' = total_lostnmber r"
  using rx_classify_discard [of cfg mon now pkt r r'] by blast+

lemma next_batch_nth:
  "i \<noteq> pool_idx (next_batch cfg r) \<Longrightarrow> pool (next_batch cfg r) ! i = pool r ! i"
  by (simp add: next_batch_def Let_def split: if_splits)

lemma rx_try_publish_True:
  assumes "rx_try_publish cfg r = (True, r')"
  obtains q where "try_enqueue (pool_idx r) (queue r) = (True, q)"
    "r' = next_batch cfg ((finish_current cfg r)\<lparr>queue := q\<rparr>)"
  using assms by (auto simp: rx_try_publish_def Let_def split: prod.splits bool.splits)

lemma rx_try_publish_False:
  assumes "rx_try_publish cfg r = (False, r')"
  obtains q where "try_enqueue (pool_idx r) (queue r) = (False, q)"
    "r' = (finish_current cfg r)\<lparr>queue := q, queue_full_events := queue_full_events r + 1\<rparr>"
  using assms by (auto simp: rx_try_publish_def Let_def finish_current_def split: prod.splits bool.splits)

lemma rx_wait_publish_Some:
  assumes "rx_wait_publish cfg r = Some r'"
  obtains q where "try_enqueue (pool_idx r) (queue r) = (True, q)" "r' = next_batch cfg (r\<lparr>queue := q\<rparr>)"
  using assms by (auto simp: rx_wait_publish_def split: prod.splits bool.splits)

section \<open>Delivery\<close>

definition queued_snapshots :: "rx_sys \<Rightarrow> bool" where
  "queued_snapshots s \<longleftrightarrow>
     (let ql = queue_list (queue (rx s))
      in length ql \<le> length (published s)
         \<and> map ((!) (pool (rx s))) ql = drop (length (published s) - length ql) (published s))"

lemma queued_snapshots_cong:
  assumes "queued_snapshots s" "queue_list (queue (rx s')) = queue_list (queue (rx s))"
    "published s' = published s"
    and "\<And>i. i \<in> set (queue_list (queue (rx s))) \<Longrightarrow> pool (rx s') ! i = pool (rx s) ! i"
  shows "queued_snapshots s'"
  using assms by (auto simp: queued_snapshots_def Let_def cong: map_cong)

lemma nth_update_outside: "i \<in> A \<Longrightarrow> j \<notin> A \<Longrightarrow> xs[j := b] ! i = xs ! i"
  by (metis nth_list_update_neq)

lemma drop_pop:
  assumes "Suc n \<le> length xs" "x # ys = drop (length xs - Suc n) xs"
  shows "ys = drop (length xs - n) xs"
proof -
  have "ys = tl (drop (length xs - Suc n) xs)" using assms(2) [symmetric] by simp
  also have "\<dots> = drop (Suc (length xs - Suc n)) xs" by (simp add: drop_Suc tl_drop)
  finally show ?thesis using assms(1) by (simp add: Suc_diff_Suc)
qed

lemma queued_snapshots_push:
  assumes "queued_snapshots s" "own_inv s'"
    and q: "queue_list q = queue_list (queue (rx s)) @ [pool_idx (rx s)]"
    and s': "rx s' = next_batch cfg (r\<lparr>queue := q\<rparr>)" "published s' = published s @ [pool r ! pool_idx (rx s)]"
    and r: "\<And>i. i \<in> set (queue_list (queue (rx s))) \<Longrightarrow> pool r ! i = pool (rx s) ! i"
  shows "queued_snapshots s'"
proof -
  let ?ql = "queue_list (queue (rx s))"
  have "pool_idx (rx s') \<notin> set (queue_list (queue (rx s')))" using own_inv_queue(1) [OF assms(2)] .
  moreover have "set (queue_list (queue (rx s'))) = set (?ql @ [pool_idx (rx s)])" using q s' by simp
  ultimately have "i \<noteq> pool_idx (rx s')" if "i \<in> set (?ql @ [pool_idx (rx s)])" for i
    using that by blast
  then have "pool (rx s') ! i = pool r ! i" if "i \<in> set (?ql @ [pool_idx (rx s)])" for i
    using that next_batch_nth [of i cfg "r\<lparr>queue := q\<rparr>"] unfolding s' by simp
  then have "map ((!) (pool (rx s'))) (?ql @ [pool_idx (rx s)])
      = map ((!) (pool (rx s))) ?ql @ [pool r ! pool_idx (rx s)]" using r by simp
  then show ?thesis using assms(1) q
    by (simp add: queued_snapshots_def s' Let_def del: map_eq_conv)
qed
lemma queued_snapshots_step:
  assumes step: "rx_step cfg s s'" and own: "own_inv s" and snap: "queued_snapshots s"
  shows "queued_snapshots s'"
  using step
proof cases
  case (rx_accept mon now pkt r info)
  have "\<exists>b. pool r = pool (rx s) \<or> pool r = (pool (rx s))[pool_idx (rx s) := b]" and "queue r = queue (rx s)"
    using rx_classify_accept [OF rx_accept(3)] by (auto split: if_splits)
  then show ?thesis using own_inv_queue(1) [OF own] rx_accept(1)
    by (intro queued_snapshots_cong [OF snap]) (auto simp: nth_update_outside [of _ "set (queue_list (queue (rx s)))"])
next
  case (rx_publish info r)
  from rx_publish(4) obtain q where q: "try_enqueue (pool_idx (rx s)) (queue (rx s)) = (True, q)"
      "r = next_batch cfg ((finish_current cfg (rx s))\<lparr>queue := q\<rparr>)"
    by (rule rx_try_publish_True)
  then have "queue_list q = queue_list (queue (rx s)) @ [pool_idx (rx s)]"
    using cb.enq_spec [OF _ q(1)] own by (auto simp: own_inv_def)
  then show ?thesis
    using own_inv_queue(1) [OF own] rx_publish(1) q(2)
    by (intro queued_snapshots_push [OF snap own_inv_step [OF step own], of _ cfg "finish_current cfg (rx s)"])
      (auto simp: finish_current_def nth_update_outside [of _ "set (queue_list (queue (rx s)))"])
next
  case (rx_full info r)
  from rx_full(4) obtain q where q: "try_enqueue (pool_idx (rx s)) (queue (rx s)) = (False, q)"
      "r = (finish_current cfg (rx s))\<lparr>queue := q, queue_full_events := queue_full_events (rx s) + 1\<rparr>"
    by (rule rx_try_publish_False)
  then have "q = queue (rx s)" using own by (auto simp: own_inv_def try_enqueue_eq split: if_splits)
  then show ?thesis using own_inv_queue(1) [OF own] rx_full(1) q(2)
    by (intro queued_snapshots_cong [OF snap]) (auto simp: finish_current_def nth_update_outside [of _ "set (queue_list (queue (rx s)))"])
next
  case (rx_wait info r)
  from rx_wait(3) obtain q where q: "try_enqueue (pool_idx (rx s)) (queue (rx s)) = (True, q)"
      "r = next_batch cfg ((rx s)\<lparr>queue := q\<rparr>)"
    by (rule rx_wait_publish_Some)
  then have "queue_list q = queue_list (queue (rx s)) @ [pool_idx (rx s)]"
    using cb.enq_spec [OF _ q(1)] own by (auto simp: own_inv_def)
  then show ?thesis
    using rx_wait(1) q(2)
    by (intro queued_snapshots_push [OF snap own_inv_step [OF step own], of _ cfg "rx s"]) auto
next
  case (rx_done info r)
  from rx_done(4) obtain b where "pool r = (pool (rx s))[pool_idx (rx s) := b]" by (rule rx_store_pool)
  then show ?thesis using own_inv_queue(1) [OF own] rx_done(1) rx_store_sel(1) [OF rx_done(4)]
    by (intro queued_snapshots_cong [OF snap]) (auto simp: nth_update_outside [of _ "set (queue_list (queue (rx s)))"])
next
  case (co_dequeue i q)
  have d: "queue_list (queue (rx s)) = i # queue_list q"
    using cb.deq_spec [OF _ co_dequeue(2)] own by (auto simp: own_inv_def)
  have q: "Suc (length (queue_list q)) \<le> length (published s)"
      "pool (rx s) ! i # map ((!) (pool (rx s))) (queue_list q)
        = drop (length (published s) - Suc (length (queue_list q))) (published s)"
    using snap d by (auto simp: queued_snapshots_def Let_def)
  show ?thesis using co_dequeue(1) drop_pop [OF q] q(1) by (auto simp: queued_snapshots_def Let_def)
next
  case (co_rewrite i bufs)
  then show ?thesis using own_inv_queue(2) [OF own]
    by (intro queued_snapshots_cong [OF snap]) (auto simp: nth_update_outside [of _ "set (queue_list (queue (rx s)))"])
qed (use snap in \<open>auto dest!: rx_classify_unchanged intro!: queued_snapshots_cong [OF snap]\<close>)
section \<open>Well-formed batches\<close>

definition wf_batch :: "rx_config \<Rightarrow> PacketBatch \<Rightarrow> bool" where
  "wf_batch cfg b \<longleftrightarrow> shape cfg b \<and> batch_count b = int (bs cfg)
     \<and> (\<forall>p \<in> set (buffer b). length p = VDIF_PAYLOAD_LEN)"

definition sized :: "rx_config \<Rightarrow> PacketBatch \<Rightarrow> bool" where
  "sized cfg b \<longleftrightarrow> batch_count b = int (bs cfg) \<and> (\<forall>p \<in> set (buffer b). length p = VDIF_PAYLOAD_LEN)"

lemma wf_batch_iff: "wf_batch cfg b \<longleftrightarrow> shape cfg b \<and> sized cfg b"
  by (auto simp: wf_batch_def sized_def)

lemma sized_prepare [simp]: "sized cfg (prepare_batch cfg r B b) = sized cfg b"
  by (simp add: sized_def prepare_batch_def Let_def)

lemma sized_fill: "sized cfg b \<Longrightarrow> sized cfg (fill_missing start i k b)"
proof (induction start i k b rule: fill_missing.induct)
  case (2 start i k b)
  let ?b = "b\<lparr>buffer := (buffer b)[i := replicate VDIF_PAYLOAD_LEN 0x80],
    hdrs := (hdrs b)[i := setInvalid True (setPacketId (start + of_nat i) (hdrs b ! 0))]\<rparr>"
  have "sized cfg ?b"
    using "2.prems" by (auto simp: sized_def dest!: set_update_subset_insert [THEN subsetD])
  with "2.prems" have "sized cfg (if pkt_ids b ! i = start + of_nat i then b else ?b)" by simp
  from "2.IH" [OF refl this] show ?case by (simp add: Let_def)
qed simp

lemma sized_finalize: "sized cfg b \<Longrightarrow> sized cfg (finalize_batch cfg b)"
  using sized_fill [of cfg "b\<lparr>batch_valid := v\<rparr>" for v]
  by (auto simp: finalize_batch_def Let_def sized_def)

lemma sized_store:
  assumes "rx_store cfg info r = Inr r'" "\<forall>b \<in> set (pool r). sized cfg b" "pool_idx r < length (pool r)"
    and "length (frame info) = HEADER_SIZE + VDIF_PAYLOAD_LEN"
  shows "\<forall>b \<in> set (pool r'). sized cfg b"
proof -
  from assms(1) obtain b where b: "pool r' = (pool r)[pool_idx r := b]"
      "batch_count b = batch_count (current r)" "buffer b = (buffer (current r))[idx info := payload info]"
    by (rule rx_store_pool)
  have "sized cfg (current r)" using assms(2,3) by simp
  then have "sized cfg b"
    using assms(4) b(2,3) by (auto simp: sized_def payload_def dest!: set_update_subset_insert [THEN subsetD])
  then show ?thesis using assms(2) b(1) by (auto dest!: set_update_subset_insert [THEN subsetD])
qed

text \<open>All batches of the pool are sized, and all published ones well formed.\<close>

definition typed_inv :: "rx_config \<Rightarrow> rx_sys \<Rightarrow> bool" where
  "typed_inv cfg s \<longleftrightarrow> (\<forall>b \<in> set (pool (rx s)). sized cfg b) \<and> (\<forall>b \<in> set (published s). wf_batch cfg b)"

lemma set_update_all:
  assumes "\<forall>b \<in> set ps. P b" "P x"
  shows "\<forall>b \<in> set (ps[i := x]). P b"
  using assms by (auto dest!: set_update_subset_insert [THEN subsetD])

lemma typed_next_batch:
  assumes "\<forall>b \<in> set (pool r). sized cfg b" "pool_idx (next_batch cfg r) < length (pool r)"
  shows "\<forall>b \<in> set (pool (next_batch cfg r)). sized cfg b"
proof -
  have "\<forall>b \<in> set ((pool r)[i := prepare_batch cfg r' B (pool r ! i)]). sized cfg b"
    if "i < length (pool r)" for i r' B
    using that assms(1) by (intro set_update_all) simp_all
  then show ?thesis using assms(2) by (simp add: next_batch_def Let_def split: if_splits)
qed

lemma typed_finish:
  assumes "\<forall>b \<in> set (pool r). sized cfg b" "pool_idx r < length (pool r)"
  shows "\<forall>b \<in> set (pool (finish_current cfg r)). sized cfg b"
proof -
  have "sized cfg (finalize_batch cfg (current r))" using assms by (simp add: sized_finalize)
  from set_update_all [OF assms(1) this] show ?thesis unfolding finish_current_def by simp
qed

lemma typed_inv_step:
  assumes step: "rx_step cfg s s'" and own: "own_inv s" and inv: "rx_inv cfg s" "rx_inv cfg s'"
    and ty: "typed_inv cfg s"
  shows "typed_inv cfg s'"
  using step
proof cases
  note ps = ty [unfolded typed_inv_def, THEN conjunct1]
  note cur = own_inv_index(1) [OF own]
  have sh: "\<forall>b \<in> set (pool (rx s)). shape cfg b" using inv(1) by (simp add: rx_inv_def common_inv_def)
  note idx' = own_inv_index(1) [OF own_inv_step [OF step own]]
  {
    case (rx_accept mon now pkt r info)
    have "sized cfg (prepare_batch cfg (rx s) B (current (rx s)))" for B using ps cur by simp
    then have "\<forall>b \<in> set (pool r). sized cfg b"
      using rx_classify_accept [OF rx_accept(3)] ps set_update_all [OF ps] by (metis (no_types, lifting))
    then show ?thesis using ty rx_accept(1) by (simp add: typed_inv_def)
  next
    case (rx_publish info r)
    from rx_publish(4) obtain q where q: "r = next_batch cfg ((finish_current cfg (rx s))\<lparr>queue := q\<rparr>)"
      by (rule rx_try_publish_True)
    have "\<forall>b \<in> set (pool r). sized cfg b" unfolding q
      using typed_finish [OF ps cur] idx' rx_publish(1) q by (intro typed_next_batch) simp_all
    moreover have "wf_batch cfg (current (finish_current cfg (rx s)))"
      using ps sh cur by (simp add: finish_current_def wf_batch_iff sized_finalize shape_finalize)
    ultimately show ?thesis using ty rx_publish(1) by (simp add: typed_inv_def)
  next
    case (rx_full info r)
    from rx_full(4) obtain q where
      "r = (finish_current cfg (rx s))\<lparr>queue := q, queue_full_events := queue_full_events (rx s) + 1\<rparr>"
      by (rule rx_try_publish_False)
    then show ?thesis using ty rx_full(1) typed_finish [OF ps cur] by (simp add: typed_inv_def)
  next
    case (rx_wait info r)
    from rx_wait(3) obtain q where q: "r = next_batch cfg ((rx s)\<lparr>queue := q\<rparr>)"
      by (rule rx_wait_publish_Some)
    have "\<forall>b \<in> set (pool r). sized cfg b" unfolding q
      using ps idx' rx_wait(1) q by (intro typed_next_batch) simp_all
    moreover have "wf_batch cfg (current (rx s))" using ps sh cur by (simp add: wf_batch_iff)
    ultimately show ?thesis using ty rx_wait(1) by (simp add: typed_inv_def)
  next
    case (rx_done info r)
    then have "wf_info cfg info" using inv(2) by (auto simp: rx_inv_def common_inv_def)
    then have "length (frame info) = HEADER_SIZE + VDIF_PAYLOAD_LEN" by (simp add: wf_info_def)
    then show ?thesis using ty rx_done(1) sized_store [OF rx_done(4) ps cur] by (simp add: typed_inv_def)
  next
    case (co_rewrite i bufs)
    have "i < length (pool (rx s))" using own_inv_index(3) [OF own co_rewrite(2)] .
    then have "sized cfg (pool (rx s) ! i)" using ps by simp
    moreover have "set (map length bufs) = set (map length (buffer (pool (rx s) ! i)))"
      using co_rewrite(3) by simp
    ultimately have "sized cfg ((pool (rx s) ! i)\<lparr>buffer := bufs\<rparr>)"
      by (auto simp: sized_def)
    from set_update_all [OF ps this] show ?thesis using ty co_rewrite(1) by (simp add: typed_inv_def)
  }
qed (use ty in \<open>auto simp: typed_inv_def dest!: rx_classify_unchanged\<close>)

lemma typed_inv_reach:
  assumes "rx_reach cfg capacity s" "0 < unat capacity" "unat capacity < 2 ^ 63"
    and "0 < bs cfg" "thread_id cfg < 2 ^ 10"
  shows "typed_inv cfg s"
  using assms(1)
proof induction
  case rx_start
  show ?case by (simp add: typed_inv_def rx_init_def new_receiver_def sized_def allocatePacketBatch_def)
next
  case (rx_next s s')
  have "rx_reach cfg capacity s'" by (rule rx_reach.rx_next [OF rx_next(1,2)])
  from rx_inv_reach [OF this assms(2-)] rx_inv_reach [OF rx_next(1) assms(2-)]
  show ?case by (intro typed_inv_step [OF rx_next(2) own_inv_reach [OF rx_next(1) assms(2,3)] _ _ rx_next(3)])
qed

lemma queued_snapshots_reach:
  assumes "rx_reach cfg capacity s" "0 < unat capacity" "unat capacity < 2 ^ 63"
  shows "queued_snapshots s"
  using assms(1)
proof induction
  case rx_start
  have "queue_list (new_buffer capacity :: nat circular_buffer) = []"
    using new_buffer_inv [of capacity] assms(2,3) by blast
  then show ?case
    by (simp add: queued_snapshots_def rx_init_def new_receiver_def Let_def del: length_queue_list)
next
  case (rx_next s s')
  then show ?case using queued_snapshots_step own_inv_reach assms(2,3) by blast
qed

section \<open>Loss accounting\<close>

text \<open>The accepted packets: the stored ones and the one on its way into a batch.\<close>

definition accepted :: "rx_sys \<Rightarrow> packet_info list" where
  "accepted s = stored s @ (case rpc s of R_advance i \<Rightarrow> [i] | R_blocked i \<Rightarrow> [i] | _ \<Rightarrow> [])"

definition loss_inv :: "rx_sys \<Rightarrow> bool" where
  "loss_inv s \<longleftrightarrow>
     (expected_pkt_id (rx s) = 0 \<longrightarrow> total_lostnmber (rx s) = 0)
     \<and> (rpc s \<noteq> R_ended \<and> accepted s \<noteq> [] \<longrightarrow>
          unat (total_lostnmber (rx s)) + length (accepted s) + pid (hd (accepted s))
            = pid (last (accepted s)) + 1)"

lemma loss_inv_cong:
  assumes "loss_inv s" "rpc s' \<noteq> R_ended \<longrightarrow> accepted s' = accepted s" "rpc s' \<noteq> R_ended \<longrightarrow> rpc s \<noteq> R_ended"
    "expected_pkt_id (rx s') = expected_pkt_id (rx s)" "total_lostnmber (rx s') = total_lostnmber (rx s)"
  shows "loss_inv s'"
  using assms by (auto simp: loss_inv_def)

lemma publish_counters [simp]:
  "expected_pkt_id (next_batch cfg r) = expected_pkt_id r"
  "total_lostnmber (next_batch cfg r) = total_lostnmber r"
  "expected_pkt_id (finish_current cfg r) = expected_pkt_id r"
  "total_lostnmber (finish_current cfg r) = total_lostnmber r"
  by (simp_all add: next_batch_def finish_current_def Let_def)

lemma loss_inv_accept:
  assumes inv: "rx_inv cfg s" and bs: "0 < bs cfg" and loss: "loss_inv s" and idle: "rpc s = R_idle"
    and acc: "rx_classify cfg mon now pkt (rx s) = Rx_accept r info" and wf: "wf_info cfg info"
  shows "loss_inv (s\<lparr>rx := r, rpc := R_advance info\<rparr>)"
proof (cases "expected_pkt_id (rx s) = 0")
  case True
  then have "stored s = []" "total_lostnmber r = 0"
    using inv loss rx_classify_accept [OF acc] by (auto simp: rx_inv_def common_inv_def loss_inv_def)
  then show ?thesis by (simp add: loss_inv_def accepted_def)
next
  case False
  then have st: "stored s \<noteq> []" "expected_pkt_id (rx s) = recv_packet_id (last (stored s)) + 1"
    using inv idle by (auto simp: rx_inv_def started_inv_def sequence_ok_def)
  have "wf_info cfg (last (stored s))" using inv st(1) by (simp add: rx_inv_def common_inv_def)
  then have "pid (last (stored s)) < 2 ^ 47" by (rule pid_bounds(1))
  then have e: "unat (expected_pkt_id (rx s)) = pid (last (stored s)) + 1"
    unfolding st(2) by (subst unat_add_exact) simp_all
  have a: "expected_pkt_id (rx s) \<le> recv_packet_id info" "expected_pkt_id r = recv_packet_id info + 1"
      "total_lostnmber r = total_lostnmber (rx s) + (recv_packet_id info - expected_pkt_id (rx s))"
    using rx_classify_accept [OF acc] unfolding if_not_P [OF False] by blast+
  have l: "unat (total_lostnmber (rx s)) + length (stored s) + pid (hd (stored s)) = pid (last (stored s)) + 1"
    using loss idle st(1) by (simp add: loss_inv_def accepted_def)
  have p: "pid info < 2 ^ 47" using pid_bounds(1) [OF wf] .
  have d: "unat (recv_packet_id info - expected_pkt_id (rx s)) = pid info - (pid (last (stored s)) + 1)"
    using a(1) e by (simp add: unat_sub)
  have le: "pid (last (stored s)) + 1 \<le> pid info" using a(1) e by (simp add: word_le_nat_alt)
  have "unat (total_lostnmber r) = unat (total_lostnmber (rx s)) + (pid info - (pid (last (stored s)) + 1))"
    unfolding a(3) using d l le p by (subst unat_add_exact) simp_all
  moreover have "expected_pkt_id r \<noteq> 0"
  proof -
    have "unat (expected_pkt_id r) = pid info + 1" unfolding a(2) using p by (subst unat_add_exact) simp_all
    then show ?thesis by auto
  qed
  ultimately show ?thesis using l le st(1) by (simp add: loss_inv_def accepted_def)
qed

lemma loss_inv_step:
  assumes step: "rx_step cfg s s'" and inv: "rx_inv cfg s" "rx_inv cfg s'" and bs: "0 < bs cfg" and loss: "loss_inv s"
  shows "loss_inv s'"
  using step
proof cases
  case (rx_accept mon now pkt r info)
  have "wf_info cfg info" using inv(2) rx_classify_accept [OF rx_accept(3)] accept_info [OF rx_accept(3)] by blast
  then show ?thesis unfolding rx_accept(1)
    by (rule loss_inv_accept [OF inv(1) bs loss rx_accept(2,3)])
next
  case (rx_publish info r)
  from rx_publish(4) obtain q where "r = next_batch cfg ((finish_current cfg (rx s))\<lparr>queue := q\<rparr>)"
    by (rule rx_try_publish_True)
  then show ?thesis using rx_publish by (intro loss_inv_cong [OF loss]) (simp_all add: accepted_def)
next
  case (rx_full info r)
  from rx_full(4) obtain q where
    "r = (finish_current cfg (rx s))\<lparr>queue := q, queue_full_events := queue_full_events (rx s) + 1\<rparr>"
    by (rule rx_try_publish_False)
  then show ?thesis using rx_full by (intro loss_inv_cong [OF loss]) (simp_all add: accepted_def)
next
  case (rx_wait info r)
  from rx_wait(3) obtain q where "r = next_batch cfg ((rx s)\<lparr>queue := q\<rparr>)"
    by (rule rx_wait_publish_Some)
  then show ?thesis using rx_wait by (intro loss_inv_cong [OF loss]) (simp_all add: accepted_def)
next
  case (rx_done info r)
  then show ?thesis using rx_store_sel [OF rx_done(4)]
    by (intro loss_inv_cong [OF loss]) (simp_all add: accepted_def)
qed (use loss in \<open>auto simp: accepted_def dest!: rx_classify_unchanged intro!: loss_inv_cong [OF loss]\<close>)

lemma loss_inv_reach:
  assumes "rx_reach cfg capacity s" "0 < unat capacity" "unat capacity < 2 ^ 63"
    and "0 < bs cfg" "thread_id cfg < 2 ^ 10"
  shows "loss_inv s"
  using assms(1)
proof induction
  case rx_start
  show ?case by (simp add: loss_inv_def accepted_def rx_init_def new_receiver_def)
next
  case (rx_next s s')
  have "rx_reach cfg capacity s'" by (rule rx_reach.rx_next [OF rx_next(1,2)])
  from rx_inv_reach [OF this assms(2-)] rx_inv_reach [OF rx_next(1) assms(2-)]
  show ?case by (intro loss_inv_step [OF rx_next(2) _ _ assms(4) rx_next(3)])
qed

text \<open>In a strictly increasing list the skipped numbers are those between its ends not in it.\<close>

lemma card_skipped:
  fixes xs :: "nat list"
  assumes "sorted_wrt (<) xs" "xs \<noteq> []"
  shows "card {p. hd xs \<le> p \<and> p \<le> last xs \<and> p \<notin> set xs} + length xs + hd xs = last xs + 1"
proof -
  have "sorted xs" "distinct xs" using assms(1) by (auto simp: strict_sorted_iff)
  then have sub: "set xs \<subseteq> {hd xs..last xs}" using assms(2)
    by (auto simp: hd_conv_nth last_conv_nth in_set_conv_nth sorted_nth_mono)
  have "hd xs \<le> last xs" using sub assms(2) by (cases xs) auto
  have "{p. hd xs \<le> p \<and> p \<le> last xs \<and> p \<notin> set xs} = {hd xs..last xs} - set xs" by auto
  moreover have "card ({hd xs..last xs} - set xs) = card {hd xs..last xs} - card (set xs)"
    using sub by (intro card_Diff_subset) auto
  moreover have "card (set xs) = length xs" using \<open>distinct xs\<close> by (rule distinct_card)
  moreover have "card (set xs) \<le> card {hd xs..last xs}" using sub by (intro card_mono) auto
  ultimately show ?thesis using \<open>hd xs \<le> last xs\<close> by simp
qed

section \<open>Properties\<close>

text \<open>
  C8. The consumer gets the batches as they were published and in that order: the batch a dequeue
  returns is, field by field, the oldest published batch not yet taken, whatever the receiver and the
  consumer have written since.
\<close>

theorem delivered_content:
  assumes "0 < unat capacity" "unat capacity < 2 ^ 63" "rx_reach cfg capacity s"
    and deq: "try_dequeue (queue (rx s)) = (True, Some i, q)"
  shows "length (queue_list (queue (rx s))) \<le> length (published s)
    \<and> pool (rx s) ! i = published s ! (length (published s) - length (queue_list (queue (rx s))))"
proof -
  have "queue_list (queue (rx s)) = i # queue_list q"
    using cb.deq_spec [OF _ deq] own_inv_reach [OF assms(3,1,2)] by (auto simp: own_inv_def)
  moreover obtain n where n: "n = length (queue_list (queue (rx s)))" by simp
  ultimately have "n \<le> length (published s)" "0 < n" "pool (rx s) ! i = drop (length (published s) - n) (published s) ! 0"
    using queued_snapshots_reach [OF assms(3,1,2)]
    by (auto simp: queued_snapshots_def Let_def dest!: arg_cong [of _ _ "\<lambda>xs. xs ! 0"] simp del: length_queue_list)
  then show ?thesis unfolding n [symmetric] by (simp add: nth_drop)
qed

theorem delivered_content_witness:
  "\<exists>s q b. rx_reach (demo_cfg True) 1 s \<and> try_dequeue (queue (rx s)) = (True, Some 0, q)
     \<and> published s = [b] \<and> pool (rx s) ! 0 = b"
proof -
  obtain s where s: "rx_reach (demo_cfg True) 1 s" "queue_list (queue (rx s)) = [0]" "length (published s) = 1"
    using demo_run [of True] by blast
  have ok: "cb_inv (queue (rx s))" using own_inv_reach [OF s(1)] by (simp add: own_inv_def)
  obtain q where q: "try_dequeue (queue (rx s)) = (True, Some 0, q)"
    using cb.deqE [OF ok] s(2) by auto
  obtain b where "published s = [b]" using s(3) by (auto simp: length_Suc_conv)
  with delivered_content [OF _ _ s(1) q] s q show ?thesis
    by (intro exI [of _ s] exI [of _ q] exI [of _ b]) (simp del: length_queue_list)
qed

text \<open>
  C37. Every batch of a stream stays well formed: it keeps room for exactly one packet count of the
  configuration, its vectors have that length, its headers are 32 bytes and its payloads 8192 bytes.
\<close>

theorem batches_well_formed:
  assumes "0 < unat capacity" "unat capacity < 2 ^ 63" "0 < bs cfg" "thread_id cfg < 2 ^ 10"
    and reach: "rx_reach cfg capacity s"
  shows "(\<forall>b \<in> set (pool (rx s)). wf_batch cfg b) \<and> (\<forall>b \<in> set (published s). wf_batch cfg b)
    \<and> length (pool (rx s)) = unat (maxcap (queue (rx s))) + 2"
proof -
  have "\<forall>b \<in> set (pool (rx s)). shape cfg b"
    using rx_inv_reach [OF reach assms(1-4)] by (simp add: rx_inv_def common_inv_def)
  moreover have "typed_inv cfg s" using typed_inv_reach [OF reach assms(1-4)] .
  moreover have "own_inv s" using own_inv_reach [OF reach assms(1,2)] .
  ultimately show ?thesis by (simp add: typed_inv_def wf_batch_iff own_inv_def)
qed

theorem batches_well_formed_witness:
  "\<exists>s b. rx_reach (demo_cfg True) 1 s \<and> published s = [b] \<and> wf_batch (demo_cfg True) b"
proof -
  obtain s b where s: "rx_reach (demo_cfg True) 1 s" "published s = [b]" using demo_published by blast
  have "0 < bs (demo_cfg True)" "thread_id (demo_cfg True) < 2 ^ 10" by (simp_all add: demo_cfg_def)
  from batches_well_formed [OF _ _ this s(1)] s show ?thesis
    by (intro exI [of _ s] exI [of _ b]) simp
qed

text \<open>
  C38. Between two packets the loss counter is exact: it is the number of packet ids between the first
  and the last stored packet that were never stored; late and duplicate packets do not change it.
\<close>

theorem loss_accounting:
  assumes "0 < unat capacity" "unat capacity < 2 ^ 63" "0 < bs cfg" "thread_id cfg < 2 ^ 10"
    and reach: "rx_reach cfg capacity s" and idle: "rpc s = R_idle" and ne: "stored s \<noteq> []"
  shows "unat (total_lostnmber (rx s))
    = card {p. pid (hd (stored s)) \<le> p \<and> p \<le> pid (last (stored s)) \<and> p \<notin> pid ` set (stored s)}"
proof -
  let ?xs = "map pid (stored s)"
  have "sorted_wrt (<) ?xs"
    using rx_inv_reach [OF reach assms(1-4)] by (simp add: rx_inv_def common_inv_def)
  moreover have "?xs \<noteq> []" "hd ?xs = pid (hd (stored s))" "last ?xs = pid (last (stored s))"
    using ne by (simp_all add: hd_map last_map)
  ultimately have "card {p. pid (hd (stored s)) \<le> p \<and> p \<le> pid (last (stored s)) \<and> p \<notin> pid ` set (stored s)}
      + length (stored s) + pid (hd (stored s)) = pid (last (stored s)) + 1"
    using card_skipped [of ?xs] by simp
  moreover have "unat (total_lostnmber (rx s)) + length (stored s) + pid (hd (stored s))
      = pid (last (stored s)) + 1"
    using loss_inv_reach [OF reach assms(1-4)] idle ne by (simp add: loss_inv_def accepted_def)
  ultimately show ?thesis by linarith
qed

theorem loss_accounting_witness:
  "\<exists>s. rx_reach (demo_cfg False) 1 s \<and> length (stored s) = 2 \<and> total_lostnmber (rx s) = 0"
proof -
  obtain s where s: "rx_reach (demo_cfg False) 1 s" "rpc s = R_idle"
      "stored s = [demo_pinfo False 0, demo_pinfo False 1]"
    using demo_run [of False] by blast
  have "0 < bs (demo_cfg False)" "thread_id (demo_cfg False) < 2 ^ 10" by (simp_all add: demo_cfg_def)
  from loss_accounting [OF _ _ this s(1,2)] s(3)
  have "unat (total_lostnmber (rx s)) = card {p. p \<le> 1 \<and> p \<noteq> 0 \<and> p \<noteq> (1 :: nat)}"
    by (simp add: demo_pinfo_sel)
  also have "{p. p \<le> 1 \<and> p \<noteq> 0 \<and> p \<noteq> (1 :: nat)} = {}" by auto
  finally have "total_lostnmber (rx s) = 0" by (simp add: unsigned_eq_0_iff)
  then show ?thesis using s by (intro exI [of _ s]) simp
qed

end
