(* ===== verification/Floating.thy ===== *)
theory Floating
  imports Complex_Main SL_Prelude
begin

text \<open>
  Floating-point values of the C++ sources. A \<^verbatim>\<open>double\<close> is a finite real number, an infinity or a
  NaN; the sign of zero is dropped. An arithmetic operation on finite operands is the exact
  operation followed by a rounding \<open>fl\<close>, as IEEE 754 prescribes; the rounding is an argument of every
  definition, so a theorem holds for each rounding that meets its hypotheses and the definitions
  evaluate with exact arithmetic for \<open>fl = Fin\<close>.
\<close>

section \<open>Values and comparisons\<close>

datatype dbl = Fin real | PInf | MInf | NaN

definition isfinite :: "dbl \<Rightarrow> bool" where
  "isfinite x \<longleftrightarrow> (case x of Fin _ \<Rightarrow> True | _ \<Rightarrow> False)"

fun dbl_less :: "dbl \<Rightarrow> dbl \<Rightarrow> bool" where
  "dbl_less (Fin a) (Fin b) \<longleftrightarrow> a < b"
| "dbl_less MInf (Fin b) \<longleftrightarrow> True"
| "dbl_less MInf PInf \<longleftrightarrow> True"
| "dbl_less (Fin a) PInf \<longleftrightarrow> True"
| "dbl_less _ _ \<longleftrightarrow> False"

fun dbl_le :: "dbl \<Rightarrow> dbl \<Rightarrow> bool" where
  "dbl_le (Fin a) (Fin b) \<longleftrightarrow> a \<le> b"
| "dbl_le NaN _ \<longleftrightarrow> False"
| "dbl_le _ NaN \<longleftrightarrow> False"
| "dbl_le MInf _ \<longleftrightarrow> True"
| "dbl_le _ PInf \<longleftrightarrow> True"
| "dbl_le _ _ \<longleftrightarrow> False"

text \<open>The value of a finite double; \<open>0\<close> stands for the others, which every caller excludes first.\<close>

fun real_of_dbl :: "dbl \<Rightarrow> real" where
  "real_of_dbl (Fin a) = a"
| "real_of_dbl _ = 0"

section \<open>Arithmetic\<close>

fun dbl_neg :: "dbl \<Rightarrow> dbl" where
  "dbl_neg (Fin a) = Fin (- a)"
| "dbl_neg PInf = MInf"
| "dbl_neg MInf = PInf"
| "dbl_neg NaN = NaN"

fun dbl_abs :: "dbl \<Rightarrow> dbl" where
  "dbl_abs (Fin a) = Fin \<bar>a\<bar>"
| "dbl_abs NaN = NaN"
| "dbl_abs _ = PInf"

fun dbl_add :: "(real \<Rightarrow> dbl) \<Rightarrow> dbl \<Rightarrow> dbl \<Rightarrow> dbl" where
  "dbl_add fl (Fin a) (Fin b) = fl (a + b)"
| "dbl_add fl NaN _ = NaN"
| "dbl_add fl _ NaN = NaN"
| "dbl_add fl PInf MInf = NaN"
| "dbl_add fl MInf PInf = NaN"
| "dbl_add fl PInf _ = PInf"
| "dbl_add fl _ PInf = PInf"
| "dbl_add fl MInf _ = MInf"
| "dbl_add fl _ MInf = MInf"

definition dbl_sub :: "(real \<Rightarrow> dbl) \<Rightarrow> dbl \<Rightarrow> dbl \<Rightarrow> dbl" where
  "dbl_sub fl a b = dbl_add fl a (dbl_neg b)"

text \<open>An infinity with the sign of the product of two signs.\<close>

definition inf_sign :: "real \<Rightarrow> dbl" where
  "inf_sign s = (if s = 0 then NaN else if s > 0 then PInf else MInf)"

fun dbl_sgn :: "dbl \<Rightarrow> real" where
  "dbl_sgn (Fin a) = sgn a"
| "dbl_sgn PInf = 1"
| "dbl_sgn MInf = - 1"
| "dbl_sgn NaN = 0"

definition dbl_mul :: "(real \<Rightarrow> dbl) \<Rightarrow> dbl \<Rightarrow> dbl \<Rightarrow> dbl" where
  "dbl_mul fl a b =
     (if isfinite a \<and> isfinite b then fl (real_of_dbl a * real_of_dbl b)
      else inf_sign (dbl_sgn a * dbl_sgn b))"

definition dbl_div :: "(real \<Rightarrow> dbl) \<Rightarrow> dbl \<Rightarrow> dbl \<Rightarrow> dbl" where
  "dbl_div fl a b =
     (if a = NaN \<or> b = NaN then NaN
      else if isfinite a \<and> isfinite b \<and> b \<noteq> Fin 0 then fl (real_of_dbl a / real_of_dbl b)
      else if isfinite b then (if b = Fin 0 then inf_sign (dbl_sgn a) else inf_sign (dbl_sgn a * dbl_sgn b))
      else if isfinite a then Fin 0 else NaN)"

text \<open>\<^verbatim>\<open>std::llround\<close>: to the nearest integer, halfway cases away from zero. A cast truncates.\<close>

definition llround :: "real \<Rightarrow> int" where
  "llround x = (if 0 \<le> x then \<lfloor>x + 1 / 2\<rfloor> else - \<lfloor>1 / 2 - x\<rfloor>)"

definition trunc :: "real \<Rightarrow> int" where
  "trunc x = (if 0 \<le> x then \<lfloor>x\<rfloor> else \<lceil>x\<rceil>)"

section \<open>Lemmas\<close>

lemma isfinite_simps [simp]:
  "isfinite (Fin a)" "\<not> isfinite PInf" "\<not> isfinite MInf" "\<not> isfinite NaN"
  by (simp_all add: isfinite_def)

lemma isfiniteE:
  assumes "isfinite x"
  obtains a where "x = Fin a"
  using assms by (cases x) auto

lemma dbl_finite_arith [simp]:
  "dbl_sub fl (Fin a) (Fin b) = fl (a - b)"
  "dbl_mul fl (Fin a) (Fin b) = fl (a * b)"
  "b \<noteq> 0 \<Longrightarrow> dbl_div fl (Fin a) (Fin b) = fl (a / b)"
  by (simp_all add: dbl_sub_def dbl_mul_def dbl_div_def)

lemma llround_of_int [simp]: "llround (of_int k) = k"
proof (cases "0 \<le> k")
  case True
  then show ?thesis by (simp add: llround_def)
next
  case False
  have "\<lfloor>1 / 2 - of_int k :: real\<rfloor> = - k" by linarith
  with False show ?thesis by (simp add: llround_def)
qed

lemma llround_close: "\<bar>of_int (llround x) - x\<bar> \<le> 1 / 2"
proof (cases "0 \<le> x")
  case True
  have "\<bar>of_int \<lfloor>x + 1 / 2\<rfloor> - x\<bar> \<le> 1 / 2" by linarith
  with True show ?thesis by (simp add: llround_def)
next
  case False
  have "\<bar>- of_int \<lfloor>1 / 2 - x\<rfloor> - x\<bar> \<le> 1 / 2" by linarith
  with False show ?thesis by (simp add: llround_def)
qed

lemma llround_mono: "x \<le> y \<Longrightarrow> llround x \<le> llround y"
  unfolding llround_def by (auto simp: floor_mono, linarith)

lemma llround_nonneg: "0 \<le> x \<Longrightarrow> 0 \<le> llround x"
  using llround_mono [of 0 x] by (simp add: llround_def)

lemma trunc_nonneg: "0 \<le> x \<Longrightarrow> trunc x = \<lfloor>x\<rfloor>"
  by (simp add: trunc_def)

end
