(* ===== verification/Global_Config.thy ===== *)
theory Global_Config
  imports Floating Spectrum_Transport
begin

text \<open>
  The configuration object of \<^verbatim>\<open>include/Globalcfg.hpp\<close>: observation modes, beams, windows, subbands
  and the settings the components read, with the derived sizes and the final consistency check.
  Members carry a prefix (\<^verbatim>\<open>cfg_\<close>, \<^verbatim>\<open>sb_\<close>, \<^verbatim>\<open>w_\<close>). A C++ \<^verbatim>\<open>int\<close> is an \<open>int\<close>, a \<^verbatim>\<open>double\<close> a
  \<open>dbl\<close>; the encodings of floating-point header fields and the rounding are an \<open>fpu\<close>.
\<close>

section \<open>Data\<close>

datatype ObservationMode = BASEBAND | SPECTRAL | CONTINUUM

datatype BeamId = Beam_A | Beam_B

record NoiseSourceConfig =
  period_ms :: dbl
  duty_cycle :: dbl
  transition_blank_ms :: dbl

text \<open>The machine's rounding to \<^verbatim>\<open>double\<close> and the bit patterns of a \<^verbatim>\<open>double\<close> and of a \<^verbatim>\<open>float\<close>.\<close>

record fpu =
  fl :: "real \<Rightarrow> dbl"
  bits64 :: "dbl \<Rightarrow> u64"
  bits32 :: "dbl \<Rightarrow> u32"

text \<open>A machine without rounding, for evaluation.\<close>

definition exact_fpu :: fpu where
  "exact_fpu = \<lparr>fl = Fin, bits64 = (\<lambda>_. 0), bits32 = (\<lambda>_. 0)\<rparr>"

record WindowConfig =
  w_start_freq :: dbl
  w_end_freq :: dbl
  w_start_idx :: nat
  w_center_freq :: dbl
  w_BW :: dbl
  w_endpoint :: string
  w_server_id :: u16
  w_header :: spectrum_header
  w_port :: int

record SubbandConfig =
  sb_subband_id :: u8
  sb_enable :: bool
  sb_beam :: BeamId
  sb_gpu_id :: int
  sb_start_freq :: dbl
  sb_end_freq :: dbl
  sb_port :: int
  sb_windows :: "WindowConfig list"

record GlobalConfig =
  cfg_receiver_name :: string
  cfg_Debug_mode :: bool
  cfg_ServerID :: int
  cfg_Observation_ID :: string
  cfg_Observation_numeric_id :: u32
  cfg_Storage_node_ip :: string
  cfg_total_nfft :: int
  cfg_win_bw :: dbl
  cfg_win_channels :: int
  cfg_integration_t :: dbl
  cfg_observation_mode :: ObservationMode
  cfg_cal_mode :: bool
  cfg_noise_source :: NoiseSourceConfig
  cfg_Baseband_folder0 :: string
  cfg_Baseband_folder1 :: string
  cfg_Baseband_bits :: int
  cfg_subband_monitor :: bool
  cfg_local_sdfits_enabled :: bool
  cfg_local_sdfits_folder :: string
  cfg_object :: string
  cfg_source_on :: bool
  cfg_local_sdfits_queue_bytes :: u64
  cfg_Memory_pool_per_stream :: u64
  cfg_QUEUE_CAPACITY :: u64
  cfg_subbands :: "SubbandConfig list"

definition max_streams :: nat where "max_streams = 16"
definition sampling_rate :: int where "sampling_rate = 256000000"
definition packet_size :: int where "packet_size = 8192"
definition Max_nfft :: int where "Max_nfft = 65536 * 256"

definition new_GlobalConfig :: GlobalConfig where
  "new_GlobalConfig =
     \<lparr>cfg_receiver_name = ''7mm'', cfg_Debug_mode = False, cfg_ServerID = 0, cfg_Observation_ID = '''',
      cfg_Observation_numeric_id = 0, cfg_Storage_node_ip = '''', cfg_total_nfft = 65536,
      cfg_win_bw = Fin 256000000, cfg_win_channels = 4096, cfg_integration_t = Fin 1,
      cfg_observation_mode = SPECTRAL, cfg_cal_mode = False,
      cfg_noise_source = \<lparr>period_ms = Fin 1000, duty_cycle = Fin 50, transition_blank_ms = Fin 10\<rparr>,
      cfg_Baseband_folder0 = '''', cfg_Baseband_folder1 = '''', cfg_Baseband_bits = 8,
      cfg_subband_monitor = False, cfg_local_sdfits_enabled = False,
      cfg_local_sdfits_folder = ''/data'', cfg_object = '''', cfg_source_on = True,
      cfg_local_sdfits_queue_bytes = 2048 * 1024 * 1024, cfg_Memory_pool_per_stream = 64,
      cfg_QUEUE_CAPACITY = 64, cfg_subbands = []\<rparr>"

section \<open>Derived sizes\<close>

text \<open>The FFT length is positive wherever these are called, so the division truncates as \<open>div\<close>. The cast of
  a quotient that is not finite or beyond \<^verbatim>\<open>int\<close> is undefined in C++; the model then takes the
  truncated real number, or \<open>0\<close>.\<close>

definition cfg_batchsize :: "GlobalConfig \<Rightarrow> int" where
  "cfg_batchsize cfg = cfg_total_nfft cfg div 4096"

definition fft_period :: "fpu \<Rightarrow> GlobalConfig \<Rightarrow> dbl" where
  "fft_period fp cfg = dbl_div (fl fp) (Fin (of_int (cfg_total_nfft cfg))) (Fin (of_int sampling_rate))"

definition integration_time :: "fpu \<Rightarrow> GlobalConfig \<Rightarrow> dbl" where
  "integration_time fp cfg =
     (let q = dbl_div (fl fp) (cfg_integration_t cfg) (fft_period fp cfg);
          N = trunc (real_of_dbl q);
          N = (if N < 1 then 1 else N)
      in dbl_mul (fl fp) (Fin (of_int N)) (fft_period fp cfg))"

definition checkConfig :: "GlobalConfig \<Rightarrow> bool" where
  "checkConfig cfg =
     (let ok = True;
          ok = (if cfg_win_channels cfg \<le> 0 then False else ok);
          ok = (if cfg_total_nfft cfg mod 4096 \<noteq> 0 then False else ok)
      in if cfg_total_nfft cfg < 65536 then False else ok)"

section \<open>Decimal text\<close>

text \<open>\<^verbatim>\<open>std::to_string\<close> of an unsigned number, and the \<^verbatim>\<open>%0<k>u\<close> conversions of \<^verbatim>\<open>printf\<close>.\<close>

fun decimal :: "nat \<Rightarrow> string" where
  "decimal n = (if n < 10 then [char_of (48 + n)] else decimal (n div 10) @ [char_of (48 + n mod 10)])"

declare decimal.simps [simp del]

definition zero_pad :: "nat \<Rightarrow> string \<Rightarrow> string" where
  "zero_pad k s = replicate (k - length s) CHR ''0'' @ s"

definition int_text :: "int \<Rightarrow> string" where
  "int_text i = (if i < 0 then ''-'' @ decimal (nat (- i)) else decimal (nat i))"

definition undecimal :: "string \<Rightarrow> nat" where
  "undecimal = foldl (\<lambda>acc c. 10 * acc + (of_char c - 48)) 0"

definition is_digit :: "char \<Rightarrow> bool" where
  "is_digit c \<longleftrightarrow> (48 :: nat) \<le> of_char c \<and> of_char c \<le> (57 :: nat)"

lemma of_char_digit: "d < 10 \<Longrightarrow> of_char (char_of (48 + d) :: char) = (48 + d :: nat)"
  by (simp add: take_bit_nat_eq_self)

lemma undecimal_append: "undecimal (s @ [c]) = 10 * undecimal s + (of_char c - 48)"
  by (simp add: undecimal_def)

lemma undecimal_decimal [simp]: "undecimal (decimal n) = n"
proof (induction n rule: decimal.induct)
  case (1 n)
  show ?case
  proof (cases "n < 10")
    case True
    then show ?thesis using of_char_digit [of n] by (simp add: decimal.simps [of n] undecimal_def)
  next
    case False
    with 1 have "undecimal (decimal (n div 10)) = n div 10" by simp
    with False show ?thesis
      using of_char_digit [of "n mod 10"] by (simp add: decimal.simps [of n] undecimal_append)
  qed
qed

lemma undecimal_zeros: "undecimal (replicate k CHR ''0'' @ s) = undecimal s"
  by (induction k) (simp_all add: undecimal_def)

lemma undecimal_zero_pad [simp]: "undecimal (zero_pad k (decimal n)) = n"
  by (simp add: zero_pad_def undecimal_zeros)

lemma decimal_digits: "list_all is_digit (decimal n)"
proof (induction n rule: decimal.induct)
  case (1 n)
  then show ?case
    using of_char_digit [of n] of_char_digit [of "n mod 10"]
    by (cases "n < 10") (simp_all add: decimal.simps [of n] is_digit_def)
qed

lemma zero_pad_digits: "list_all is_digit (zero_pad k (decimal n))"
  using decimal_digits [of n] by (auto simp: zero_pad_def list_all_iff is_digit_def)

text \<open>Text that starts with digits followed by a separator determines the digits.\<close>

lemma digits_split:
  assumes "xs @ c # xs' = ys @ d # ys'" "list_all is_digit xs" "list_all is_digit ys"
    "\<not> is_digit c" "\<not> is_digit d"
  shows "xs = ys \<and> c # xs' = d # ys'"
proof -
  have "takeWhile is_digit (xs @ c # xs') = xs" "takeWhile is_digit (ys @ d # ys') = ys"
    using assms(2-5) by (auto simp: list_all_iff takeWhile_append2)
  with assms(1) show ?thesis by simp
qed

section \<open>The checks bound the sizes\<close>

lemma checkConfig_sizes:
  assumes "checkConfig cfg"
  shows "0 < cfg_win_channels cfg" "16 \<le> cfg_batchsize cfg"
    "cfg_total_nfft cfg = 4096 * cfg_batchsize cfg"
  using assms by (auto simp: checkConfig_def cfg_batchsize_def Let_def split: if_splits)

end
