(* ===== verification/Baseband_Recorder.thy ===== *)
theory Baseband_Recorder
  imports Baseband_Quantize Receiver_Delivery Global_Config
begin

text \<open>
  The baseband recorder of \<^verbatim>\<open>include/baseband.hpp\<close>: naming and rotation of output files, the
  in-place quantisation of a dequeued batch, and the gathered write with its retry loop. The file
  system is a map from paths to contents and a table of open descriptors; what the operating system
  decides is an argument: whether the directory exists after the call, the descriptor \<^verbatim>\<open>open\<close>
  returns, and for each \<^verbatim>\<open>writev\<close> whether it is interrupted, fails, or how many bytes it takes.
\<close>

section \<open>The operating system\<close>

record os =
  files :: "string \<rightharpoonup> bytes"
  fds :: "int \<rightharpoonup> string"

datatype writev_result = EINTR | Write_error | Written nat

text \<open>\<^verbatim>\<open>open\<close> with \<^verbatim>\<open>O_CREAT | O_TRUNC\<close>; a negative descriptor is a failure.\<close>

definition os_open :: "string \<Rightarrow> int \<Rightarrow> os \<Rightarrow> os" where
  "os_open path d w =
     (if d < 0 then w else w\<lparr>files := (files w)(path \<mapsto> []), fds := (fds w)(d \<mapsto> path)\<rparr>)"

definition os_close :: "int \<Rightarrow> os \<Rightarrow> os" where
  "os_close d w = w\<lparr>fds := (fds w)(d := None)\<rparr>"

text \<open>The bytes are added at the end: the descriptor is the only one that writes its file.\<close>

definition os_append :: "int \<Rightarrow> bytes \<Rightarrow> os \<Rightarrow> os" where
  "os_append d dat w =
     (case fds w d of
        None \<Rightarrow> w
      | Some path \<Rightarrow> w\<lparr>files := (files w)(path := map_option (\<lambda>c. c @ dat) (files w path))\<rparr>)"

definition content :: "os \<Rightarrow> int \<Rightarrow> bytes" where
  "content w d = (case fds w d of None \<Rightarrow> [] | Some path \<Rightarrow> (case files w path of None \<Rightarrow> [] | Some c \<Rightarrow> c))"

section \<open>The recorder\<close>

definition DEFAULT_MAX_FILE_SIZE :: u64 where "DEFAULT_MAX_FILE_SIZE = 8 * 1024 * 1024 * 1024"
definition FRAME_PAYLOAD :: nat where "FRAME_PAYLOAD = 8192"

record baseband =
  m_stream_id :: nat
  m_subband_id :: nat
  bb_fd :: int
  max_file_size :: u64
  current_size :: u64
  file_index :: u32
  m_folder :: string
  iov :: "bytes list"
  iov_max :: nat

text \<open>\<^verbatim>\<open>std::filesystem::path::operator/\<close> on POSIX.\<close>

definition path_join :: "string \<Rightarrow> string \<Rightarrow> string" where
  "path_join folder name =
     (if name \<noteq> [] \<and> hd name = CHR ''/'' then name
      else if folder = [] \<or> last folder = CHR ''/'' then folder @ name
      else folder @ ''/'' @ name)"

definition output_basename :: "GlobalConfig \<Rightarrow> nat \<Rightarrow> nat \<Rightarrow> u32 \<Rightarrow> string" where
  "output_basename cfg stream subband index =
     (let pol = (if stream mod 2 = 0 then ''X'' else ''Y'');
          beam = (if sb_beam (cfg_subbands cfg ! subband) = Beam_A then ''A'' else ''B'');
          global_subband = nat (cfg_ServerID cfg * 4 + int (subband div 2))
      in cfg_receiver_name cfg @ ''_sb'' @ zero_pad 2 (decimal global_subband) @ ''_'' @ beam @ ''_'' @ pol
         @ ''_part'' @ zero_pad 4 (decimal (unat index)) @ ''.vdif'')"

record create_env =
  directory_ok :: bool
  opened_fd :: int

definition create_file :: "GlobalConfig \<Rightarrow> create_env \<Rightarrow> baseband \<Rightarrow> os \<Rightarrow> bool \<times> baseband \<times> os" where
  "create_file cfg env bb w =
     (if \<not> directory_ok env then (False, bb, w)
      else
        let name = output_basename cfg (m_stream_id bb) (m_subband_id bb) (file_index bb)
        in if length name \<ge> 256 then (False, bb, w)
           else if opened_fd env < 0 then (False, bb, w)
           else
             let w = os_open (path_join (m_folder bb) name) (opened_fd env) w;
                 w = (if bb_fd bb \<ge> 0 then os_close (bb_fd bb) w else w)
             in (True, bb\<lparr>bb_fd := opened_fd env, current_size := 0, file_index := file_index bb + 1\<rparr>, w))"

text \<open>The constructor; \<open>sys\<close> is \<^verbatim>\<open>sysconf(_SC_IOV_MAX)\<close>.\<close>

definition new_baseband :: "GlobalConfig \<Rightarrow> int \<Rightarrow> create_env \<Rightarrow> nat \<Rightarrow> os \<Rightarrow> (baseband \<times> os) result" where
  "new_baseband cfg sys env stream_id w =
     (let bb = \<lparr>m_stream_id = stream_id, m_subband_id = stream_id div 2, bb_fd = - 1,
                max_file_size = DEFAULT_MAX_FILE_SIZE, current_size = 0, file_index = 0,
                m_folder = (if stream_id div 2 < 4 then cfg_Baseband_folder0 cfg
                            else cfg_Baseband_folder1 cfg),
                iov = replicate (nat (cfg_batchsize cfg) * 2) [],
                iov_max = (if sys > 0 then nat sys else 1024)\<rparr>
      in case create_file cfg env bb w of
           (True, bb, w) \<Rightarrow> Inr (bb, w)
         | (False, bb, w) \<Rightarrow> Inl (Runtime_error
             (''baseband: initial output file creation failed for subband '' @ decimal (stream_id div 2))))"

definition destroy_baseband :: "baseband \<Rightarrow> os \<Rightarrow> os" where
  "destroy_baseband bb w = (if bb_fd bb \<ge> 0 then os_close (bb_fd bb) w else w)"

section \<open>The gathered write\<close>

text \<open>The inner loop: whole buffers are skipped, a partly written one is advanced.\<close>

function advance :: "nat \<Rightarrow> nat \<Rightarrow> bytes list \<Rightarrow> nat \<Rightarrow> nat \<times> bytes list" where
  "advance iov_count first v remaining =
     (if remaining \<noteq> 0 \<and> first < iov_count
      then if remaining \<ge> length (v ! first)
           then advance iov_count (first + 1) v (remaining - length (v ! first))
           else advance iov_count first (v[first := drop remaining (v ! first)]) 0
      else (first, v))"
  by pat_completeness auto
termination
  by (relation "measures [\<lambda>(n, f, v, r). n - f, \<lambda>(n, f, v, r). r]") auto

declare advance.simps [simp del]

text \<open>
  One entry of the schedule answers one \<^verbatim>\<open>writev\<close>: \<open>Written n\<close> takes at most \<open>n\<close> of the offered
  bytes. \<open>None\<close> means that the schedule ends before the loop does.
\<close>

primrec write_loop :: "nat \<Rightarrow> writev_result list \<Rightarrow> nat \<Rightarrow> baseband \<Rightarrow> os \<Rightarrow> (bool \<times> baseband \<times> os) option" where
  "write_loop iov_count [] first bb w = (if first < iov_count then None else Some (True, bb, w))"
| "write_loop iov_count (r # rs) first bb w =
     (if first < iov_count then
        let count = min (iov_max bb) (iov_count - first);
            offered = concat (take count (drop first (iov bb)))
        in case r of
             EINTR \<Rightarrow> write_loop iov_count rs first bb w
           | Write_error \<Rightarrow> Some (False, bb, w)
           | Written n \<Rightarrow>
               (let written = min n (length offered)
                in if written = 0 then Some (False, bb, w)
                   else
                     let w = os_append (bb_fd bb) (take written offered) w;
                         (first', v) = advance iov_count first (iov bb) written;
                         bb = bb\<lparr>current_size := current_size bb + of_nat written, iov := v\<rparr>
                     in write_loop iov_count rs first' bb w)
      else Some (True, bb, w))"

definition write_all_iov :: "writev_result list \<Rightarrow> nat \<Rightarrow> baseband \<Rightarrow> os \<Rightarrow> (bool \<times> baseband \<times> os) option" where
  "write_all_iov rs iov_count bb w = write_loop iov_count rs 0 bb w"

section \<open>One batch\<close>

definition quantize_payload :: "bool \<Rightarrow> int \<Rightarrow> bytes \<Rightarrow> bytes" where
  "quantize_payload avx bits p =
     (if bits = 8 then quantize8 avx p FRAME_PAYLOAD
      else if bits = 4 then quantize4 avx p FRAME_PAYLOAD
      else quantize2 p FRAME_PAYLOAD)"

definition payload_len :: "int \<Rightarrow> nat" where
  "payload_len bits = (if bits = 8 then FRAME_PAYLOAD else if bits = 4 then FRAME_PAYLOAD div 2
     else FRAME_PAYLOAD div 4)"

text \<open>The loop over the frames: payload \<open>i\<close> is converted in place and two vectors are set.\<close>

fun fill_iov :: "bool \<Rightarrow> int \<Rightarrow> nat \<Rightarrow> nat \<Rightarrow> PacketBatch \<Rightarrow> bytes list \<Rightarrow> PacketBatch \<times> bytes list" where
  "fill_iov avx bits i 0 b v = (b, v)"
| "fill_iov avx bits i (Suc k) b v =
     (let b = b\<lparr>buffer := (buffer b)[i := quantize_payload avx bits (buffer b ! i)]\<rparr>;
          v = v[2 * i := header_bytes (hdrs b ! i), 2 * i + 1 := take (payload_len bits) (buffer b ! i)]
      in fill_iov avx bits (i + 1) k b v)"

text \<open>A batch that does not fit in the current file starts a new one; a failure to do so is ignored.\<close>

definition rotate_file :: "GlobalConfig \<Rightarrow> create_env \<Rightarrow> u64 \<Rightarrow> baseband \<Rightarrow> os \<Rightarrow> baseband \<times> os" where
  "rotate_file cfg env batch_bytes bb w =
     (if current_size bb \<noteq> 0 \<and> current_size bb + batch_bytes > max_file_size bb
      then snd (create_file cfg env bb w) else (bb, w))"

definition resize :: "nat \<Rightarrow> bytes list \<Rightarrow> bytes list" where
  "resize n v = take n v @ replicate (n - length v) []"

text \<open>
  The body after the dequeue of \<open>b\<close>; the batch is returned with its payloads converted. A batch
  that is refused leaves everything unchanged.
\<close>

definition recoder :: "GlobalConfig \<Rightarrow> bool \<Rightarrow> create_env \<Rightarrow> writev_result list \<Rightarrow> PacketBatch \<Rightarrow>
    baseband \<Rightarrow> os \<Rightarrow> (PacketBatch \<times> baseband \<times> os) option" where
  "recoder cfg avx env rs b bb w =
     (let frames_to_write = batch_count b; bits = cfg_Baseband_bits cfg
      in if frames_to_write < 0 then Some (b, bb, w)
         else if bits \<noteq> 8 \<and> bits \<noteq> 4 \<and> bits \<noteq> 2 then Some (b, bb, w)
         else if nat frames_to_write > length (hdrs b) \<or> nat frames_to_write > length (buffer b)
         then Some (b, bb, w)
         else
           let n = nat frames_to_write;
               payload_bytes = FRAME_PAYLOAD * nat bits div 8;
               batch_bytes = of_nat (n * (HEADER_SIZE + payload_bytes)) :: u64;
               (bb, w) = rotate_file cfg env batch_bytes bb w;
               (b, v) = fill_iov avx bits 0 n b (resize (2 * n) (iov bb))
           in map_option (\<lambda>(_, bb, w). (b, bb, w)) (write_all_iov rs (2 * n) (bb\<lparr>iov := v\<rparr>) w))"

section \<open>The write loop\<close>

lemma os_append_append: "os_append d y (os_append d x w) = os_append d (x @ y) w"
  by (auto simp: os_append_def option.map_comp comp_def split: option.splits)

lemma os_append_Nil [simp]: "os_append d [] w = w"
  by (cases w) (auto simp: os_append_def option.map_ident fun_upd_idem split: option.splits)

text \<open>What is left to write, as one byte list.\<close>

abbreviation pending :: "nat \<Rightarrow> bytes list \<Rightarrow> bytes" where
  "pending first v \<equiv> concat (drop first v)"

lemma pending_step: "first < length v \<Longrightarrow> pending first v = v ! first @ pending (Suc first) v"
  by (simp add: Cons_nth_drop_Suc [symmetric])

lemma pending_update:
  "first < length v \<Longrightarrow> pending first (v[first := x]) = x @ pending (Suc first) v"
  by (simp add: pending_step)

definition nonempty_from :: "nat \<Rightarrow> bytes list \<Rightarrow> bool" where
  "nonempty_from first v \<longleftrightarrow> (\<forall>i < length v. first \<le> i \<longrightarrow> v ! i \<noteq> [])"

lemma advance_spec:
  assumes "iov_count = length v" "remaining \<le> length (pending first v)" "nonempty_from first v"
    and "advance iov_count first v remaining = (first', v')"
  shows "length v' = length v \<and> pending first' v' = drop remaining (pending first v)
    \<and> nonempty_from first' v'"
  using assms
proof (induction iov_count first v remaining rule: advance.induct)
  case (1 n f v r)
  consider (stop) "\<not> (r \<noteq> 0 \<and> f < n)"
    | (skip) "r \<noteq> 0" "f < n" "length (v ! f) \<le> r"
    | (part) "r \<noteq> 0" "f < n" "r < length (v ! f)"
    by linarith
  then show ?case
  proof cases
    case stop
    then have "first' = f" "v' = v" using "1.prems"(4) by (auto simp: advance.simps [of n f v])
    moreover have "r = 0" using stop "1.prems"(1,2) by auto
    ultimately show ?thesis using "1.prems"(3) by simp
  next
    case skip
    then have *: "advance n (f + 1) v (r - length (v ! f)) = (first', v')"
      using "1.prems"(4) by (simp add: advance.simps [of n f])
    have "pending f v = v ! f @ pending (Suc f) v" using skip "1.prems"(1) by (simp add: pending_step)
    then show ?thesis
      using "1.IH"(1) [OF _ skip(3)] skip * "1.prems" by (simp add: nonempty_from_def)
  next
    case part
    let ?v = "v[f := drop r (v ! f)]"
    have "advance n f ?v 0 = (first', v')"
      using part "1.prems"(4) by (simp add: advance.simps [of n f v])
    then have "first' = f" "v' = ?v" by (auto simp: advance.simps [of n f ?v])
    moreover have "pending f v = v ! f @ pending (Suc f) v" using part "1.prems"(1) by (simp add: pending_step)
    ultimately show ?thesis
      using part "1.prems" by (auto simp: pending_update nonempty_from_def nth_list_update)
  qed
qed

text \<open>A call offers a prefix of what is left, which is empty only when nothing is left.\<close>

lemma offered_prefix:
  "concat (take c (drop f v)) = take (length (concat (take c (drop f v)))) (pending f v)"
proof -
  have "pending f v = concat (take c (drop f v)) @ concat (drop c (drop f v))"
    by (metis append_take_drop_id concat_append)
  then show ?thesis by simp
qed

lemma offered_length: "length (concat (take c (drop f v))) \<le> length (pending f v)"
  by (subst offered_prefix) simp

lemma offered_nonempty:
  assumes "nonempty_from f v" "f < length v" "0 < c"
  shows "concat (take c (drop f v)) \<noteq> []"
  using assms by (cases c) (auto simp: nonempty_from_def Cons_nth_drop_Suc [symmetric])

lemma write_join:
  assumes "j \<le> length P" "k \<le> length P - j"
    and "w' = os_append d (take k (drop j P)) (os_append d (take j P) w)"
    and "bb' = bb\<lparr>current_size := current_size bb + of_nat j + of_nat k, iov := v\<rparr>"
    and "ok \<longrightarrow> k = length P - j"
  shows "\<exists>k \<le> length P. w' = os_append d (take k P) w
    \<and> (\<exists>v. bb' = bb\<lparr>current_size := current_size bb + of_nat k, iov := v\<rparr>) \<and> (ok \<longrightarrow> k = length P)"
  using assms by (intro exI [of _ "j + k"]) (auto simp: os_append_append take_add add.assoc)

text \<open>One answered call: it ends the loop, or a positive number of pending bytes moves to the file.\<close>

lemma write_loop_call:
  assumes "first < length (iov bb)" "nonempty_from first (iov bb)"
  shows "n * iov_max bb = 0 \<and> write_loop (length (iov bb)) (Written n # rs) first bb w = Some (False, bb, w)
    \<or> (\<exists>k f' v'. 0 < k \<and> k \<le> length (pending first (iov bb))
        \<and> length v' = length (iov bb) \<and> pending f' v' = drop k (pending first (iov bb))
        \<and> nonempty_from f' v'
        \<and> write_loop (length (iov bb)) (Written n # rs) first bb w
          = write_loop (length v') rs f' (bb\<lparr>current_size := current_size bb + of_nat k, iov := v'\<rparr>)
              (os_append (bb_fd bb) (take k (pending first (iov bb))) w))"
proof -
  let ?v = "iov bb" and ?P = "pending first (iov bb)"
  let ?off = "concat (take (min (iov_max bb) (length ?v - first)) (drop first ?v))"
  obtain k where k: "min n (length ?off) = k" by simp
  obtain f' v' where adv: "advance (length ?v) first ?v k = (f', v')" by fastforce
  have le: "k \<le> length ?P" using offered_length [of _ first ?v] k min.coboundedI2 by blast
  have kl: "k \<le> length ?off" using k by linarith
  have tk: "take k ?off = take k ?P"
    by (subst offered_prefix) (simp only: take_take min_absorb1 [OF kl])
  note a = advance_spec [OF refl le assms(2) adv]
  have run: "write_loop (length ?v) (Written n # rs) first bb w =
      (if k = 0 then Some (False, bb, w)
       else write_loop (length ?v) rs f' (bb\<lparr>current_size := current_size bb + of_nat k, iov := v'\<rparr>)
              (os_append (bb_fd bb) (take k ?P) w))"
    unfolding write_loop.simps(2) if_P [OF assms(1)] Let_def writev_result.case k adv prod.case tk
    by (rule refl)
  show ?thesis
  proof (cases "k = 0")
    case False
    with le a show ?thesis unfolding run
      by (intro disjI2 exI [of _ k] exI [of _ f'] exI [of _ v']) (simp del: write_loop.simps)
  next
    case True
    have "length ?off \<noteq> 0" if "0 < iov_max bb"
      using offered_nonempty [OF assms(2,1), of "min (iov_max bb) (length ?v - first)"] assms(1) that
      unfolding length_0_conv by simp
    then have "n * iov_max bb = 0" using k True by (metis min_def mult_is_0 neq0_conv)
    with True show ?thesis by (simp add: run del: write_loop.simps)
  qed
qed

lemma write_loop_spec:
  assumes "write_loop (length (iov bb)) rs first bb w = Some (ok, bb', w')"
    and "nonempty_from first (iov bb)"
  shows "\<exists>k \<le> length (pending first (iov bb)).
      w' = os_append (bb_fd bb) (take k (pending first (iov bb))) w
    \<and> (\<exists>v. bb' = bb\<lparr>current_size := current_size bb + of_nat k, iov := v\<rparr>)
    \<and> (ok \<longrightarrow> k = length (pending first (iov bb)))"
  using assms
proof (induction rs arbitrary: first bb w)
  case Nil
  then have *: "\<not> first < length (iov bb)" "ok" "bb' = bb" "w' = w" by (auto split: if_splits)
  then show ?case by (intro exI [of _ 0]) (auto intro: exI [of _ "iov bb"])
next
  case (Cons r rs)
  let ?v = "iov bb" and ?P = "pending first (iov bb)"
  have stop: ?case if "bb' = bb" "w' = w" "ok \<longrightarrow> ?P = []"
    using that by (intro exI [of _ 0]) (auto intro: exI [of _ ?v])
  show ?case
  proof (cases "first < length ?v")
    case False
    with Cons.prems(1) stop show ?thesis by simp
  next
    case True
    show ?thesis
    proof (cases r)
      case (Written n)
      from write_loop_call [OF True Cons.prems(2), of n rs w] show ?thesis
      proof (elim disjE exE conjE)
        assume "write_loop (length ?v) (Written n # rs) first bb w = Some (False, bb, w)"
        with Cons.prems(1) Written stop show ?thesis by simp
      next
        fix k f' v'
        let ?bb = "bb\<lparr>current_size := current_size bb + of_nat k, iov := v'\<rparr>"
        assume le: "k \<le> length ?P" and p: "pending f' v' = drop k ?P" and ne: "nonempty_from f' v'"
          and "write_loop (length ?v) (Written n # rs) first bb w
            = write_loop (length v') rs f' ?bb (os_append (bb_fd bb) (take k ?P) w)"
        with Cons.prems(1) Written
        have "write_loop (length (iov ?bb)) rs f' ?bb (os_append (bb_fd bb) (take k ?P) w)
            = Some (ok, bb', w')" "nonempty_from f' (iov ?bb)" by simp_all
        from Cons.IH [OF this] p obtain j v where "j \<le> length ?P - k"
            "w' = os_append (bb_fd bb) (take j (drop k ?P)) (os_append (bb_fd bb) (take k ?P) w)"
            "bb' = bb\<lparr>current_size := current_size bb + of_nat k + of_nat j, iov := v\<rparr>"
            "ok \<longrightarrow> j = length ?P - k" by auto
        then show ?thesis by (rule write_join [OF le])
      qed
    qed (use Cons True stop in simp_all)
  qed
qed

text \<open>The loop ends: every call that is not interrupted makes progress or stops it.\<close>

lemma write_loop_returns:
  assumes "nonempty_from first (iov bb)"
    and "length (pending first (iov bb)) \<le> length (filter (\<lambda>r. r \<noteq> EINTR) rs)"
  shows "\<exists>y. write_loop (length (iov bb)) rs first bb w = Some y"
  using assms
proof (induction rs arbitrary: first bb w)
  case Nil
  then have "\<not> first < length (iov bb)"
    using pending_step [of first "iov bb"] by (auto simp: nonempty_from_def simp del: concat_eq_Nil_conv)
  then show ?case by auto
next
  case (Cons r rs)
  show ?case
  proof (cases "first < length (iov bb)")
    case True
    show ?thesis
    proof (cases r)
      case (Written n)
      from write_loop_call [OF True Cons.prems(1), of n rs w] show ?thesis
      proof (elim disjE exE conjE)
        fix k f' v'
        assume "0 < k" "k \<le> length (pending first (iov bb))"
          "pending f' v' = drop k (pending first (iov bb))" "nonempty_from f' v'"
          and "write_loop (length (iov bb)) (Written n # rs) first bb w
            = write_loop (length v') rs f' (bb\<lparr>current_size := current_size bb + of_nat k, iov := v'\<rparr>)
                (os_append (bb_fd bb) (take k (pending first (iov bb))) w)"
        with Cons.IH [of f' "bb\<lparr>current_size := current_size bb + of_nat k, iov := v'\<rparr>"]
          Cons.prems Written show ?thesis by simp
      qed (use Written in blast)
    qed (use Cons True in auto)
  qed auto
qed

section \<open>The frames of a batch\<close>

lemma quantize_payload_length:
  assumes "length p = FRAME_PAYLOAD"
  shows "length (quantize_payload avx bits p) = FRAME_PAYLOAD"
proof -
  have 8: "length (quantize8 avx p FRAME_PAYLOAD) = FRAME_PAYLOAD"
    using assms by (simp add: quantize8_def quantize8_avx512_scalar quantize8_scalar_def quantize8_loop_result)
  have 4: "length (quantize4 avx p FRAME_PAYLOAD) = FRAME_PAYLOAD"
    using assms length_pack_groups [of 2 pack_pair_list 1 "FRAME_PAYLOAD div 2" p]
    by (simp add: quantize4_def quantize4_avx512_scalar quantize4_scalar_result pack_pair_list_def)
  have 2: "length (quantize2 p FRAME_PAYLOAD) = FRAME_PAYLOAD"
    using assms length_pack_groups [of 4 pack_quad_list 1 "FRAME_PAYLOAD div 4" p]
    by (simp add: quantize2_def q2.loop_result Let_def pack_quad_list_def)
  show ?thesis by (simp add: quantize_payload_def 8 4 2)
qed

definition frame_vectors :: "bool \<Rightarrow> int \<Rightarrow> VDIF \<Rightarrow> bytes \<Rightarrow> bytes list" where
  "frame_vectors avx bits h p = [header_bytes h, take (payload_len bits) (quantize_payload avx bits p)]"

definition frame_bytes :: "bool \<Rightarrow> int \<Rightarrow> VDIF \<Rightarrow> bytes \<Rightarrow> bytes" where
  "frame_bytes avx bits h p = header_bytes h @ take (payload_len bits) (quantize_payload avx bits p)"

text \<open>The file image of a batch: header and converted payload of every frame, in order.\<close>

definition batch_image :: "bool \<Rightarrow> int \<Rightarrow> PacketBatch \<Rightarrow> bytes" where
  "batch_image avx bits b = concat (map2 (frame_bytes avx bits) (hdrs b) (buffer b))"

lemma concat_frame_vectors:
  "concat (concat (map2 (frame_vectors avx bits) hs ps)) = concat (map2 (frame_bytes avx bits) hs ps)"
  by (induction hs ps rule: list_induct2') (simp_all add: frame_vectors_def frame_bytes_def)

lemma fill_iov_gen:
  assumes "length p = 2 * length s" "length u = 2 * k" "k \<le> length t" "length s + k \<le> length (hdrs b)"
  shows "fill_iov avx bits (length s) k (b\<lparr>buffer := s @ t\<rparr>) (p @ u)
    = (b\<lparr>buffer := s @ map (quantize_payload avx bits) (take k t) @ drop k t\<rparr>,
       p @ concat (map2 (frame_vectors avx bits) (take k (drop (length s) (hdrs b))) (take k t)))"
  using assms
proof (induction k arbitrary: s t p u)
  case (Suc k)
  obtain x t' where t: "t = x # t'" using Suc.prems(3) by (cases t) auto
  obtain a c u' where u: "u = a # c # u'" "length u' = 2 * k"
    using Suc.prems(2) by (cases u; cases "tl u") auto
  let ?q = "quantize_payload avx bits x" and ?h = "hdrs b ! length s"
  let ?p = "p @ frame_vectors avx bits ?h x"
  have h: "take (Suc k) (drop (length s) (hdrs b)) = ?h # take k (drop (Suc (length s)) (hdrs b))"
    using Suc.prems(4) by (subst Cons_nth_drop_Suc [symmetric]) simp_all
  have v: "(p @ u)[2 * length s := header_bytes ?h, 2 * length s + 1 := take (payload_len bits) ?q] = ?p @ u'"
    using Suc.prems(1) u(1) by (simp add: list_update_append frame_vectors_def)
  have "fill_iov avx bits (length s) (Suc k) (b\<lparr>buffer := s @ t\<rparr>) (p @ u)
      = fill_iov avx bits (length (s @ [?q])) k (b\<lparr>buffer := (s @ [?q]) @ t'\<rparr>) (?p @ u')"
    by (simp add: Let_def t v [unfolded One_nat_def, simplified] nth_append)
  also have "\<dots> = (b\<lparr>buffer := (s @ [?q]) @ map (quantize_payload avx bits) (take k t') @ drop k t'\<rparr>,
      ?p @ concat (map2 (frame_vectors avx bits) (take k (drop (length (s @ [?q])) (hdrs b))) (take k t')))"
    using Suc.prems u(2) t by (intro Suc.IH) (simp_all add: frame_vectors_def)
  finally show ?case by (simp add: t h)
qed simp

lemma fill_iov_batch:
  assumes "length v = 2 * n" "length (buffer b) = n" "length (hdrs b) = n"
  shows "fill_iov avx bits 0 n b v
    = (b\<lparr>buffer := map (quantize_payload avx bits) (buffer b)\<rparr>,
       concat (map2 (frame_vectors avx bits) (hdrs b) (buffer b)))"
  using fill_iov_gen [of "[]" "[]" v n "buffer b" b avx bits] assms by simp

lemma length_resize [simp]: "length (resize n v) = n"
  by (simp add: resize_def)

lemma nonempty_frame_vectors:
  assumes "\<forall>h \<in> set hs. wf_VDIF h" "\<forall>p \<in> set ps. length p = FRAME_PAYLOAD"
  shows "nonempty_from 0 (concat (map2 (frame_vectors avx bits) hs ps))"
proof -
  have "0 < payload_len bits" "payload_len bits \<le> FRAME_PAYLOAD"
    by (simp_all add: payload_len_def FRAME_PAYLOAD_def)
  then have "x \<noteq> []" if "x \<in> set (frame_vectors avx bits h p)" "h \<in> set hs" "p \<in> set ps" for x h p
    using that assms quantize_payload_length [of p avx bits] by (auto simp: frame_vectors_def wf_VDIF_def HEADER_SIZE_def)
  then have "\<forall>x \<in> set (concat (map2 (frame_vectors avx bits) hs ps)). x \<noteq> []"
    by (auto dest: set_zip_leftD set_zip_rightD)
  then show ?thesis unfolding nonempty_from_def using nth_mem by blast
qed

lemma length_frame_vectors:
  assumes "length hs = length ps"
  shows "length (concat (map2 (frame_vectors avx bits) hs ps)) = 2 * length hs"
  using assms by (induction hs ps rule: list_induct2) (simp_all add: frame_vectors_def)

lemma length_batch_image:
  assumes "length hs = length ps" "\<forall>h \<in> set hs. wf_VDIF h" "\<forall>p \<in> set ps. length p = FRAME_PAYLOAD"
  shows "length (concat (map2 (frame_bytes avx bits) hs ps)) = length hs * (HEADER_SIZE + payload_len bits)"
  using assms
proof (induction hs ps rule: list_induct2)
  case (Cons h hs p ps)
  moreover have "payload_len bits \<le> FRAME_PAYLOAD" by (simp add: payload_len_def)
  ultimately show ?case
    by (simp add: frame_bytes_def wf_VDIF_def quantize_payload_length)
qed simp
section \<open>Output files\<close>

definition part_path :: "GlobalConfig \<Rightarrow> baseband \<Rightarrow> nat \<Rightarrow> string" where
  "part_path cfg bb i =
     path_join (m_folder bb) (output_basename cfg (m_stream_id bb) (m_subband_id bb) (of_nat i))"

text \<open>Everything recorded so far: the parts of the stream in the order of their numbers.\<close>

definition recorded :: "GlobalConfig \<Rightarrow> baseband \<Rightarrow> os \<Rightarrow> bytes" where
  "recorded cfg bb w = concat (map (\<lambda>i. the (files w (part_path cfg bb i))) [0..<unat (file_index bb)])"

definition rec_inv :: "GlobalConfig \<Rightarrow> baseband \<Rightarrow> os \<Rightarrow> bool" where
  "rec_inv cfg bb w \<longleftrightarrow> bb_fd bb \<ge> 0 \<and> 0 < iov_max bb \<and> 0 < unat (file_index bb)
     \<and> fds w (bb_fd bb) = Some (part_path cfg bb (unat (file_index bb) - 1))
     \<and> (\<forall>i < unat (file_index bb). files w (part_path cfg bb i) \<noteq> None)
     \<and> current_size bb = of_nat (length (content w (bb_fd bb)))"

lemma path_join_inj:
  assumes "path_join f x = path_join f y" "x \<noteq> []" "y \<noteq> []" "hd x = hd y"
  shows "x = y"
  using assms by (auto simp: path_join_def split: if_splits)

lemma output_basename_inj:
  assumes "output_basename cfg s sb i = output_basename cfg s sb j"
  shows "i = j"
proof -
  have "zero_pad 4 (decimal (unat i)) = zero_pad 4 (decimal (unat j))"
    using assms by (simp add: output_basename_def Let_def)
  then have "unat i = unat j" by (metis undecimal_zero_pad)
  then show ?thesis by (simp add: word_eq_unat)
qed

lemma part_path_inj:
  assumes "part_path cfg bb i = part_path cfg bb j" "i < 2 ^ 32" "j < 2 ^ 32"
  shows "i = j"
proof -
  let ?n = "\<lambda>i. output_basename cfg (m_stream_id bb) (m_subband_id bb) (of_nat i)"
  have "hd (?n i) = hd (?n j)" "?n i \<noteq> []" "?n j \<noteq> []"
    by (cases "cfg_receiver_name cfg"; simp add: output_basename_def Let_def)+
  then have "?n i = ?n j" using assms(1) path_join_inj unfolding part_path_def by blast
  then have "(of_nat i :: u32) = of_nat j" by (rule output_basename_inj)
  then show ?thesis using assms(2,3) by (simp add: word_eq_unat unat_of_nat)
qed

lemma part_path_cong [simp]:
  "part_path cfg (bb\<lparr>current_size := c\<rparr>) = part_path cfg bb"
  "part_path cfg (bb\<lparr>iov := v\<rparr>) = part_path cfg bb"
  "part_path cfg (bb\<lparr>bb_fd := d\<rparr>) = part_path cfg bb"
  "part_path cfg (bb\<lparr>file_index := k\<rparr>) = part_path cfg bb"
  by (simp_all add: part_path_def fun_eq_iff)

text \<open>An append to the open file extends the last part.\<close>

lemma rec_append:
  assumes inv: "rec_inv cfg bb w"
  shows "rec_inv cfg (bb\<lparr>current_size := current_size bb + of_nat (length x), iov := v\<rparr>) (os_append (bb_fd bb) x w)"
    "recorded cfg bb (os_append (bb_fd bb) x w) = recorded cfg bb w @ x"
    "content (os_append (bb_fd bb) x w) (bb_fd bb) = content w (bb_fd bb) @ x"
proof -
  let ?n = "unat (file_index bb)"
  let ?p = "part_path cfg bb"
  have "?n - 1 < ?n" "files w (?p i) \<noteq> None" if "i < ?n" for i using inv that by (auto simp: rec_inv_def)
  then obtain c where c: "fds w (bb_fd bb) = Some (?p (?n - 1))" "files w (?p (?n - 1)) = Some c" "0 < ?n"
    using inv unfolding rec_inv_def by blast
  have w': "os_append (bb_fd bb) x w = w\<lparr>files := (files w)(?p (?n - 1) \<mapsto> c @ x)\<rparr>"
    using c by (simp add: os_append_def)
  have lt: "?n < 2 ^ 32" using unsigned_less [of "file_index bb"] by simp
  have other: "?p i \<noteq> ?p (?n - 1)" if "i < ?n - 1" for i
  proof
    assume "?p i = ?p (?n - 1)"
    then have "i = ?n - 1" by (rule part_path_inj) (use that lt in linarith)+
    with that show False by simp
  qed
  show ct: "content (os_append (bb_fd bb) x w) (bb_fd bb) = content w (bb_fd bb) @ x"
    using c by (simp add: w' content_def)
  show "rec_inv cfg (bb\<lparr>current_size := current_size bb + of_nat (length x), iov := v\<rparr>) (os_append (bb_fd bb) x w)"
    using inv ct by (auto simp: rec_inv_def w')
  have "[0..<?n] = [0..<?n - 1] @ [?n - 1]" using c(3) by (metis Suc_diff_1 upt_Suc_append zero_le)
  moreover have m: "map (\<lambda>i. the (((files w)(?p (?n - 1) \<mapsto> c @ x)) (?p i))) [0..<?n - 1]
      = map (\<lambda>i. the (files w (?p i))) [0..<?n - 1]"
    using other by (intro map_cong) auto
  ultimately show "recorded cfg bb (os_append (bb_fd bb) x w) = recorded cfg bb w @ x"
    using c arg_cong [OF m, of concat] by (simp add: recorded_def w' del: map_eq_conv)
qed

text \<open>Rotation opens the next part and leaves everything recorded in place.\<close>

lemma rec_create:
  assumes inv: "rec_inv cfg bb w" and fresh: "opened_fd env \<notin> dom (fds w)"
    and room: "unat (file_index bb) + 1 < 2 ^ 32" and cr: "create_file cfg env bb w = (ok, bb', w')"
  shows "rec_inv cfg bb' w'" "recorded cfg bb' w' = recorded cfg bb w"
    "ok \<Longrightarrow> content w' (bb_fd bb') = [] \<and> unat (file_index bb') = unat (file_index bb) + 1"
    "\<not> ok \<Longrightarrow> bb' = bb \<and> w' = w"
    "max_file_size bb' = max_file_size bb \<and> iov bb' = iov bb \<and> iov_max bb' = iov_max bb"
    "unat (file_index bb') \<le> unat (file_index bb) + 1"
    "part_path cfg bb' = part_path cfg bb"
    "\<And>i. i < unat (file_index bb) \<Longrightarrow> files w' (part_path cfg bb i) = files w (part_path cfg bb i)"
proof -
  let ?n = "unat (file_index bb)" and ?d = "opened_fd env" and ?p = "part_path cfg bb"
  have "(ok \<and> 0 \<le> ?d \<and> bb' = bb\<lparr>bb_fd := ?d, current_size := 0, file_index := file_index bb + 1\<rparr>
      \<and> w' = w\<lparr>files := (files w)(?p ?n \<mapsto> []), fds := (fds w)(?d \<mapsto> ?p ?n, bb_fd bb := None)\<rparr>)
    \<or> (\<not> ok \<and> bb' = bb \<and> w' = w)"
    using cr inv by (auto simp: create_file_def Let_def os_open_def os_close_def rec_inv_def part_path_def
        split: if_splits)
  moreover have "rec_inv cfg bb' w' \<and> recorded cfg bb' w' = recorded cfg bb w
      \<and> content w' (bb_fd bb') = [] \<and> unat (file_index bb') = ?n + 1
      \<and> part_path cfg bb' = ?p \<and> (\<forall>i < ?n. files w' (?p i) = files w (?p i))"
    if ok: "0 \<le> ?d" "bb' = bb\<lparr>bb_fd := ?d, current_size := 0, file_index := file_index bb + 1\<rparr>"
      "w' = w\<lparr>files := (files w)(?p ?n \<mapsto> []), fds := (fds w)(?d \<mapsto> ?p ?n, bb_fd bb := None)\<rparr>"
  proof -
    have n: "unat (file_index bb + 1) = ?n + 1" using room by (subst unat_add_exact) simp_all
    have ne: "?d \<noteq> bb_fd bb" using fresh inv by (auto simp: rec_inv_def)
    have old: "?p i \<noteq> ?p ?n" if "i < ?n" for i using part_path_inj [of cfg bb i ?n] that room by auto
    have m: "map (\<lambda>i. the (((files w)(?p ?n \<mapsto> [])) (?p i))) [0..<?n] = map (\<lambda>i. the (files w (?p i))) [0..<?n]"
      using old by (intro map_cong) auto
    have "recorded cfg bb' w' = recorded cfg bb w"
      using arg_cong [OF m, of concat] ok n by (simp add: recorded_def del: map_eq_conv)
    moreover have "rec_inv cfg bb' w'" using ok n ne inv by (simp add: rec_inv_def content_def less_Suc_eq)
    moreover have "content w' (bb_fd bb') = []" using ok ne by (simp add: content_def)
    ultimately show ?thesis using ok n old by simp
  qed
  ultimately show "rec_inv cfg bb' w'" "recorded cfg bb' w' = recorded cfg bb w"
    "ok \<Longrightarrow> content w' (bb_fd bb') = [] \<and> unat (file_index bb') = unat (file_index bb) + 1"
    "\<not> ok \<Longrightarrow> bb' = bb \<and> w' = w"
    "max_file_size bb' = max_file_size bb \<and> iov bb' = iov bb \<and> iov_max bb' = iov_max bb"
    "unat (file_index bb') \<le> unat (file_index bb) + 1"
    "part_path cfg bb' = part_path cfg bb"
    "\<And>i. i < unat (file_index bb) \<Longrightarrow> files w' (part_path cfg bb i) = files w (part_path cfg bb i)"
    using inv by auto
qed
section \<open>Recording a batch\<close>

text \<open>A schedule without failures: no error and no call that takes nothing.\<close>

definition no_failure :: "writev_result list \<Rightarrow> bool" where
  "no_failure rs \<longleftrightarrow> (\<forall>r \<in> set rs. r = EINTR \<or> (\<exists>n > 0. r = Written n))"

lemma write_loop_complete:
  assumes "write_loop (length (iov bb)) rs first bb w = Some (ok, bb', w')"
    and "no_failure rs" "nonempty_from first (iov bb)" "0 < iov_max bb"
  shows ok
  using assms
proof (induction rs arbitrary: first bb w)
  case (Cons r rs)
  show ?case
  proof (cases "first < length (iov bb)")
    case True
    consider "r = EINTR" | n where "r = Written n" "0 < n" using Cons.prems(2) by (auto simp: no_failure_def)
    then show ?thesis
    proof cases
      case 1
      with Cons True show ?thesis by (simp add: no_failure_def)
    next
      case (2 n)
      from write_loop_call [OF True Cons.prems(3), of n rs w] show ?thesis
      proof (elim disjE exE conjE)
        fix k f' v'
        assume "nonempty_from f' v'"
          and "write_loop (length (iov bb)) (Written n # rs) first bb w
            = write_loop (length v') rs f' (bb\<lparr>current_size := current_size bb + of_nat k, iov := v'\<rparr>)
                (os_append (bb_fd bb) (take k (pending first (iov bb))) w)"
        with Cons.IH [of "bb\<lparr>current_size := current_size bb + of_nat k, iov := v'\<rparr>" f'] Cons.prems 2 show ?thesis
          by (simp add: no_failure_def)
      qed (use 2 Cons.prems(4) in simp)
    qed
  qed (use Cons.prems(1) in simp)
qed (simp split: if_splits)

definition recordable :: "PacketBatch \<Rightarrow> bool" where
  "recordable b \<longleftrightarrow> batch_count b = int (length (hdrs b)) \<and> length (buffer b) = length (hdrs b)
     \<and> (\<forall>h \<in> set (hdrs b). wf_VDIF h) \<and> (\<forall>p \<in> set (buffer b). length p = FRAME_PAYLOAD)"

definition valid_bits :: "int \<Rightarrow> bool" where
  "valid_bits bits \<longleftrightarrow> bits = 8 \<or> bits = 4 \<or> bits = 2"

lemma payload_len_eq: "valid_bits bits \<Longrightarrow> FRAME_PAYLOAD * nat bits div 8 = payload_len bits"
  by (auto simp: valid_bits_def payload_len_def FRAME_PAYLOAD_def)

lemma recoder_eq:
  assumes "recordable b" "valid_bits (cfg_Baseband_bits cfg)"
    and "rotate_file cfg env (of_nat (length (batch_image avx (cfg_Baseband_bits cfg) b))) bb w = (bb1, w1)"
  defines "V \<equiv> concat (map2 (frame_vectors avx (cfg_Baseband_bits cfg)) (hdrs b) (buffer b))"
  shows "recoder cfg avx env rs b bb w =
    map_option (\<lambda>(ok, bb, w). (b\<lparr>buffer := map (quantize_payload avx (cfg_Baseband_bits cfg)) (buffer b)\<rparr>, bb, w))
      (write_loop (length (iov (bb1\<lparr>iov := V\<rparr>))) rs 0 (bb1\<lparr>iov := V\<rparr>) w1)"
proof -
  let ?bits = "cfg_Baseband_bits cfg" and ?n = "length (hdrs b)"
  have b: "batch_count b = int ?n" "length (buffer b) = ?n" "\<forall>h \<in> set (hdrs b). wf_VDIF h"
      "\<forall>p \<in> set (buffer b). length p = FRAME_PAYLOAD"
    using assms(1) by (simp_all add: recordable_def)
  have im: "length (batch_image avx ?bits b) = ?n * (HEADER_SIZE + FRAME_PAYLOAD * nat ?bits div 8)"
    using length_batch_image [of "hdrs b" "buffer b" avx ?bits] b payload_len_eq [OF assms(2)]
    by (simp add: batch_image_def)
  have V: "length V = 2 * ?n" unfolding V_def using b(2) by (intro length_frame_vectors) simp
  have "fill_iov avx ?bits 0 ?n b (resize (2 * ?n) (iov bb1))
      = (b\<lparr>buffer := map (quantize_payload avx ?bits) (buffer b)\<rparr>, V)"
    unfolding V_def using b(2) by (intro fill_iov_batch) simp_all
  moreover have "\<not> (?bits \<noteq> 8 \<and> ?bits \<noteq> 4 \<and> ?bits \<noteq> 2)" using assms(2) by (auto simp: valid_bits_def)
  ultimately show ?thesis
    using b(1,2) V assms(3) unfolding recoder_def Let_def write_all_iov_def im
    by (auto simp: case_prod_beta' simp del: write_loop.simps of_nat_mult)
qed

lemma pending_vectors:
  assumes "recordable b"
  shows "pending 0 (concat (map2 (frame_vectors avx bits) (hdrs b) (buffer b))) = batch_image avx bits b"
    "nonempty_from 0 (concat (map2 (frame_vectors avx bits) (hdrs b) (buffer b)))"
  using assms nonempty_frame_vectors [of "hdrs b" "buffer b"]
  by (simp_all add: concat_frame_vectors batch_image_def recordable_def)

text \<open>What rotation does to the recorded data: nothing.\<close>

lemma rotate_file_spec:
  assumes inv: "rec_inv cfg bb w" and fresh: "opened_fd env \<notin> dom (fds w)"
    and room: "unat (file_index bb) + 1 < 2 ^ 32" and rot: "rotate_file cfg env n bb w = (bb1, w1)"
  shows "rec_inv cfg bb1 w1 \<and> recorded cfg bb1 w1 = recorded cfg bb w
    \<and> unat (file_index bb1) \<le> unat (file_index bb) + 1 \<and> iov_max bb1 = iov_max bb"
proof (cases "current_size bb \<noteq> 0 \<and> current_size bb + n > max_file_size bb")
  case True
  obtain ok where "create_file cfg env bb w = (ok, bb1, w1)"
    using rot True by (metis rotate_file_def prod.collapse)
  from rec_create [OF inv fresh room this] show ?thesis by blast
next
  case False
  with rot have "bb1 = bb" "w1 = w" by (auto simp: rotate_file_def)
  with inv show ?thesis by simp
qed

lemma recorded_cong: "recorded cfg (bb\<lparr>current_size := c, iov := v\<rparr>) w = recorded cfg bb w"
  by (simp add: recorded_def)

lemma recoder_step:
  assumes inv: "rec_inv cfg bb w" and fresh: "opened_fd env \<notin> dom (fds w)"
    and room: "unat (file_index bb) + 1 < 2 ^ 32"
    and b: "recordable b" "valid_bits (cfg_Baseband_bits cfg)"
    and rc: "recoder cfg avx env rs b bb w = Some (b', bb', w')"
  shows "b' = b\<lparr>buffer := map (quantize_payload avx (cfg_Baseband_bits cfg)) (buffer b)\<rparr>
    \<and> rec_inv cfg bb' w' \<and> unat (file_index bb') \<le> unat (file_index bb) + 1
    \<and> (\<exists>k \<le> length (batch_image avx (cfg_Baseband_bits cfg) b).
         recorded cfg bb' w' = recorded cfg bb w @ take k (batch_image avx (cfg_Baseband_bits cfg) b)
       \<and> (no_failure rs \<longrightarrow> k = length (batch_image avx (cfg_Baseband_bits cfg) b)))"
proof -
  let ?bits = "cfg_Baseband_bits cfg"
  let ?V = "concat (map2 (frame_vectors avx ?bits) (hdrs b) (buffer b))"
  obtain bb1 w1 where rot: "rotate_file cfg env (of_nat (length (batch_image avx ?bits b))) bb w = (bb1, w1)"
    by fastforce
  note r = rotate_file_spec [OF inv fresh room rot]
  obtain ok where run: "write_loop (length (iov (bb1\<lparr>iov := ?V\<rparr>))) rs 0 (bb1\<lparr>iov := ?V\<rparr>) w1 = Some (ok, bb', w')"
      and b': "b' = b\<lparr>buffer := map (quantize_payload avx ?bits) (buffer b)\<rparr>"
    using rc unfolding recoder_eq [OF b rot] by auto
  note p = pending_vectors [OF b(1), of avx ?bits]
  have ok: "ok" if "no_failure rs"
    by (rule write_loop_complete [OF run that]) (use p(2) r in \<open>simp_all add: rec_inv_def\<close>)
  obtain k v where k: "k \<le> length (batch_image avx ?bits b)"
      "w' = os_append (bb_fd bb1) (take k (batch_image avx ?bits b)) w1"
      "bb' = bb1\<lparr>current_size := current_size bb1 + of_nat k, iov := v\<rparr>"
      "ok \<longrightarrow> k = length (batch_image avx ?bits b)"
    using write_loop_spec [OF run] p by auto
  have len: "length (take k (batch_image avx ?bits b)) = k" using k(1) by simp
  have i1: "rec_inv cfg bb1 w1" using r by blast
  note app = rec_append(1) [OF i1, of v "take k (batch_image avx ?bits b)", unfolded len]
    rec_append(2) [OF i1, of "take k (batch_image avx ?bits b)"]
  have "recorded cfg bb' w' = recorded cfg bb w @ take k (batch_image avx ?bits b)"
    using app(2) r by (simp add: k(2,3) recorded_cong)
  moreover have "rec_inv cfg bb' w'" using app(1) by (simp add: k(2,3))
  ultimately show ?thesis using r b' k ok by auto
qed

lemma recoder_returns:
  assumes b: "recordable b" "valid_bits (cfg_Baseband_bits cfg)"
    and "length (batch_image avx (cfg_Baseband_bits cfg) b) \<le> length (filter (\<lambda>r. r \<noteq> EINTR) rs)"
  shows "\<exists>y. recoder cfg avx env rs b bb w = Some y"
proof -
  obtain bb1 w1 where rot: "rotate_file cfg env (of_nat (length (batch_image avx (cfg_Baseband_bits cfg) b))) bb w = (bb1, w1)"
    by fastforce
  let ?V = "concat (map2 (frame_vectors avx (cfg_Baseband_bits cfg)) (hdrs b) (buffer b))"
  have "\<exists>y. write_loop (length (iov (bb1\<lparr>iov := ?V\<rparr>))) rs 0 (bb1\<lparr>iov := ?V\<rparr>) w1 = Some y"
    by (rule write_loop_returns) (use pending_vectors [OF b(1)] assms(3) in simp_all)
  then show ?thesis unfolding recoder_eq [OF b rot] by auto
qed

section \<open>A whole recording\<close>

text \<open>The loop of \<^verbatim>\<open>baseband_thread\<close> over the batches it dequeues, with what the system answers.\<close>

primrec baseband_thread :: "GlobalConfig \<Rightarrow> bool \<Rightarrow> (create_env \<times> writev_result list \<times> PacketBatch) list \<Rightarrow>
    baseband \<Rightarrow> os \<Rightarrow> (baseband \<times> os) option" where
  "baseband_thread cfg avx [] bb w = Some (bb, w)"
| "baseband_thread cfg avx (x # xs) bb w =
     (case x of (env, rs, b) \<Rightarrow>
        (case recoder cfg avx env rs b bb w of
           None \<Rightarrow> None
         | Some (_, bb, w) \<Rightarrow> baseband_thread cfg avx xs bb w))"

text \<open>\<^verbatim>\<open>open\<close> never returns a descriptor that is in use.\<close>

primrec fresh_run :: "GlobalConfig \<Rightarrow> bool \<Rightarrow> (create_env \<times> writev_result list \<times> PacketBatch) list \<Rightarrow>
    baseband \<Rightarrow> os \<Rightarrow> bool" where
  "fresh_run cfg avx [] bb w = True"
| "fresh_run cfg avx (x # xs) bb w =
     (case x of (env, rs, b) \<Rightarrow> opened_fd env \<notin> dom (fds w)
        \<and> (case recoder cfg avx env rs b bb w of
             None \<Rightarrow> True
           | Some (_, bb, w) \<Rightarrow> fresh_run cfg avx xs bb w))"

definition good_input :: "GlobalConfig \<Rightarrow> bool \<Rightarrow> create_env \<times> writev_result list \<times> PacketBatch \<Rightarrow> bool" where
  "good_input cfg avx x \<longleftrightarrow>
     (case x of (env, rs, b) \<Rightarrow> recordable b \<and> no_failure rs
        \<and> length (batch_image avx (cfg_Baseband_bits cfg) b) \<le> length (filter (\<lambda>r. r \<noteq> EINTR) rs))"

lemma new_baseband_inv:
  assumes "new_baseband cfg sys env s w0 = Inr (bb, w)"
  shows "rec_inv cfg bb w" "recorded cfg bb w = []" "unat (file_index bb) = 1"
    "max_file_size bb = DEFAULT_MAX_FILE_SIZE" "content w (bb_fd bb) = []"
    "m_stream_id bb = s" "m_subband_id bb = s div 2"
proof -
  have "rec_inv cfg bb w \<and> recorded cfg bb w = [] \<and> unat (file_index bb) = 1
    \<and> max_file_size bb = DEFAULT_MAX_FILE_SIZE \<and> content w (bb_fd bb) = []
    \<and> m_stream_id bb = s \<and> m_subband_id bb = s div 2"
    using assms
    by (auto simp: new_baseband_def create_file_def Let_def rec_inv_def recorded_def part_path_def
        os_open_def content_def split: if_splits)
  then show "rec_inv cfg bb w" "recorded cfg bb w = []" "unat (file_index bb) = 1"
    "max_file_size bb = DEFAULT_MAX_FILE_SIZE" "content w (bb_fd bb) = []"
    "m_stream_id bb = s" "m_subband_id bb = s div 2" by blast+
qed

lemma baseband_thread_complete:
  assumes "rec_inv cfg bb w" "valid_bits (cfg_Baseband_bits cfg)" "list_all (good_input cfg avx) xs"
    and "fresh_run cfg avx xs bb w" "unat (file_index bb) + length xs < 2 ^ 32"
  shows "\<exists>bb' w'. baseband_thread cfg avx xs bb w = Some (bb', w')
    \<and> recorded cfg bb' w' = recorded cfg bb w
        @ concat (map (\<lambda>(env, rs, b). batch_image avx (cfg_Baseband_bits cfg) b) xs)"
  using assms
proof (induction xs arbitrary: bb w)
  case (Cons x xs)
  obtain env rs b where x: "x = (env, rs, b)" by (cases x)
  have g: "recordable b" "no_failure rs"
      "length (batch_image avx (cfg_Baseband_bits cfg) b) \<le> length (filter (\<lambda>r. r \<noteq> EINTR) rs)"
    using Cons.prems(3) x by (simp_all add: good_input_def)
  obtain b' bb1 w1 where rc: "recoder cfg avx env rs b bb w = Some (b', bb1, w1)"
    using recoder_returns [OF g(1) Cons.prems(2) g(3)] by (metis prod_cases3)
  have "opened_fd env \<notin> dom (fds w)" using Cons.prems(4) x by simp
  from recoder_step [OF Cons.prems(1) this _ g(1) Cons.prems(2) rc] Cons.prems(5) g(2)
  have s: "rec_inv cfg bb1 w1" "unat (file_index bb1) \<le> unat (file_index bb) + 1"
      "recorded cfg bb1 w1 = recorded cfg bb w @ batch_image avx (cfg_Baseband_bits cfg) b" by auto
  have "fresh_run cfg avx xs bb1 w1" using Cons.prems(4) x rc by simp
  with Cons.IH [OF s(1) Cons.prems(2) _ this] Cons.prems(3,5) s(2,3) show ?case by (simp add: x rc)
qed simp

section \<open>File sizes\<close>

definition size_ok :: "GlobalConfig \<Rightarrow> baseband \<Rightarrow> os \<Rightarrow> bool" where
  "size_ok cfg bb w \<longleftrightarrow>
     (\<forall>i < unat (file_index bb). length (the (files w (part_path cfg bb i))) \<le> unat (max_file_size bb))"

lemma content_part:
  assumes "rec_inv cfg bb w"
  shows "content w (bb_fd bb) = the (files w (part_path cfg bb (unat (file_index bb) - 1)))"
proof -
  have "files w (part_path cfg bb (unat (file_index bb) - 1)) \<noteq> None"
    using assms unfolding rec_inv_def by (meson diff_less zero_less_one)
  then obtain c where "files w (part_path cfg bb (unat (file_index bb) - 1)) = Some c" by blast
  then show ?thesis using assms by (simp add: content_def rec_inv_def)
qed

lemma size_append:
  assumes "rec_inv cfg bb w" "size_ok cfg bb w"
    and "length (content w (bb_fd bb)) + length x \<le> unat (max_file_size bb)"
  shows "size_ok cfg bb (os_append (bb_fd bb) x w)"
proof -
  let ?n = "unat (file_index bb) - 1"
  have fd: "fds w (bb_fd bb) = Some (part_path cfg bb ?n)" using assms(1) by (simp add: rec_inv_def)
  have "length (the (files (os_append (bb_fd bb) x w) (part_path cfg bb i))) \<le> unat (max_file_size bb)"
    if "i < unat (file_index bb)" for i
  proof (cases "part_path cfg bb i = part_path cfg bb ?n")
    case True
    have "files w (part_path cfg bb i) \<noteq> None" using assms(1) that by (simp add: rec_inv_def)
    then show ?thesis using assms(3) True fd content_part [OF assms(1)] by (auto simp: os_append_def)
  next
    case False
    then show ?thesis using assms(2) that fd by (simp add: os_append_def size_ok_def)
  qed
  then show ?thesis by (simp add: size_ok_def)
qed

lemma rotate_file_size:
  assumes inv: "rec_inv cfg bb w" "size_ok cfg bb w" and fresh: "opened_fd env \<notin> dom (fds w)"
    and room: "unat (file_index bb) + 1 < 2 ^ 32" and rot: "rotate_file cfg env (of_nat n) bb w = (bb1, w1)"
    and env: "directory_ok env" "0 \<le> opened_fd env"
      "length (output_basename cfg (m_stream_id bb) (m_subband_id bb) (file_index bb)) < 256"
    and n: "n \<le> unat (max_file_size bb)" "unat (max_file_size bb) < 2 ^ 63"
  shows "size_ok cfg bb1 w1 \<and> length (content w1 (bb_fd bb1)) + n \<le> unat (max_file_size bb1)
    \<and> max_file_size bb1 = max_file_size bb"
proof (cases "current_size bb \<noteq> 0 \<and> current_size bb + of_nat n > max_file_size bb")
  case True
  have "create_file cfg env bb w = (True, bb1, w1)"
    using rot True env by (auto simp: rotate_file_def create_file_def Let_def)
  note c = rec_create [OF inv(1) fresh room this]
  have "size_ok cfg bb1 w1" unfolding size_ok_def
  proof (intro allI impI)
    fix i assume i: "i < unat (file_index bb1)"
    show "length (the (files w1 (part_path cfg bb1 i))) \<le> unat (max_file_size bb1)"
    proof (cases "i < unat (file_index bb)")
      case True
      then show ?thesis using c(5,7,8) inv(2) by (simp add: size_ok_def)
    next
      case False
      then have "i = unat (file_index bb1) - 1" using i c(3) by simp
      then show ?thesis using content_part [OF c(1)] c(3) by simp
    qed
  qed
  then show ?thesis using c(3,5) n by simp
next
  case False
  let ?l = "length (content w (bb_fd bb))"
  have same: "bb1 = bb" "w1 = w" using False rot by (auto simp: rotate_file_def)
  have "unat (file_index bb) - 1 < unat (file_index bb)" using inv(1) by (simp add: rec_inv_def)
  then have l: "?l \<le> unat (max_file_size bb)"
    using inv(2) content_part [OF inv(1)] by (simp add: size_ok_def)
  have cs: "unat (current_size bb) = ?l"
    using inv(1) l n(2) by (simp add: rec_inv_def unat_of_nat)
  have un: "unat (of_nat n :: u64) = n" using n by (simp add: unat_of_nat)
  have "unat (current_size bb + of_nat n) = ?l + n"
    using cs un l n by (subst unat_add_exact) simp_all
  then have "?l + n \<le> unat (max_file_size bb)"
    using False cs n(1) by (auto simp: word_less_nat_alt not_less)
  then show ?thesis using inv(2) same by simp
qed

lemma recoder_fields:
  assumes "recordable b" "valid_bits (cfg_Baseband_bits cfg)" "rec_inv cfg bb1 w1"
    and "rotate_file cfg env (of_nat (length (batch_image avx (cfg_Baseband_bits cfg) b))) bb w = (bb1, w1)"
    and "recoder cfg avx env rs b bb w = Some (b', bb', w')"
  shows "\<exists>k v. k \<le> length (batch_image avx (cfg_Baseband_bits cfg) b)
    \<and> bb' = bb1\<lparr>current_size := current_size bb1 + of_nat k, iov := v\<rparr>
    \<and> w' = os_append (bb_fd bb1) (take k (batch_image avx (cfg_Baseband_bits cfg) b)) w1"
proof -
  let ?V = "concat (map2 (frame_vectors avx (cfg_Baseband_bits cfg)) (hdrs b) (buffer b))"
  obtain ok where "write_loop (length (iov (bb1\<lparr>iov := ?V\<rparr>))) rs 0 (bb1\<lparr>iov := ?V\<rparr>) w1 = Some (ok, bb', w')"
    using assms(5) unfolding recoder_eq [OF assms(1,2,4)] by auto
  from write_loop_spec [OF this] pending_vectors [OF assms(1)] show ?thesis by auto
qed

text \<open>The names of all parts fit the buffer of \<^verbatim>\<open>snprintf\<close>, and every rotation succeeds.\<close>

definition rotation_ok :: "GlobalConfig \<Rightarrow> bool \<Rightarrow> nat \<Rightarrow> create_env \<times> writev_result list \<times> PacketBatch \<Rightarrow> bool" where
  "rotation_ok cfg avx limit x \<longleftrightarrow>
     (case x of (env, rs, b) \<Rightarrow> recordable b \<and> directory_ok env \<and> 0 \<le> opened_fd env
        \<and> length (batch_image avx (cfg_Baseband_bits cfg) b) \<le> limit)"

lemma baseband_thread_sizes:
  assumes "rec_inv cfg bb w" "size_ok cfg bb w" "valid_bits (cfg_Baseband_bits cfg)"
    and "list_all (rotation_ok cfg avx (unat (max_file_size bb))) xs" "unat (max_file_size bb) < 2 ^ 63"
    and "\<forall>i. length (output_basename cfg (m_stream_id bb) (m_subband_id bb) i) < 256"
    and "fresh_run cfg avx xs bb w" "unat (file_index bb) + length xs < 2 ^ 32"
    and "baseband_thread cfg avx xs bb w = Some (bb', w')"
  shows "size_ok cfg bb' w' \<and> max_file_size bb' = max_file_size bb"
  using assms
proof (induction xs arbitrary: bb w)
  case (Cons x xs)
  obtain env rs b where x: "x = (env, rs, b)" by (cases x)
  let ?I = "batch_image avx (cfg_Baseband_bits cfg) b"
  have g: "recordable b" "directory_ok env" "0 \<le> opened_fd env" "length ?I \<le> unat (max_file_size bb)"
    using Cons.prems(4) x by (simp_all add: rotation_ok_def)
  obtain b' bb2 w2 where rc: "recoder cfg avx env rs b bb w = Some (b', bb2, w2)"
      and rest: "baseband_thread cfg avx xs bb2 w2 = Some (bb', w')"
    using Cons.prems(9) x by (auto split: option.splits)
  have fresh: "opened_fd env \<notin> dom (fds w)" and room: "unat (file_index bb) + 1 < 2 ^ 32"
    using Cons.prems(7,8) x by simp_all
  obtain bb1 w1 where rot: "rotate_file cfg env (of_nat (length ?I)) bb w = (bb1, w1)" by fastforce
  have i1: "rec_inv cfg bb1 w1" using rotate_file_spec [OF Cons.prems(1) fresh room rot] by blast
  have sz: "size_ok cfg bb1 w1" "length (content w1 (bb_fd bb1)) + length ?I \<le> unat (max_file_size bb1)"
      "max_file_size bb1 = max_file_size bb"
    using rotate_file_size [OF Cons.prems(1,2) fresh room rot g(2,3) _ g(4) Cons.prems(5)] Cons.prems(6)
    by blast+
  obtain k v where k: "k \<le> length ?I" "bb2 = bb1\<lparr>current_size := current_size bb1 + of_nat k, iov := v\<rparr>"
      "w2 = os_append (bb_fd bb1) (take k ?I) w1"
    using recoder_fields [OF g(1) Cons.prems(3) i1 rot rc] by blast
  have "size_ok cfg bb1 w2" unfolding k(3) using sz k(1) by (intro size_append [OF i1]) simp_all
  then have "size_ok cfg bb2 w2" "max_file_size bb2 = max_file_size bb"
    using k(2) sz(3) by (simp_all add: size_ok_def)
  moreover have "m_stream_id bb2 = m_stream_id bb" "m_subband_id bb2 = m_subband_id bb"
    using rot k(2) by (auto simp: rotate_file_def create_file_def Let_def split: if_splits)
  moreover note recoder_step [OF Cons.prems(1) fresh room g(1) Cons.prems(3) rc]
  moreover have "fresh_run cfg avx xs bb2 w2" using Cons.prems(7) x rc by simp
  ultimately show ?case
    using Cons.IH [of bb2 w2] Cons.prems(3,4,5,6,8) rest by simp
qed simp

section \<open>Names\<close>

lemma half_eqI: "a div 2 = b div 2 \<Longrightarrow> even a = even b \<Longrightarrow> a = b" for a b :: nat
  by (metis even_two_times_div_two odd_two_times_div_two_succ)

lemma basename_stream_inj:
  assumes beams: "\<And>k. k < 4 \<Longrightarrow> sb_beam (cfg_subbands cfg ! (2 * k)) = Beam_A"
      "\<And>k. k < 4 \<Longrightarrow> sb_beam (cfg_subbands cfg ! (2 * k + 1)) = Beam_B"
    and "0 \<le> cfg_ServerID cfg" "s < 16" "s' < 16"
    and eq: "output_basename cfg s (s div 2) i = output_basename cfg s' (s' div 2) j"
  shows "s = s'"
proof -
  let ?b = "\<lambda>s :: nat. if sb_beam (cfg_subbands cfg ! (s div 2)) = Beam_A then CHR ''A'' else CHR ''B''"
  let ?p = "\<lambda>s :: nat. if s mod 2 = 0 then CHR ''X'' else CHR ''Y''"
  let ?g = "\<lambda>s :: nat. nat (cfg_ServerID cfg * 4 + int (s div 2 div 2))"
  have "zero_pad 2 (decimal (?g s)) @ CHR ''_'' # ?b s # CHR ''_'' # ?p s # ''_part'' @ zero_pad 4 (decimal (unat i)) @ ''.vdif''
      = zero_pad 2 (decimal (?g s')) @ CHR ''_'' # ?b s' # CHR ''_'' # ?p s' # ''_part'' @ zero_pad 4 (decimal (unat j)) @ ''.vdif''"
    using eq by (simp add: output_basename_def Let_def split: if_splits)
  from digits_split [OF this zero_pad_digits zero_pad_digits]
  have d: "zero_pad 2 (decimal (?g s)) = zero_pad 2 (decimal (?g s'))" "?b s = ?b s'" "?p s = ?p s'"
    by (auto simp: is_digit_def)
  then have "?g s = ?g s'" by (metis undecimal_zero_pad)
  then have q: "s div 2 div 2 = s' div 2 div 2" using assms(3) by (subst (asm) eq_nat_nat_iff) simp_all
  have beam: "?b s = (if even (s div 2) then CHR ''A'' else CHR ''B'')" if "s < 16" for s
  proof (cases "even (s div 2)")
    case True
    then obtain k where "s div 2 = 2 * k" by (elim evenE)
    then show ?thesis using beams(1) [of k] that by simp
  next
    case False
    then obtain k where "s div 2 = 2 * k + 1" by (elim oddE)
    then show ?thesis using beams(2) [of k] that by simp
  qed
  have "even (s div 2) = even (s' div 2)" using d(2) beam [OF assms(4)] beam [OF assms(5)] by (auto split: if_splits)
  with q have "s div 2 = s' div 2" by (rule half_eqI)
  moreover have "even s = even s'" using d(3) by (auto split: if_splits)
  ultimately show ?thesis by (rule half_eqI)
qed

text \<open>A name without a separator is the last component of the joined path.\<close>

lemma path_join_last:
  assumes "CHR ''/'' \<notin> set name"
  shows "rev (takeWhile (\<lambda>c. c \<noteq> CHR ''/'') (rev (path_join folder name))) = name"
proof -
  have n: "takeWhile (\<lambda>c. c \<noteq> CHR ''/'') (rev name @ CHR ''/'' # xs) = rev name" for xs
    using assms by (subst takeWhile_append2) auto
  have a: "\<not> (name \<noteq> [] \<and> hd name = CHR ''/'')" using assms hd_in_set by metis
  show ?thesis
  proof (cases "folder = []")
    case True
    moreover have "takeWhile (\<lambda>c. c \<noteq> CHR ''/'') (rev name) = rev name" using assms by auto
    ultimately show ?thesis unfolding path_join_def if_not_P [OF a] by (simp del: takeWhile_eq_all_conv)
  next
    case False
    then obtain f c where f: "folder = f @ [c]" by (metis append_butlast_last_id)
    show ?thesis
      using n [of "rev f"] n [of "rev folder"] unfolding path_join_def if_not_P [OF a] f
      by (cases "c = CHR ''/''") simp_all
  qed
qed

section \<open>The samples of a missing frame\<close>

lemma swap8_zero: "swap8 (replicate n 0x80) = replicate n 0"
  by (induction n rule: induct_nat_012) simp_all

lemma pack_groups_zero:
  "f (replicate k 0x80) = [0] \<Longrightarrow> c * k \<le> n \<Longrightarrow> pack_groups k f c (replicate n 0x80) = replicate c 0"
  by (induction c arbitrary: n) simp_all

lemma quantize_payload_zero:
  assumes "valid_bits bits"
  shows "take (payload_len bits) (quantize_payload avx bits (replicate FRAME_PAYLOAD 0x80))
    = replicate (payload_len bits) 0"
proof -
  let ?p = "replicate FRAME_PAYLOAD 0x80 :: bytes"
  have 8: "quantize8 avx ?p FRAME_PAYLOAD = replicate FRAME_PAYLOAD 0"
    by (simp add: quantize8_def quantize8_avx512_scalar quantize8_scalar_def quantize8_loop_result swap8_zero)
  have "pack_pair_list (replicate 2 0x80) = [0]" by (simp add: pack_pair_list_def pack_pair_def numeral_2_eq_2)
  then have "pack_groups 2 pack_pair_list (FRAME_PAYLOAD div 2) ?p = replicate (FRAME_PAYLOAD div 2) 0"
    by (rule pack_groups_zero) simp
  then have 4: "take (FRAME_PAYLOAD div 2) (quantize4 avx ?p FRAME_PAYLOAD) = replicate (FRAME_PAYLOAD div 2) 0"
    by (simp add: quantize4_def quantize4_avx512_scalar quantize4_scalar_result)
  have "pack_quad_list (replicate 4 0x80) = [0]" by (simp add: pack_quad_list_def pack_quad_def numeral_eq_Suc)
  then have "pack_groups 4 pack_quad_list (FRAME_PAYLOAD div 4) ?p = replicate (FRAME_PAYLOAD div 4) 0"
    by (rule pack_groups_zero) simp
  then have 2: "take (FRAME_PAYLOAD div 4) (quantize2 ?p FRAME_PAYLOAD) = replicate (FRAME_PAYLOAD div 4) 0"
    by (simp add: quantize2_def q2.loop_result Let_def)
  show ?thesis using assms 8 4 2 by (auto simp: valid_bits_def quantize_payload_def payload_len_def)
qed

text \<open>Frame \<open>k\<close> of a batch image.\<close>

lemma batch_image_frame:
  assumes "recordable b" "k < length (hdrs b)"
  shows "take (HEADER_SIZE + payload_len bits) (drop (k * (HEADER_SIZE + payload_len bits)) (batch_image avx bits b))
    = frame_bytes avx bits (hdrs b ! k) (buffer b ! k)"
proof -
  let ?F = "HEADER_SIZE + payload_len bits"
  have "take ?F (drop (k * ?F) (concat (map2 (frame_bytes avx bits) hs ps))) = frame_bytes avx bits (hs ! k) (ps ! k)"
    if "length hs = length ps" "\<forall>h \<in> set hs. wf_VDIF h" "\<forall>p \<in> set ps. length p = FRAME_PAYLOAD" "k < length hs"
    for hs ps
    using that
  proof (induction hs ps arbitrary: k rule: list_induct2)
    case (Cons h hs p ps)
    have "payload_len bits \<le> FRAME_PAYLOAD" by (simp add: payload_len_def)
    then have l: "length (frame_bytes avx bits h p) = ?F"
      using Cons.prems by (simp add: frame_bytes_def wf_VDIF_def quantize_payload_length)
    show ?case using Cons l by (cases k) simp_all
  qed simp
  then show ?thesis using assms by (simp add: batch_image_def recordable_def)
qed

lemma wf_batch_recordable: "wf_batch cfg b \<Longrightarrow> recordable b"
  by (auto simp: wf_batch_def shape_def recordable_def FRAME_PAYLOAD_def VDIF_PAYLOAD_LEN_def)

section \<open>Properties\<close>

text \<open>
  C7. A recording is complete and in order: when the system never fails a write, the recorder of a
  stream processes every batch, and the parts of the stream, joined in the order of their numbers, are
  exactly the headers and converted payloads of all frames of all batches, however the writes were
  split, interrupted or spread over rotated files.
\<close>

theorem recording_complete:
  assumes "new_baseband cfg sys env s w0 = Inr (bb, w)" "valid_bits (cfg_Baseband_bits cfg)"
    and "list_all (good_input cfg avx) xs" "fresh_run cfg avx xs bb w" "length xs + 1 < 2 ^ 32"
  shows "\<exists>bb' w'. baseband_thread cfg avx xs bb w = Some (bb', w')
    \<and> recorded cfg bb' w' = concat (map (\<lambda>(env, rs, b). batch_image avx (cfg_Baseband_bits cfg) b) xs)"
  using baseband_thread_complete [OF new_baseband_inv(1) [OF assms(1)] assms(2-4)] assms(5)
    new_baseband_inv(2,3) [OF assms(1)] by simp

text \<open>A concrete recording: one batch of one frame, written one byte at a time.\<close>

definition demo_subband :: "BeamId \<Rightarrow> SubbandConfig" where
  "demo_subband b = \<lparr>sb_subband_id = 0, sb_enable = True, sb_beam = b, sb_gpu_id = 0, sb_start_freq = Fin 0,
     sb_end_freq = Fin 0, sb_port = 0, sb_windows = []\<rparr>"

definition demo_global :: GlobalConfig where
  "demo_global = new_GlobalConfig\<lparr>cfg_observation_mode := BASEBAND, cfg_Baseband_folder0 := ''/d0'',
     cfg_Baseband_folder1 := ''/d1'', cfg_subbands := concat (replicate 4 [demo_subband Beam_A, demo_subband Beam_B])\<rparr>"

definition demo_input :: "create_env \<times> writev_result list \<times> PacketBatch" where
  "demo_input = (\<lparr>directory_ok = True, opened_fd = 4\<rparr>, EINTR # replicate 8224 (Written 1), allocatePacketBatch 1)"

lemma demo_global_sel [simp]: "cfg_Baseband_bits demo_global = 8" "cfg_ServerID demo_global = 0"
    "cfg_receiver_name demo_global = ''7mm''"
  by (simp_all add: demo_global_def new_GlobalConfig_def)

lemma demo_recordable: "recordable (allocatePacketBatch 1)"
  by (simp add: recordable_def allocatePacketBatch_def wf_new_VDIF FRAME_PAYLOAD_def VDIF_PAYLOAD_LEN_def)

lemma demo_image_length: "length (batch_image avx 8 (allocatePacketBatch 1)) = 8224"
  using length_batch_image [of "hdrs (allocatePacketBatch 1)" "buffer (allocatePacketBatch 1)" avx 8] demo_recordable
  by (simp add: batch_image_def recordable_def payload_len_def FRAME_PAYLOAD_def HEADER_SIZE_def allocatePacketBatch_def)

lemma demo_good_input: "good_input demo_global avx demo_input" "rotation_ok demo_global avx (2 ^ 33) demo_input"
  using demo_recordable demo_image_length
  by (simp_all add: good_input_def rotation_ok_def demo_input_def no_failure_def)

lemma short_name:
  "length (output_basename demo_global 0 0 i) < 256"
proof -
  have d: "length (decimal n) \<le> n + 1" for n
  proof (induction n rule: decimal.induct)
    case (1 n)
    then show ?case by (cases "n < 10") (auto simp: decimal.simps [of n])
  qed
  have "length (decimal n) \<le> 10" if "n < 2 ^ 32" for n
  proof -
    have "length (decimal n) \<le> k" if "n < 10 ^ k" "0 < k" for k
      using that
    proof (induction k arbitrary: n)
      case (Suc k)
      then show ?case
        by (cases "n < 10"; cases k) (auto simp: decimal.simps [of n] less_mult_imp_div_less mult.commute)
    qed simp
    from this [of 10] that show ?thesis by simp
  qed
  from this [of "unat i"] have "length (decimal (unat i)) \<le> 10" using unsigned_less [of i] by simp
  moreover have "length (decimal 0) = 1" by (simp add: decimal.simps)
  ultimately show ?thesis by (simp add: output_basename_def Let_def zero_pad_def)
qed

lemma demo_start:
  "\<exists>bb w. new_baseband demo_global 0 \<lparr>directory_ok = True, opened_fd = 3\<rparr> 0 \<lparr>files = Map.empty, fds = Map.empty\<rparr> = Inr (bb, w)
    \<and> fresh_run demo_global avx [demo_input] bb w"
proof -
  obtain bb w where nb: "new_baseband demo_global 0 \<lparr>directory_ok = True, opened_fd = 3\<rparr> 0
      \<lparr>files = Map.empty, fds = Map.empty\<rparr> = Inr (bb, w)" "fds w 4 = None"
    using short_name [of 0] by (auto simp: new_baseband_def create_file_def Let_def os_open_def not_le)
  then have "fresh_run demo_global avx [demo_input] bb w"
    by (auto simp: demo_input_def split: option.splits)
  then show ?thesis using nb by blast
qed

theorem recording_complete_witness:
  "\<exists>bb w bb' w'. baseband_thread demo_global True [demo_input] bb w = Some (bb', w')
    \<and> recorded demo_global bb' w' = batch_image True 8 (allocatePacketBatch 1)"
proof -
  obtain bb w where nb: "new_baseband demo_global 0 \<lparr>directory_ok = True, opened_fd = 3\<rparr> 0 \<lparr>files = Map.empty, fds = Map.empty\<rparr> = Inr (bb, w)"
      "fresh_run demo_global True [demo_input] bb w" using demo_start by blast
  from recording_complete [OF nb(1) _ _ nb(2)] demo_good_input(1) show ?thesis
    by (auto simp: valid_bits_def demo_input_def simp del: baseband_thread.simps)
qed

text \<open>
  C39. The retry loop of the gathered write ends: with non-empty buffers it returns as soon as the
  system has answered as many calls without interruption as there are bytes to write, and at most the
  pending bytes, a prefix of the joined buffers, have then been appended; if no call failed it is all of
  them.
\<close>

theorem write_all_iov_terminates:
  assumes "nonempty_from 0 (iov bb)" "length (concat (iov bb)) \<le> length (filter (\<lambda>r. r \<noteq> EINTR) rs)"
  shows "\<exists>ok bb' w' k. write_all_iov rs (length (iov bb)) bb w = Some (ok, bb', w')
    \<and> w' = os_append (bb_fd bb) (take k (concat (iov bb))) w
    \<and> current_size bb' = current_size bb + of_nat k \<and> k \<le> length (concat (iov bb))
    \<and> (no_failure rs \<and> 0 < iov_max bb \<longrightarrow> ok \<and> k = length (concat (iov bb)))"
proof -
  obtain ok bb' w' where run: "write_loop (length (iov bb)) rs 0 bb w = Some (ok, bb', w')"
    using write_loop_returns [of 0 bb rs w] assms by (auto simp del: write_loop.simps)
  have "no_failure rs \<and> 0 < iov_max bb \<longrightarrow> ok" using write_loop_complete [OF run] assms(1) by blast
  moreover obtain k v where "k \<le> length (concat (iov bb))"
      "w' = os_append (bb_fd bb) (take k (concat (iov bb))) w"
      "bb' = bb\<lparr>current_size := current_size bb + of_nat k, iov := v\<rparr>"
      "ok \<longrightarrow> k = length (concat (iov bb))"
    using write_loop_spec [OF run assms(1)] by auto
  ultimately show ?thesis using run unfolding write_all_iov_def
    by (intro exI [of _ ok] exI [of _ bb'] exI [of _ w'] exI [of _ k]) simp
qed

theorem write_all_iov_terminates_witness:
  "\<exists>ok bb' w'. write_all_iov [EINTR, Written 1, Written 5] 1
     \<lparr>m_stream_id = 0, m_subband_id = 0, bb_fd = 3, max_file_size = 8, current_size = 0, file_index = 1,
      m_folder = '''', iov = [[1, 2]], iov_max = 4\<rparr> \<lparr>files = Map.empty, fds = Map.empty\<rparr> = Some (ok, bb', w') \<and> ok"
  using write_all_iov_terminates [of "\<lparr>m_stream_id = 0, m_subband_id = 0, bb_fd = 3, max_file_size = 8,
      current_size = 0, file_index = 1, m_folder = '''', iov = [[1, 2]], iov_max = 4\<rparr>"
      "[EINTR, Written 1, Written 5]" "\<lparr>files = Map.empty, fds = Map.empty\<rparr>"]
  by (auto simp: nonempty_from_def no_failure_def)

text \<open>
  C40. Rotation bounds the files: as long as the system can create files and no single batch is larger
  than the limit, no part of a recording exceeds 8 GiB, whatever the writes do.
\<close>

theorem file_size_bound:
  assumes "new_baseband cfg sys env s w0 = Inr (bb, w)" "valid_bits (cfg_Baseband_bits cfg)"
    and "list_all (rotation_ok cfg avx (2 ^ 33)) xs" "\<forall>i. length (output_basename cfg s (s div 2) i) < 256"
    and "fresh_run cfg avx xs bb w" "length xs + 1 < 2 ^ 32"
    and "baseband_thread cfg avx xs bb w = Some (bb', w')" "i < unat (file_index bb')"
  shows "length (the (files w' (part_path cfg bb' i))) \<le> 8 * 1024 * 1024 * 1024"
proof -
  note n = new_baseband_inv [OF assms(1)]
  have m: "unat (max_file_size bb) = 2 ^ 33" using n(4) by (simp add: DEFAULT_MAX_FILE_SIZE_def)
  have "size_ok cfg bb w" using n(3,5) content_part [OF n(1)] by (simp add: size_ok_def)
  from baseband_thread_sizes [OF n(1) this assms(2) _ _ _ assms(5) _ assms(7)] assms(3,4,6) n(3,6,7) m
  have "size_ok cfg bb' w'" "max_file_size bb' = max_file_size bb" by simp_all
  then show ?thesis using assms(8) m by (simp add: size_ok_def)
qed

theorem file_size_bound_witness:
  "\<exists>bb w bb' w'. baseband_thread demo_global True [demo_input] bb w = Some (bb', w') \<and> 0 < unat (file_index bb')
    \<and> length (the (files w' (part_path demo_global bb' 0))) \<le> 8 * 1024 * 1024 * 1024"
proof -
  obtain bb w where nb: "new_baseband demo_global 0 \<lparr>directory_ok = True, opened_fd = 3\<rparr> 0 \<lparr>files = Map.empty, fds = Map.empty\<rparr> = Inr (bb, w)"
      "fresh_run demo_global True [demo_input] bb w" using demo_start by blast
  note n = new_baseband_inv [OF nb(1)]
  have vb: "valid_bits (cfg_Baseband_bits demo_global)" by (simp add: valid_bits_def)
  obtain env rs b where d: "demo_input = (env, rs, b)" by (cases demo_input)
  have g: "recordable b" "length (batch_image True (cfg_Baseband_bits demo_global) b) \<le> length (filter (\<lambda>r. r \<noteq> EINTR) rs)"
    using demo_good_input(1) [of True] unfolding good_input_def d by simp_all
  obtain b' bb' w' where rc: "recoder demo_global True env rs b bb w = Some (b', bb', w')"
    using recoder_returns [OF g(1) vb g(2)] by (metis prod_cases3)
  have run: "baseband_thread demo_global True [demo_input] bb w = Some (bb', w')" unfolding d using rc by simp
  have "opened_fd env \<notin> dom (fds w)" using nb(2) unfolding d by simp
  from recoder_step [OF n(1) this _ g(1) vb rc] n(3) have "0 < unat (file_index bb')" by (simp add: rec_inv_def)
  with file_size_bound [OF nb(1) vb _ _ nb(2) _ run] demo_good_input(2) short_name show ?thesis
    using run by (intro exI [of _ bb] exI [of _ w] exI [of _ bb'] exI [of _ w']) simp
qed

text \<open>
  No two streams write the same file: with the A/B pairs of subbands the configuration requires and
  a receiver name without a path separator, the parts of two different streams have different paths.
\<close>

theorem streams_use_distinct_files:
  assumes "\<forall>k < 4. sb_beam (cfg_subbands cfg ! (2 * k)) = Beam_A \<and> sb_beam (cfg_subbands cfg ! (2 * k + 1)) = Beam_B"
    and "0 \<le> cfg_ServerID cfg" "CHR ''/'' \<notin> set (cfg_receiver_name cfg)" "s < 16" "s' < 16" "s \<noteq> s'"
  shows "path_join folder (output_basename cfg s (s div 2) i) \<noteq> path_join folder' (output_basename cfg s' (s' div 2) j)"
proof
  assume eq: "path_join folder (output_basename cfg s (s div 2) i) = path_join folder' (output_basename cfg s' (s' div 2) j)"
  have d: "CHR ''/'' \<notin> set (zero_pad k (decimal n))" for k n
    using zero_pad_digits [of k n] by (auto simp: list_all_iff is_digit_def)
  have "CHR ''/'' \<notin> set (output_basename cfg s sb i)" for s sb i
    using assms(3) d by (auto simp: output_basename_def Let_def)
  then have "output_basename cfg s (s div 2) i = output_basename cfg s' (s' div 2) j"
    using path_join_last eq by metis
  then have "s = s'" using assms by (intro basename_stream_inj [of cfg s s' i j]) simp_all
  with assms(6) show False by simp
qed

theorem streams_use_distinct_files_witness:
  "path_join ''/d0'' (output_basename demo_global 0 0 0) \<noteq> path_join ''/d0'' (output_basename demo_global 1 0 0)"
proof -
  have "k = 0 \<or> k = 1 \<or> k = 2 \<or> k = 3" if "k < 4" for k :: nat using that by linarith
  then have "\<forall>k < 4. sb_beam (cfg_subbands demo_global ! (2 * k)) = Beam_A
      \<and> sb_beam (cfg_subbands demo_global ! (2 * k + 1)) = Beam_B"
    by (fastforce simp: demo_global_def demo_subband_def numeral_eq_Suc)
  from streams_use_distinct_files [OF this, of 0 1 "''/d0''" 0 "''/d0''" 0] show ?thesis by simp
qed



end
