(* ===== verification/Gpu_Kernels.thy ===== *)
theory Gpu_Kernels
  imports Complex_Main SL_Prelude
begin

text \<open>
  The CUDA kernels of \<^verbatim>\<open>include/DoPFBFFT.hpp\<close>. A kernel is the function of one thread on the arrays it
  writes, and a launch runs the threads of its grid one after the other; threads of a launch write
  different elements, except in the block reduction, which is modelled in lockstep phases. A \<^verbatim>\<open>float\<close> is
  a real number and every operation is followed by a rounding \<open>rnd\<close>, an argument of the kernels.
\<close>

section \<open>Arithmetic\<close>

type_synonym complexf = "real \<times> real"
type_synonym float4 = "real \<times> real \<times> real \<times> real"

definition fmaf :: "(real \<Rightarrow> real) \<Rightarrow> real \<Rightarrow> real \<Rightarrow> real \<Rightarrow> real" where
  "fmaf rnd a b c = rnd (a * b + c)"

definition fmul :: "(real \<Rightarrow> real) \<Rightarrow> real \<Rightarrow> real \<Rightarrow> real" where
  "fmul rnd a b = rnd (a * b)"

definition fadd :: "(real \<Rightarrow> real) \<Rightarrow> real \<Rightarrow> real \<Rightarrow> real" where
  "fadd rnd a b = rnd (a + b)"

section \<open>Launches\<close>

definition block_size :: nat where "block_size = 256"

definition grid_size :: "nat \<Rightarrow> nat" where
  "grid_size n = (n + block_size - 1) div block_size"

definition launch :: "nat \<Rightarrow> (nat \<Rightarrow> 'a \<Rightarrow> 'a) \<Rightarrow> 'a \<Rightarrow> 'a" where
  "launch n thread st = fold thread [0..<grid_size n * block_size] st"

section \<open>Kernels\<close>

definition stokes_IQUV_accumulate :: "(real \<Rightarrow> real) \<Rightarrow> complexf list \<Rightarrow> complexf list \<Rightarrow> nat \<Rightarrow>
    nat \<Rightarrow> float4 list \<Rightarrow> float4 list" where
  "stokes_IQUV_accumulate rnd A B N idx acc =
     (if idx \<ge> N then acc
      else
        let (x_re, x_im) = A ! idx; (y_re, y_im) = B ! idx;
            xx = fmaf rnd x_re x_re (fmul rnd x_im x_im);
            yy = fmaf rnd y_re y_re (fmul rnd y_im y_im);
            x_rey_im = fmul rnd x_re y_im;
            x_imy_re = fmul rnd x_im y_re;
            (sx, sy, sz, sw) = acc ! idx
        in acc[idx := (fadd rnd sx xx, fadd rnd sy yy, fadd rnd sz x_rey_im, fadd rnd sw x_imy_re)])"

text \<open>The loop over the taps, with the index wrapped by one subtraction.\<close>

fun pfb_taps :: "(real \<Rightarrow> real) \<Rightarrow> complexf list \<Rightarrow> real list \<Rightarrow> nat \<Rightarrow> nat \<Rightarrow> nat \<Rightarrow> nat \<Rightarrow>
    nat \<Rightarrow> nat \<Rightarrow> complexf \<Rightarrow> complexf" where
  "pfb_taps rnd ring taps N num_taps head p t 0 acc = acc"
| "pfb_taps rnd ring taps N num_taps head p t (Suc k) acc =
     (let W = num_taps * N;
          idx = head + t * N + p;
          idx = (if idx \<ge> W then idx - W else idx);
          vin = ring ! idx;
          ht = taps ! (t * N + p)
      in pfb_taps rnd ring taps N num_taps head p (t + 1) k
           (fmaf rnd (fst vin) ht (fst acc), fmaf rnd (snd vin) ht (snd acc)))"

definition kernel_pfb_sum :: "(real \<Rightarrow> real) \<Rightarrow> complexf list \<Rightarrow> real list \<Rightarrow> nat \<Rightarrow> nat \<Rightarrow> nat \<Rightarrow>
    nat \<Rightarrow> complexf list \<Rightarrow> complexf list" where
  "kernel_pfb_sum rnd ring taps N num_taps head p output =
     (if p \<ge> N then output
      else output[p := pfb_taps rnd ring taps N num_taps head p 0 num_taps (0, 0)])"

definition iq_scale :: "(real \<Rightarrow> real) \<Rightarrow> real" where "iq_scale rnd = rnd (1 / 127)"

definition convert_sample :: "(real \<Rightarrow> real) \<Rightarrow> u8 \<Rightarrow> u8 \<Rightarrow> complexf" where
  "convert_sample rnd x y =
     (fmul rnd (of_int (uint y - 128)) (iq_scale rnd), fmul rnd (of_int (uint x - 128)) (iq_scale rnd))"

definition uint8_offsetIQ_to_ring :: "(real \<Rightarrow> real) \<Rightarrow> bytes \<Rightarrow> nat \<Rightarrow> nat \<Rightarrow> nat \<Rightarrow>
    nat \<Rightarrow> complexf list \<Rightarrow> complexf list" where
  "uint8_offsetIQ_to_ring rnd src N head W idx ring =
     (if idx \<ge> N then ring
      else ring[(head + idx) mod W := convert_sample rnd (src ! (2 * idx)) (src ! (2 * idx + 1))])"

definition fftshift_1d :: "nat \<Rightarrow> nat \<Rightarrow> complexf list \<Rightarrow> complexf list" where
  "fftshift_1d N idx dat =
     (if idx < N div 2
      then dat[idx := dat ! (idx + N div 2), idx + N div 2 := dat ! idx]
      else dat)"

text \<open>
  One block of the power reduction: every thread puts its power in shared memory, then the upper half
  is folded onto the lower half, with a barrier between the steps down to \<open>64\<close> elements and the first
  warp in lockstep below.
\<close>

definition thread_power :: "(real \<Rightarrow> real) \<Rightarrow> complexf list \<Rightarrow> complexf list \<Rightarrow> nat \<Rightarrow> nat \<Rightarrow> real" where
  "thread_power rnd A B N idx =
     (if idx < N then
        let (ax, ay) = A ! idx; (bx, by') = B ! idx
        in fadd rnd (fmaf rnd ax ax (fmul rnd ay ay)) (fmaf rnd bx bx (fmul rnd by' by'))
      else 0)"

definition reduce_step :: "(real \<Rightarrow> real) \<Rightarrow> nat \<Rightarrow> nat \<Rightarrow> real list \<Rightarrow> real list" where
  "reduce_step rnd active s sdata =
     map (\<lambda>tid. if tid < active then fadd rnd (sdata ! tid) (sdata ! (tid + s)) else sdata ! tid)
       [0..<length sdata]"

definition reduce_block :: "(real \<Rightarrow> real) \<Rightarrow> real list \<Rightarrow> real" where
  "reduce_block rnd sdata =
     fold (reduce_step rnd 32) [32, 16, 8, 4, 2, 1]
       (fold (\<lambda>s. reduce_step rnd s s) [128, 64] sdata) ! 0"

definition continuum_block :: "(real \<Rightarrow> real) \<Rightarrow> complexf list \<Rightarrow> complexf list \<Rightarrow> nat \<Rightarrow> nat \<Rightarrow> real \<Rightarrow> real" where
  "continuum_block rnd A B N b sumPower =
     fadd rnd sumPower
       (reduce_block rnd (map (\<lambda>tid. thread_power rnd A B N (b * block_size + tid)) [0..<block_size]))"

definition continuum_power_accumulate :: "(real \<Rightarrow> real) \<Rightarrow> complexf list \<Rightarrow> complexf list \<Rightarrow> nat \<Rightarrow> real \<Rightarrow> real" where
  "continuum_power_accumulate rnd A B N sumPower =
     fold (continuum_block rnd A B N) [0..<grid_size N] sumPower"

section \<open>Launches that write one element per thread\<close>

lemma grid_covers: "n \<le> grid_size n * block_size"
proof -
  have "(n + 255) div 256 * 256 + (n + 255) mod 256 = n + 255" "(n + 255) mod 256 < 256" by simp_all
  then have "n \<le> (n + 255) div 256 * 256" by linarith
  then show ?thesis by (simp add: grid_size_def block_size_def)
qed

lemma launch_fold: "launch n f st = fold f [n..<grid_size n * block_size] (fold f [0..<n] st)"
proof -
  have "[0..<grid_size n * block_size] = [0..<n] @ [n..<grid_size n * block_size]"
    using grid_covers [of n] by (metis le_add_diff_inverse upt_add_eq_append zero_le)
  then show ?thesis by (simp add: launch_def)
qed

text \<open>Threads beyond the array do nothing.\<close>

lemma launch_guarded:
  assumes "\<And>i st. n \<le> i \<Longrightarrow> f i st = st"
  shows "launch n f st = fold f [0..<n] st"
proof -
  have "fold f xs st = st" if "\<forall>i \<in> set xs. n \<le> i" for xs st
    using that by (induction xs arbitrary: st) (auto simp: assms)
  then show ?thesis by (simp add: launch_fold)
qed

lemma fold_own_element:
  assumes "n \<le> length xs"
  shows "fold (\<lambda>i xs. xs[i := f i (xs ! i)]) [0..<n] xs = map (\<lambda>i. f i (xs ! i)) [0..<n] @ drop n xs"
  using assms
proof (induction n)
  case (Suc n)
  then have "drop n xs = xs ! n # drop (Suc n) xs" by (simp add: Cons_nth_drop_Suc)
  with Suc show ?case by (simp add: list_update_append nth_append)
qed simp

lemma launch_own_element:
  assumes "length xs = n" "\<And>i st. k i st = (if n \<le> i then st else st[i := f i (st ! i)])"
  shows "launch n k xs = map (\<lambda>i. f i (xs ! i)) [0..<n]"
proof -
  have "launch n k xs = fold k [0..<n] xs" by (rule launch_guarded) (simp add: assms(2))
  also have "\<dots> = fold (\<lambda>i xs. xs[i := f i (xs ! i)]) [0..<n] xs"
    by (rule fold_cong) (auto simp: assms(2))
  finally show ?thesis using assms(1) by (simp add: fold_own_element)
qed

definition stokes_of :: "(real \<Rightarrow> real) \<Rightarrow> complexf \<Rightarrow> complexf \<Rightarrow> float4" where
  "stokes_of rnd x y =
     (fmaf rnd (fst x) (fst x) (fmul rnd (snd x) (snd x)), fmaf rnd (fst y) (fst y) (fmul rnd (snd y) (snd y)),
      fmul rnd (fst x) (snd y), fmul rnd (snd x) (fst y))"

definition add4 :: "(real \<Rightarrow> real) \<Rightarrow> float4 \<Rightarrow> float4 \<Rightarrow> float4" where
  "add4 rnd a b = (case a of (a1, a2, a3, a4) \<Rightarrow> case b of (b1, b2, b3, b4) \<Rightarrow>
     (fadd rnd a1 b1, fadd rnd a2 b2, fadd rnd a3 b3, fadd rnd a4 b4))"

lemma launch_stokes:
  assumes "length acc = N"
  shows "launch N (stokes_IQUV_accumulate rnd A B N) acc
    = map (\<lambda>i. add4 rnd (acc ! i) (stokes_of rnd (A ! i) (B ! i))) [0..<N]"
  by (rule launch_own_element [OF assms])
    (simp add: stokes_IQUV_accumulate_def stokes_of_def add4_def Let_def split: prod.splits)

lemma launch_pfb:
  assumes "length out = N"
  shows "launch N (kernel_pfb_sum rnd ring taps N num_taps head) out
    = map (\<lambda>p. pfb_taps rnd ring taps N num_taps head p 0 num_taps (0, 0)) [0..<N]"
  by (rule launch_own_element [OF assms]) (simp add: kernel_pfb_sum_def)

definition convert_block :: "(real \<Rightarrow> real) \<Rightarrow> nat \<Rightarrow> bytes \<Rightarrow> complexf list" where
  "convert_block rnd N src = map (\<lambda>i. convert_sample rnd (src ! (2 * i)) (src ! (2 * i + 1))) [0..<N]"

lemma length_convert_block [simp]: "length (convert_block rnd N src) = N"
  by (simp add: convert_block_def)

lemma fold_store:
  assumes "head + n \<le> length ring"
  shows "fold (\<lambda>i ring. ring[head + i := f i]) [0..<n] ring = take head ring @ map f [0..<n] @ drop (head + n) ring"
  using assms
proof (induction n)
  case (Suc n)
  then have "drop (head + n) ring = ring ! (head + n) # drop (Suc (head + n)) ring"
    by (simp add: Cons_nth_drop_Suc)
  with Suc show ?case by (simp add: list_update_append min_absorb2)
qed simp

text \<open>A block is stored at the head without wrapping when it ends inside the ring.\<close>

lemma launch_convert:
  assumes "head + N \<le> length ring"
  shows "launch N (uint8_offsetIQ_to_ring rnd src N head (length ring)) ring
    = take head ring @ convert_block rnd N src @ drop (head + N) ring"
proof -
  let ?f = "\<lambda>i. convert_sample rnd (src ! (2 * i)) (src ! (2 * i + 1))"
  have "launch N (uint8_offsetIQ_to_ring rnd src N head (length ring)) ring
      = fold (uint8_offsetIQ_to_ring rnd src N head (length ring)) [0..<N] ring"
    by (rule launch_guarded) (simp add: uint8_offsetIQ_to_ring_def)
  also have "\<dots> = fold (\<lambda>i ring. ring[head + i := ?f i]) [0..<N] ring"
    using assms by (intro fold_cong) (auto simp: uint8_offsetIQ_to_ring_def)
  finally show ?thesis using fold_store [OF assms, of ?f] by (simp add: convert_block_def)
qed

lemma fold_shift:
  assumes "2 * h \<le> length dat" "n \<le> h"
  defines "step \<equiv> \<lambda>i dat. dat[i := dat ! (i + h), i + h := dat ! i]"
  shows "length (fold step [0..<n] dat) = length dat
    \<and> (\<forall>j < length dat. fold step [0..<n] dat ! j =
         (if j < n then dat ! (j + h) else if h \<le> j \<and> j < h + n then dat ! (j - h) else dat ! j))"
  using assms(2)
proof (induction n)
  case (Suc n)
  obtain d where d: "fold step [0..<n] dat = d" by simp
  have IH: "length d = length dat" "\<And>j. j < length dat \<Longrightarrow> d ! j =
      (if j < n then dat ! (j + h) else if h \<le> j \<and> j < h + n then dat ! (j - h) else dat ! j)"
    using Suc d by auto
  have ix: "n < length dat" "n + h < length dat" "n < h" using assms(1) Suc.prems by linarith+
  have "fold step [0..<Suc n] dat = d[n := d ! (n + h), n + h := d ! n]" using d by (simp add: step_def)
  moreover have "d ! (n + h) = dat ! (n + h)" "d ! n = dat ! n" using IH(2) ix by simp_all
  ultimately have e: "fold step [0..<Suc n] dat = d[n := dat ! (n + h), n + h := dat ! n]" by simp
  have "d[n := dat ! (n + h), n + h := dat ! n] ! j =
      (if j < Suc n then dat ! (j + h) else if h \<le> j \<and> j < h + Suc n then dat ! (j - h) else dat ! j)"
    if "j < length dat" for j
  proof -
    consider "j = n" | "j = n + h" | "j \<noteq> n" "j \<noteq> n + h" by blast
    then show ?thesis
    proof cases
      case 3
      then show ?thesis using IH(2) [OF that] by (auto simp: less_Suc_eq)
    qed (use IH(1) ix in simp_all)
  qed
  then show ?case unfolding e using IH(1) by simp
qed auto

lemma launch_fftshift:
  assumes "even N" "length dat = N"
  shows "launch N (fftshift_1d N) dat = drop (N div 2) dat @ take (N div 2) dat"
proof -
  let ?h = "N div 2"
  have h: "?h + ?h = N" using assms(1) by presburger
  have "launch N (fftshift_1d N) dat = fold (fftshift_1d N) [0..<N] dat"
    by (rule launch_guarded) (simp add: fftshift_1d_def)
  also have "[0..<N] = [0..<?h] @ [?h..<N]" using h by (metis le_add1 upt_add_eq_append zero_le)
  also have "fold (fftshift_1d N) ([0..<?h] @ [?h..<N]) dat = fold (fftshift_1d N) [?h..<N] (fold (fftshift_1d N) [0..<?h] dat)"
    by simp
  also have "fold (fftshift_1d N) [0..<?h] dat = fold (\<lambda>i dat. dat[i := dat ! (i + ?h), i + ?h := dat ! i]) [0..<?h] dat"
    by (rule fold_cong) (auto simp: fftshift_1d_def)
  also have "\<dots> = drop ?h dat @ take ?h dat"
  proof (rule nth_equalityI)
    fix i assume "i < length (fold (\<lambda>i dat. dat[i := dat ! (i + ?h), i + ?h := dat ! i]) [0..<?h] dat)"
    then have i: "i < N" "i + ?h - N = i - ?h" using fold_shift [of ?h dat ?h] h assms(2) by auto
    show "fold (\<lambda>i dat. dat[i := dat ! (i + ?h), i + ?h := dat ! i]) [0..<?h] dat ! i = (drop ?h dat @ take ?h dat) ! i"
    proof (cases "i < ?h")
      case True
      then have "i < length dat - ?h" using h assms(2) by linarith
      with True show ?thesis using fold_shift [of ?h dat ?h] h assms(2) i by (simp add: nth_append add.commute)
    next
      case False
      then have "length dat - ?h \<le> i" "i - (length dat - ?h) = i - ?h" "i - ?h < ?h" using h assms(2) i by linarith+
      then show ?thesis using fold_shift [of ?h dat ?h] h assms(2) i False by (simp add: nth_append not_less)
    qed
  qed (use fold_shift [of ?h dat ?h] h assms(2) in simp)
  also have "fold (fftshift_1d N) [?h..<N] xs = xs" for xs
  proof -
    have "fold (fftshift_1d N) is xs = xs" if "\<forall>i \<in> set is. ?h \<le> i" for "is" xs
      using that by (induction "is" arbitrary: xs) (auto simp: fftshift_1d_def)
    then show ?thesis by simp
  qed
  finally show ?thesis using h assms(2) by simp
qed

section \<open>The block reduction in exact arithmetic\<close>

lemma length_reduce_step [simp]: "length (reduce_step rnd a s sd) = length sd"
  by (simp add: reduce_step_def)

lemma sum_take: "k \<le> length xs \<Longrightarrow> sum_list (take k xs) = (\<Sum>i<k. xs ! i)" for xs :: "real list"
  by (simp add: sum_list_sum_nth atLeast0LessThan)

lemma reduce_step_sum:
  assumes "s \<le> active" "2 * s \<le> length sd"
  shows "(\<Sum>i < s. reduce_step (\<lambda>x. x) active s sd ! i) = (\<Sum>i<2 * s. sd ! i)"
proof -
  have "(\<Sum>i < s. reduce_step (\<lambda>x. x) active s sd ! i) = (\<Sum>i < s. sd ! i + sd ! (i + s))"
    using assms by (intro sum.cong) (auto simp: reduce_step_def fadd_def)
  also have "\<dots> = (\<Sum>i < s. sd ! i) + (\<Sum>i = s..<2 * s. sd ! i)"
    by (simp add: sum.distrib sum.shift_bounds_nat_ivl [of _ 0 s s, simplified, symmetric] lessThan_atLeast0 mult_2)
  also have "\<dots> = (\<Sum>i<2 * s. sd ! i)"
    using sum.atLeastLessThan_concat [of 0 s "2 * s" "(!) sd"] by (simp add: lessThan_atLeast0)
  finally show ?thesis .
qed

lemma reduce_block_sum:
  assumes "length sd = block_size"
  shows "reduce_block (\<lambda>x. x) sd = sum_list sd"
proof -
  let ?r = "\<lambda>a s. reduce_step (\<lambda>x. x) a s"
  define s1 s2 s3 s4 s5 s6 s7 where s: "s1 = ?r 128 128 sd" "s2 = ?r 64 64 s1" "s3 = ?r 32 32 s2" "s4 = ?r 32 16 s3"
      "s5 = ?r 32 8 s4" "s6 = ?r 32 4 s5" "s7 = ?r 32 2 s6"
  have l: "length sd = 256" using assms by (simp add: block_size_def)
  have "reduce_block (\<lambda>x. x) sd = (\<Sum>i<1. ?r 32 1 s7 ! i)" by (simp add: reduce_block_def s)
  also have "\<dots> = (\<Sum>i<2 * 1. s7 ! i)" by (rule reduce_step_sum) (simp_all add: s l)
  also have "\<dots> = (\<Sum>i<2 * 2. s6 ! i)" unfolding s(7) using reduce_step_sum [of 2 32 s6] by (simp add: s l)
  also have "\<dots> = (\<Sum>i<2 * 4. s5 ! i)" unfolding s(6) using reduce_step_sum [of 4 32 s5] by (simp add: s l)
  also have "\<dots> = (\<Sum>i<2 * 8. s4 ! i)" unfolding s(5) using reduce_step_sum [of 8 32 s4] by (simp add: s l)
  also have "\<dots> = (\<Sum>i<2 * 16. s3 ! i)" unfolding s(4) using reduce_step_sum [of 16 32 s3] by (simp add: s l)
  also have "\<dots> = (\<Sum>i<2 * 32. s2 ! i)" unfolding s(3) using reduce_step_sum [of 32 32 s2] by (simp add: s l)
  also have "\<dots> = (\<Sum>i<2 * 64. s1 ! i)" unfolding s(2) using reduce_step_sum [of 64 64 s1] by (simp add: s l)
  also have "\<dots> = (\<Sum>i<2 * 128. sd ! i)" unfolding s(1) using reduce_step_sum [of 128 128 sd] by (simp add: l)
  also have "\<dots> = sum_list sd" by (simp add: sum_list_sum_nth l atLeast0LessThan)
  finally show ?thesis .
qed

section \<open>The continuum sum\<close>

lemma sum_blocks: "(\<Sum>b<n. \<Sum>t<m. f (b * m + t)) = (\<Sum>i<n * m. f i)" for f :: "nat \<Rightarrow> real" and m :: nat
proof (induction n)
  case (Suc n)
  have "(\<Sum>i<Suc n * m. f i) = (\<Sum>i<n * m. f i) + (\<Sum>i = n * m..<n * m + m. f i)"
    using sum.atLeastLessThan_concat [of 0 "n * m" "n * m + m" f] by (simp add: lessThan_atLeast0 add.commute)
  also have "(\<Sum>i = n * m..<n * m + m. f i) = (\<Sum>t<m. f (n * m + t))"
    using sum.shift_bounds_nat_ivl [of f 0 "n * m" m] by (simp add: lessThan_atLeast0 add.commute)
  finally show ?case using Suc by simp
qed simp

lemma continuum_blocks:
  "fold (continuum_block (\<lambda>x. x) A B N) [0..<n] sp
    = sp + (\<Sum>b<n. \<Sum>t<block_size. thread_power (\<lambda>x. x) A B N (b * block_size + t))"
proof (induction n)
  case (Suc n)
  have "reduce_block (\<lambda>x. x) (map (\<lambda>tid. thread_power (\<lambda>x. x) A B N (n * block_size + tid)) [0..<block_size])
      = (\<Sum>t<block_size. thread_power (\<lambda>x. x) A B N (n * block_size + t))"
    by (simp add: reduce_block_sum sum_list_sum_nth atLeast0LessThan)
  then show ?case using Suc by (simp add: continuum_block_def fadd_def)
qed simp

definition exact_power :: "complexf \<Rightarrow> real" where
  "exact_power x = fst x * fst x + snd x * snd x"

lemma thread_power_exact: "i < N \<Longrightarrow> thread_power (\<lambda>x. x) A B N i = exact_power (A ! i) + exact_power (B ! i)"
  by (simp add: thread_power_def exact_power_def fadd_def fmaf_def fmul_def split: prod.splits)

lemma continuum_exact:
  "continuum_power_accumulate (\<lambda>x. x) A B N sp = sp + (\<Sum>i<N. exact_power (A ! i) + exact_power (B ! i))"
proof -
  let ?p = "thread_power (\<lambda>x. x) A B N" and ?n = "grid_size N * block_size"
  have "(\<Sum>i<?n. ?p i) = (\<Sum>i<N. ?p i)"
    using grid_covers [of N] by (intro sum.mono_neutral_right) (auto simp: thread_power_def)
  then show ?thesis
    unfolding continuum_power_accumulate_def continuum_blocks sum_blocks by (simp add: thread_power_exact)
qed

section \<open>The filter bank\<close>

text \<open>The taps applied to a window of blocks, oldest first.\<close>

fun pfb_window :: "(real \<Rightarrow> real) \<Rightarrow> real list \<Rightarrow> nat \<Rightarrow> nat \<Rightarrow> nat \<Rightarrow> complexf list list \<Rightarrow> complexf \<Rightarrow> complexf" where
  "pfb_window rnd taps N p t [] acc = acc"
| "pfb_window rnd taps N p t (blk # blks) acc =
     pfb_window rnd taps N p (t + 1) blks
       (fmaf rnd (fst (blk ! p)) (taps ! (t * N + p)) (fst acc), fmaf rnd (snd (blk ! p)) (taps ! (t * N + p)) (snd acc))"

lemma concat_blocks_nth:
  assumes "\<forall>b \<in> set blks. length b = N" "t < length blks" "p < N"
  shows "concat blks ! (t * N + p) = blks ! t ! p"
  using assms
proof (induction blks arbitrary: t)
  case (Cons b blks)
  show ?case
  proof (cases t)
    case (Suc k)
    then have "concat (b # blks) ! (t * N + p) = concat blks ! (k * N + p)"
      using Cons.prems by (simp add: nth_append)
    with Suc Cons show ?thesis by simp
  qed (use Cons.prems in \<open>simp add: nth_append\<close>)
qed simp

text \<open>
  The ring holds the window rotated: the blocks after the head come first in time. The wrapped index
  reads block \<open>t\<close> of the window.
\<close>

lemma ring_read:
  assumes "\<forall>b \<in> set (new @ old). length b = N" "length (new @ old) = T" "p < N" "t < T"
  shows "concat (new @ old) ! (let i = length new * N + t * N + p in if i \<ge> T * N then i - T * N else i)
    = (old @ new) ! t ! p"
proof -
  let ?i = "length new * N + t * N + p"
  have T: "T = length new + length old" using assms(2) by simp
  show ?thesis
  proof (cases "t < length old")
    case True
    have "?i < (length new + t + 1) * N" using assms(3) by (simp add: algebra_simps)
    also have "\<dots> \<le> T * N" using True T by (intro mult_right_mono) simp_all
    finally have "\<not> ?i \<ge> T * N" by simp
    moreover have "?i = (length new + t) * N + p" by (simp add: algebra_simps)
    ultimately show ?thesis
      using concat_blocks_nth [OF assms(1), of "length new + t" p] True T assms(3)
      by (simp add: Let_def nth_append)
  next
    case False
    then obtain d where d: "t = length old + d" by (metis le_add_diff_inverse linorder_not_less)
    have i: "?i = T * N + (d * N + p)" unfolding T d by (simp add: algebra_simps)
    have "d < length (new @ old)" "d < length new" using assms(4) d T by simp_all
    then show ?thesis
      using concat_blocks_nth [OF assms(1), of d p] assms(3) unfolding Let_def i
      by (simp add: nth_append d del: concat_append)
  qed
qed

lemma pfb_taps_window:
  assumes "\<forall>b \<in> set (new @ old). length b = N" "length (new @ old) = T" "p < N" "t + k = T"
  shows "pfb_taps rnd (concat (new @ old)) taps N T (length new * N) p t k acc
    = pfb_window rnd taps N p t (drop t (old @ new)) acc"
  using assms(4)
proof (induction k arbitrary: t acc)
  case 0
  then show ?case using assms(2) by simp
next
  case (Suc k)
  then have t: "t < T" by simp
  then have "drop t (old @ new) = (old @ new) ! t # drop (Suc t) (old @ new)"
    using assms(2) by (metis Cons_nth_drop_Suc add.commute length_append)
  moreover note ring_read [OF assms(1-3) t]
  ultimately show ?case using Suc.IH [of "t + 1"] Suc.prems by (simp add: Let_def)
qed

lemma pfb_window_exact:
  "pfb_window (\<lambda>x. x) taps N p t blks acc =
    (fst acc + (\<Sum>i<length blks. fst (blks ! i ! p) * taps ! ((t + i) * N + p)),
     snd acc + (\<Sum>i<length blks. snd (blks ! i ! p) * taps ! ((t + i) * N + p)))"
proof (induction blks arbitrary: t acc)
  case (Cons b blks)
  show ?case by (simp add: Cons.IH fmaf_def sum.lessThan_Suc_shift del: sum.lessThan_Suc)
qed simp

end
