(* ===== verification/Gpu_Pipeline.thy ===== *)
theory Gpu_Pipeline
  imports Gpu_Kernels Global_Config Packet_Receiver Vdif_Time
begin

text \<open>
  The GPU worker of a subband, class \<^verbatim>\<open>GpuPfbFft\<close> of \<^verbatim>\<open>include/DoPFBFFT.hpp\<close>: alignment of the two
  polarisations, tracking of invalid input, the polyphase filter bank, the noise-source state and the
  integration into result slots. The transform of \<^verbatim>\<open>cuFFT\<close> is an argument \<open>fft\<close>; device memory is part
  of the state and the launches of one block run in the order the host enqueues them.
\<close>

section \<open>State\<close>

definition NUM_SLOTS :: nat where "NUM_SLOTS = 16"
definition num_taps :: nat where "num_taps = 4"

text \<open>\<^verbatim>\<open>NoiseState\<close> is an enumeration over a byte and is cast from one.\<close>

type_synonym NoiseState = u8

definition NOISE_OFF :: NoiseState where "NOISE_OFF = 0"
definition NOISE_ON :: NoiseState where "NOISE_ON = 1"

record HostRingSlot =
  slot_data :: "float4 list"
  slot_sumPower :: real
  slot_used :: bool
  slot_first_timestamp_ns :: u64
  slot_last_timestamp_ns :: u64
  slot_noise_state :: NoiseState

record GpuPfbFft =
  m_Nfft :: nat
  m_rawA :: bytes
  m_rawB :: bytes
  m_d_inputA :: "complexf list"
  m_d_inputB :: "complexf list"
  m_pfb_head :: nat
  m_filters :: "real list"
  m_d_pfbedA :: "complexf list"
  m_d_pfbedB :: "complexf list"
  m_ffted_bufsA :: "complexf list"
  m_ffted_bufsB :: "complexf list"
  m_acc_stokes_ON :: "float4 list"
  m_acc_stokes_OFF :: "float4 list"
  d_sumPower_ON :: real
  d_sumPower_OFF :: real
  m_acc_len :: u32
  m_acc_id :: u32
  m_hring :: "HostRingSlot list"
  m_hhead :: nat
  m_timestamp_ns :: u64
  m_noise_state :: NoiseState
  m_noise_cycle_start_ns :: u64
  m_acc_on_id :: u32
  m_acc_off_id :: u32
  m_acc_on_first_timestamp_ns :: u64
  m_acc_off_first_timestamp_ns :: u64
  m_pfb_invalid_blocks_remaining :: nat
  m_current_pfb_output_valid :: bool
  m_accumulators_reset_for_gap :: bool
  m_invalid_input_blocks :: u64

abbreviation zero4 :: float4 where "zero4 \<equiv> (0, 0, 0, 0)"

definition new_slot :: "nat \<Rightarrow> HostRingSlot" where
  "new_slot n = \<lparr>slot_data = replicate n zero4, slot_sumPower = 0, slot_used = False,
     slot_first_timestamp_ns = 0, slot_last_timestamp_ns = 0, slot_noise_state = NOISE_OFF\<rparr>"

definition new_GpuPfbFft :: "fpu \<Rightarrow> GlobalConfig \<Rightarrow> real list \<Rightarrow> GpuPfbFft result" where
  "new_GpuPfbFft fp cfg taps =
     (let n = nat (cfg_total_nfft cfg);
          acc_len = of_int (llround (real_of_dbl (dbl_div (fl fp) (integration_time fp cfg) (fft_period fp cfg)))) :: u32
      in if acc_len = 0 then Inl (Runtime_error ''integration_time must be >= fft_period'')
         else Inr \<lparr>m_Nfft = n, m_rawA = replicate (2 * n) 0, m_rawB = replicate (2 * n) 0,
           m_d_inputA = replicate (n * num_taps) (0, 0), m_d_inputB = replicate (n * num_taps) (0, 0),
           m_pfb_head = 0, m_filters = take (n * num_taps) taps,
           m_d_pfbedA = replicate n (0, 0), m_d_pfbedB = replicate n (0, 0),
           m_ffted_bufsA = replicate n (0, 0), m_ffted_bufsB = replicate n (0, 0),
           m_acc_stokes_ON = replicate n zero4, m_acc_stokes_OFF = replicate n zero4,
           d_sumPower_ON = 0, d_sumPower_OFF = 0, m_acc_len = acc_len, m_acc_id = 0,
           m_hring = replicate NUM_SLOTS (new_slot n), m_hhead = 0, m_timestamp_ns = 0,
           m_noise_state = NOISE_OFF, m_noise_cycle_start_ns = 0, m_acc_on_id = 0, m_acc_off_id = 0,
           m_acc_on_first_timestamp_ns = 0, m_acc_off_first_timestamp_ns = 0,
           m_pfb_invalid_blocks_remaining = num_taps - 1, m_current_pfb_output_valid = False,
           m_accumulators_reset_for_gap = False, m_invalid_input_blocks = 0\<rparr>)"

section \<open>Noise source\<close>

definition dbl_to_u64 :: "dbl \<Rightarrow> u64" where
  "dbl_to_u64 x = of_int (trunc (real_of_dbl x))"

definition noise_period_ns :: "fpu \<Rightarrow> GlobalConfig \<Rightarrow> u64" where
  "noise_period_ns fp cfg = dbl_to_u64 (dbl_mul (fl fp) (period_ms (cfg_noise_source cfg)) (Fin 1000000))"

definition noise_on_ns :: "fpu \<Rightarrow> GlobalConfig \<Rightarrow> u64" where
  "noise_on_ns fp cfg =
     dbl_to_u64 (dbl_div (fl fp)
       (dbl_mul (fl fp) (fl fp (of_nat (unat (noise_period_ns fp cfg)))) (duty_cycle (cfg_noise_source cfg)))
       (Fin 100))"

definition noise_blank_ns :: "fpu \<Rightarrow> GlobalConfig \<Rightarrow> u64" where
  "noise_blank_ns fp cfg =
     dbl_to_u64 (dbl_mul (fl fp) (transition_blank_ms (cfg_noise_source cfg)) (Fin 1000000))"

definition update_noise_state :: "fpu \<Rightarrow> GlobalConfig \<Rightarrow> NoiseState \<Rightarrow> GpuPfbFft \<Rightarrow> GpuPfbFft" where
  "update_noise_state fp cfg new_state g =
     (let on_ns = noise_on_ns fp cfg;
          g = (if new_state \<noteq> m_noise_state g then
                 if m_noise_cycle_start_ns g = 0 then
                   if new_state = NOISE_ON then g\<lparr>m_noise_cycle_start_ns := m_timestamp_ns g\<rparr>
                   else g\<lparr>m_noise_cycle_start_ns := m_timestamp_ns g - on_ns\<rparr>
                 else if new_state = NOISE_ON then g\<lparr>m_noise_cycle_start_ns := m_timestamp_ns g\<rparr>
                 else g
               else g)
      in g\<lparr>m_noise_state := new_state\<rparr>)"

text \<open>The remainder needs a period of at least a nanosecond; a zero divisor is undefined in C++.\<close>

definition is_noise_blank :: "fpu \<Rightarrow> GlobalConfig \<Rightarrow> u64 \<Rightarrow> GpuPfbFft \<Rightarrow> bool" where
  "is_noise_blank fp cfg ts g =
     (if m_noise_cycle_start_ns g = 0 then False
      else
        let period_ns = noise_period_ns fp cfg; on_ns = noise_on_ns fp cfg; blank_ns = noise_blank_ns fp cfg;
            phase = (ts - m_noise_cycle_start_ns g) mod period_ns;
            dist_on = min phase (period_ns - phase);
            dist_off = (if phase \<ge> on_ns then phase - on_ns else on_ns - phase)
        in min dist_on dist_off \<le> blank_ns)"

section \<open>Input\<close>

text \<open>
  The alignment loop over the batches still in the two queues; \<open>None\<close> is a \<^verbatim>\<open>wait_dequeue\<close> on a queue
  with no batch yet.
\<close>

function align :: "PacketBatch \<Rightarrow> PacketBatch list \<Rightarrow> PacketBatch \<Rightarrow> PacketBatch list \<Rightarrow> bool \<Rightarrow>
    (PacketBatch \<times> PacketBatch list \<times> PacketBatch \<times> PacketBatch list \<times> bool) option" where
  "align a qA b qB gap =
     (if batch_id a \<noteq> batch_id b then
        if batch_id a < batch_id b
        then (case qA of [] \<Rightarrow> None | a' # qA' \<Rightarrow> align a' qA' b qB True)
        else (case qB of [] \<Rightarrow> None | b' # qB' \<Rightarrow> align a qA b' qB' True)
      else Some (a, qA, b, qB, gap))"
  by pat_completeness auto
termination
  by (relation "measure (\<lambda>(a, qA, b, qB, gap). length qA + length qB)") auto

declare align.simps [simp del]

text \<open>The body after the alignment, for the pair of batches \<open>a\<close> and \<open>b\<close>.\<close>

definition load_block :: "fpu \<Rightarrow> GlobalConfig \<Rightarrow> PacketBatch \<Rightarrow> PacketBatch \<Rightarrow> bool \<Rightarrow> GpuPfbFft \<Rightarrow> GpuPfbFft result" where
  "load_block fp cfg a b alignment_gap g =
     (let input_valid = (\<not> alignment_gap \<and> batch_valid a \<and> batch_valid b);
          n = m_Nfft g * 2;
          bufA = (if input_valid then take n (concat (buffer a)) else replicate n 0);
          bufB = (if input_valid then take n (concat (buffer b)) else replicate n 0);
          g = (if input_valid then g else g\<lparr>m_invalid_input_blocks := m_invalid_input_blocks g + 1\<rparr>);
          h = hdrs a ! 0
      in bind_result (vdif_to_timestamp_ns (getReferenceEpoch h) (getSecondsFromEpoch h) (getFrameNumber h)) (\<lambda>ts.
         let g = g\<lparr>m_timestamp_ns := ts\<rparr>;
             g = (if cfg_cal_mode cfg then update_noise_state fp cfg (noise_states a ! 0) g else g);
             g = (if \<not> input_valid then g\<lparr>m_pfb_invalid_blocks_remaining := num_taps\<rparr> else g);
             g = g\<lparr>m_current_pfb_output_valid := (m_pfb_invalid_blocks_remaining g = 0)\<rparr>;
             g = (if m_pfb_invalid_blocks_remaining g \<noteq> 0
                  then g\<lparr>m_pfb_invalid_blocks_remaining := m_pfb_invalid_blocks_remaining g - 1\<rparr> else g)
         in Inr (g\<lparr>m_rawA := bufA, m_rawB := bufB\<rparr>)))"

definition accumulate_one_block :: "fpu \<Rightarrow> GlobalConfig \<Rightarrow> PacketBatch list \<Rightarrow> PacketBatch list \<Rightarrow> GpuPfbFft \<Rightarrow>
    (GpuPfbFft result \<times> PacketBatch list \<times> PacketBatch list) option" where
  "accumulate_one_block fp cfg qA qB g =
     (case qA of [] \<Rightarrow> None | a # qA \<Rightarrow>
        (case qB of [] \<Rightarrow> None | b # qB \<Rightarrow>
           (case align a qA b qB False of
              None \<Rightarrow> None
            | Some (a, qA, b, qB, gap) \<Rightarrow> Some (load_block fp cfg a b gap g, qA, qB))))"

section \<open>Filter bank and transform\<close>

definition submit_PFB_FFT :: "(real \<Rightarrow> real) \<Rightarrow> (complexf list \<Rightarrow> complexf list) \<Rightarrow> GpuPfbFft \<Rightarrow> GpuPfbFft" where
  "submit_PFB_FFT rnd fft g =
     (let n = m_Nfft g; W = n * num_taps;
          inA = launch n (uint8_offsetIQ_to_ring rnd (m_rawA g) n (m_pfb_head g) W) (m_d_inputA g);
          inB = launch n (uint8_offsetIQ_to_ring rnd (m_rawB g) n (m_pfb_head g) W) (m_d_inputB g);
          head = (m_pfb_head g + n) mod W;
          pfbA = launch n (kernel_pfb_sum rnd inA (m_filters g) n num_taps head) (m_d_pfbedA g);
          pfbB = launch n (kernel_pfb_sum rnd inB (m_filters g) n num_taps head) (m_d_pfbedB g)
      in g\<lparr>m_d_inputA := inA, m_d_inputB := inB, m_pfb_head := head,
           m_d_pfbedA := pfbA, m_d_pfbedB := pfbB,
           m_ffted_bufsA := launch n (fftshift_1d n) (fft pfbA),
           m_ffted_bufsB := launch n (fftshift_1d n) (fft pfbB)\<rparr>)"

section \<open>Integration\<close>

definition observing :: "GlobalConfig \<Rightarrow> ObservationMode \<Rightarrow> bool" where
  "observing cfg mode \<longleftrightarrow> cfg_observation_mode cfg = mode"

definition accumulate_ON :: "(real \<Rightarrow> real) \<Rightarrow> GlobalConfig \<Rightarrow> GpuPfbFft \<Rightarrow> GpuPfbFft" where
  "accumulate_ON rnd cfg g =
     (let n = m_Nfft g;
          g = (if observing cfg SPECTRAL
               then g\<lparr>m_acc_stokes_ON := launch n
                        (stokes_IQUV_accumulate rnd (m_ffted_bufsA g) (m_ffted_bufsB g) n) (m_acc_stokes_ON g)\<rparr>
               else g)
      in if observing cfg CONTINUUM
         then g\<lparr>d_sumPower_ON := continuum_power_accumulate rnd (m_ffted_bufsA g) (m_ffted_bufsB g) n (d_sumPower_ON g)\<rparr>
         else g)"

definition accumulate_OFF :: "(real \<Rightarrow> real) \<Rightarrow> GlobalConfig \<Rightarrow> GpuPfbFft \<Rightarrow> GpuPfbFft" where
  "accumulate_OFF rnd cfg g =
     (let n = m_Nfft g;
          g = (if observing cfg SPECTRAL
               then g\<lparr>m_acc_stokes_OFF := launch n
                        (stokes_IQUV_accumulate rnd (m_ffted_bufsA g) (m_ffted_bufsB g) n) (m_acc_stokes_OFF g)\<rparr>
               else g)
      in if observing cfg CONTINUUM
         then g\<lparr>d_sumPower_OFF := continuum_power_accumulate rnd (m_ffted_bufsA g) (m_ffted_bufsB g) n (d_sumPower_OFF g)\<rparr>
         else g)"

definition update_slot :: "(HostRingSlot \<Rightarrow> HostRingSlot) \<Rightarrow> GpuPfbFft \<Rightarrow> GpuPfbFft" where
  "update_slot f g = g\<lparr>m_hring := (m_hring g)[m_hhead g := f (m_hring g ! m_hhead g)]\<rparr>"

text \<open>
  The copy of the accumulators into the slot at the head, the noise state, and the publication of the
  slot. A slot still in use is only reported and is overwritten.
\<close>

definition copy_result :: "GlobalConfig \<Rightarrow> float4 list \<Rightarrow> real \<Rightarrow> NoiseState \<Rightarrow> GpuPfbFft \<Rightarrow> GpuPfbFft" where
  "copy_result cfg acc pow noise g =
     update_slot (\<lambda>s.
       let s = (if observing cfg SPECTRAL then s\<lparr>slot_data := acc\<rparr> else s);
           s = (if observing cfg CONTINUUM then s\<lparr>slot_sumPower := pow\<rparr> else s)
       in s\<lparr>slot_noise_state := noise, slot_used := True\<rparr>) g"

definition next_slot :: "GpuPfbFft \<Rightarrow> GpuPfbFft" where
  "next_slot g = g\<lparr>m_hhead := (m_hhead g + 1) mod NUM_SLOTS\<rparr>"

definition reset_for_gap :: "GlobalConfig \<Rightarrow> GpuPfbFft \<Rightarrow> GpuPfbFft" where
  "reset_for_gap cfg g =
     (if m_accumulators_reset_for_gap g then g
      else
        let z = replicate (m_Nfft g) zero4;
            g = (if observing cfg SPECTRAL then g\<lparr>m_acc_stokes_ON := z, m_acc_stokes_OFF := z\<rparr>
                 else g\<lparr>d_sumPower_ON := 0, d_sumPower_OFF := 0\<rparr>)
        in g\<lparr>m_acc_id := 0, m_acc_on_id := 0, m_acc_off_id := 0, m_acc_on_first_timestamp_ns := 0,
             m_acc_off_first_timestamp_ns := 0, m_accumulators_reset_for_gap := True\<rparr>)"

definition acc_cal_on :: "(real \<Rightarrow> real) \<Rightarrow> GlobalConfig \<Rightarrow> GpuPfbFft \<Rightarrow> GpuPfbFft" where
  "acc_cal_on rnd cfg g =
     (let g = (if m_acc_on_id g = 0 then g\<lparr>m_acc_on_first_timestamp_ns := m_timestamp_ns g\<rparr> else g);
          g = g\<lparr>m_acc_on_id := m_acc_on_id g + 1\<rparr>;
          g = accumulate_ON rnd cfg g
      in if m_acc_on_id g \<ge> m_acc_len g then
           let g = update_slot (\<lambda>s. s\<lparr>slot_first_timestamp_ns := m_acc_on_first_timestamp_ns g,
                                       slot_last_timestamp_ns := m_timestamp_ns g\<rparr>) g;
               g = copy_result cfg (m_acc_stokes_ON g) (d_sumPower_ON g) NOISE_ON g
           in next_slot (g\<lparr>m_acc_stokes_ON := replicate (m_Nfft g) zero4, d_sumPower_ON := 0,
                           m_acc_on_id := 0, m_acc_on_first_timestamp_ns := 0\<rparr>)
         else g)"

definition acc_cal_off :: "(real \<Rightarrow> real) \<Rightarrow> GlobalConfig \<Rightarrow> GpuPfbFft \<Rightarrow> GpuPfbFft" where
  "acc_cal_off rnd cfg g =
     (let g = (if m_acc_off_id g = 0 then g\<lparr>m_acc_off_first_timestamp_ns := m_timestamp_ns g\<rparr> else g);
          g = g\<lparr>m_acc_off_id := m_acc_off_id g + 1\<rparr>;
          g = accumulate_OFF rnd cfg g
      in if m_acc_off_id g \<ge> m_acc_len g then
           let g = update_slot (\<lambda>s. s\<lparr>slot_first_timestamp_ns := m_acc_off_first_timestamp_ns g,
                                       slot_last_timestamp_ns := m_timestamp_ns g\<rparr>) g;
               g = copy_result cfg (m_acc_stokes_OFF g) (d_sumPower_OFF g) NOISE_OFF g
           in next_slot (g\<lparr>m_acc_stokes_OFF := replicate (m_Nfft g) zero4, d_sumPower_OFF := 0,
                           m_acc_off_id := 0, m_acc_off_first_timestamp_ns := 0\<rparr>)
         else g)"

definition acc_no_cal :: "(real \<Rightarrow> real) \<Rightarrow> GlobalConfig \<Rightarrow> GpuPfbFft \<Rightarrow> GpuPfbFft" where
  "acc_no_cal rnd cfg g =
     (let g = (if m_acc_id g = 0 then update_slot (\<lambda>s. s\<lparr>slot_first_timestamp_ns := m_timestamp_ns g\<rparr>) g else g);
          g = g\<lparr>m_acc_id := m_acc_id g + 1\<rparr>;
          g = accumulate_OFF rnd cfg g
      in if m_acc_id g \<ge> m_acc_len g then
           let g = update_slot (\<lambda>s. s\<lparr>slot_last_timestamp_ns := m_timestamp_ns g\<rparr>) g;
               g = copy_result cfg (m_acc_stokes_OFF g) (d_sumPower_OFF g) NOISE_OFF g
           in next_slot (g\<lparr>m_acc_id := 0, d_sumPower_OFF := 0, m_acc_stokes_OFF := replicate (m_Nfft g) zero4\<rparr>)
         else g)"

definition StokesAcc :: "fpu \<Rightarrow> (real \<Rightarrow> real) \<Rightarrow> GlobalConfig \<Rightarrow> GpuPfbFft \<Rightarrow> GpuPfbFft" where
  "StokesAcc fp rnd cfg g =
     (if \<not> m_current_pfb_output_valid g then reset_for_gap cfg g
      else
        let g = g\<lparr>m_accumulators_reset_for_gap := False\<rparr>
        in if cfg_cal_mode cfg then
             if is_noise_blank fp cfg (m_timestamp_ns g) g then g
             else if m_noise_state g = NOISE_ON then acc_cal_on rnd cfg g
             else acc_cal_off rnd cfg g
           else acc_no_cal rnd cfg g)"

text \<open>One round of the loop of \<^verbatim>\<open>subband_thread\<close>; \<open>None\<close> while it waits for input.\<close>

definition subband_round :: "fpu \<Rightarrow> (real \<Rightarrow> real) \<Rightarrow> (complexf list \<Rightarrow> complexf list) \<Rightarrow> GlobalConfig \<Rightarrow>
    PacketBatch list \<Rightarrow> PacketBatch list \<Rightarrow> GpuPfbFft \<Rightarrow> (GpuPfbFft result \<times> PacketBatch list \<times> PacketBatch list) option" where
  "subband_round fp rnd fft cfg qA qB g =
     map_option (\<lambda>(r, qA, qB).
         (bind_result r (\<lambda>g. Inr (StokesAcc fp rnd cfg (submit_PFB_FFT rnd fft g))), qA, qB))
       (accumulate_one_block fp cfg qA qB g)"

end
