(* ===== verification/Gpu_Input.thy ===== *)
theory Gpu_Input
  imports Gpu_Pipeline
begin

text \<open>
  The input side of the GPU worker: which batches of the two polarisations are paired, when the output
  of the filter bank counts as valid, and what the filter bank computes.
\<close>

section \<open>Alignment\<close>

abbreviation nat_id :: "PacketBatch \<Rightarrow> nat" where "nat_id b \<equiv> unat (batch_id b)"

text \<open>The pairs that successive calls form, with their gap flags, until a queue runs out.\<close>

function pair_up :: "PacketBatch list \<Rightarrow> PacketBatch list \<Rightarrow> (PacketBatch \<times> PacketBatch \<times> bool) list" where
  "pair_up (a # qA) (b # qB) =
     (case align a qA b qB False of
        None \<Rightarrow> []
      | Some (a, qA', b, qB', gap) \<Rightarrow>
          if length qA' \<le> length qA then (a, b, gap) # pair_up qA' qB' else [])"
| "pair_up [] qB = []"
| "pair_up (a # qA) [] = []"
  by pat_completeness auto
termination
  by (relation "measure (\<lambda>(qA, qB). length qA)") auto

definition consecutive :: "nat \<Rightarrow> PacketBatch list \<Rightarrow> bool" where
  "consecutive i q \<longleftrightarrow> map nat_id q = [i..<i + length q]"

lemma consecutive_simps [simp]:
  "consecutive i []"
  "consecutive i (a # q) \<longleftrightarrow> nat_id a = i \<and> consecutive (i + 1) q"
  by (auto simp: consecutive_def upt_conv_Cons simp del: upt_Suc)

text \<open>The loop drops the batches before the first common id, and reports whether it dropped any.\<close>

lemma align_consecutive:
  assumes "consecutive i (a # qA)" "consecutive j (b # qB)"
    and "max i j < i + length (a # qA)" "max i j < j + length (b # qB)"
  shows "\<exists>a' qA' b' qB'. align a qA b qB gap = Some (a', qA', b', qB', gap \<or> i \<noteq> j)
    \<and> a' # qA' = drop (max i j - i) (a # qA) \<and> b' # qB' = drop (max i j - j) (b # qB)"
  using assms
proof (induction a qA b qB gap arbitrary: i j rule: align.induct)
  case (1 a qA b qB gap)
  have ids: "nat_id a = i" "nat_id b = j" using "1.prems" by simp_all
  consider "i = j" | "i < j" | "j < i" by linarith
  then show ?case
  proof cases
    case 1
    then show ?thesis using ids by (simp add: align.simps [of a] word_eq_unat)
  next
    case 2
    then have c: "batch_id a \<noteq> batch_id b" "batch_id a < batch_id b"
      using ids by (auto simp: word_less_nat_alt)
    obtain a' qA' where q: "qA = a' # qA'" using "1.prems"(3) 2 by (cases qA) auto
    have mx: "max (i + 1) j = max i j" using 2 by simp
    note IH = "1.IH"(1) [OF c q, of "i + 1" j]
    have "\<exists>a'' qA'' b' qB'. align a' qA' b qB True = Some (a'', qA'', b', qB', True \<or> i + 1 \<noteq> j)
      \<and> a'' # qA'' = drop (max (i + 1) j - (i + 1)) (a' # qA') \<and> b' # qB' = drop (max (i + 1) j - j) (b # qB)"
      using "1.prems" q 2 by (intro IH) simp_all
    then show ?thesis using c 2 q by (auto simp: align.simps [of a] max_def Suc_diff_Suc drop_Cons')
  next
    case 3
    then have c: "batch_id a \<noteq> batch_id b" "\<not> batch_id a < batch_id b"
      using ids by (auto simp: word_less_nat_alt)
    obtain b' qB' where q: "qB = b' # qB'" using "1.prems"(4) 3 by (cases qB) auto
    note IH = "1.IH"(2) [OF c q, of i "j + 1"]
    have "\<exists>a' qA' b'' qB''. align a qA b' qB' True = Some (a', qA', b'', qB'', True \<or> i \<noteq> j + 1)
      \<and> a' # qA' = drop (max i (j + 1) - i) (a # qA) \<and> b'' # qB'' = drop (max i (j + 1) - (j + 1)) (b' # qB')"
      using "1.prems" q 3 by (intro IH) simp_all
    then show ?thesis using c 3 q by (auto simp: align.simps [of a] max_def Suc_diff_Suc drop_Cons')
  qed
qed

lemma align_waits:
  assumes "consecutive i (a # qA)" "consecutive j (b # qB)"
    and "\<not> (max i j < i + length (a # qA) \<and> max i j < j + length (b # qB))"
  shows "align a qA b qB gap = None"
  using assms
proof (induction a qA b qB gap arbitrary: i j rule: align.induct)
  case (1 a qA b qB gap)
  have ids: "nat_id a = i" "nat_id b = j" using "1.prems" by simp_all
  have "i \<noteq> j" using "1.prems"(3) by auto
  then consider "i < j" | "j < i" by linarith
  then show ?case
  proof cases
    case 1
    then have c: "batch_id a \<noteq> batch_id b" "batch_id a < batch_id b"
      using ids by (auto simp: word_less_nat_alt)
    then show ?thesis using "1.IH"(1) [OF c, of _ _ "i + 1" j] "1.prems" 1
      by (cases qA) (auto simp: align.simps [of a] max_def split: if_splits)
  next
    case 2
    then have c: "batch_id a \<noteq> batch_id b" "\<not> batch_id a < batch_id b"
      using ids by (auto simp: word_less_nat_alt)
    then show ?thesis using "1.IH"(2) [OF c, of _ _ i "j + 1"] "1.prems" 2
      by (cases qB) (auto simp: align.simps [of a] max_def split: if_splits)
  qed
qed

lemma consecutive_drop: "consecutive i q \<Longrightarrow> consecutive (i + k) (drop k q)"
  by (induction k arbitrary: i q) (simp, metis add.assoc add.commute consecutive_simps(1,2) drop_Suc_Cons drop_Nil list.exhaust plus_1_eq_Suc)

lemma pair_up_consecutive:
  assumes "consecutive i qA" "consecutive j qB"
  shows "map (\<lambda>(a, b, gap). (nat_id a, nat_id b, gap)) (pair_up qA qB)
    = map (\<lambda>k. (k, k, i \<noteq> j \<and> k = max i j)) [max i j..<min (i + length qA) (j + length qB)]"
  using assms
proof (induction qA qB arbitrary: i j rule: pair_up.induct)
  case (1 a qA b qB)
  show ?case
  proof (cases "max i j < i + length (a # qA) \<and> max i j < j + length (b # qB)")
    case True
    let ?m = "max i j"
    obtain a' qA' b' qB' where al: "align a qA b qB False = Some (a', qA', b', qB', i \<noteq> j)"
        and d: "a' # qA' = drop (?m - i) (a # qA)" "b' # qB' = drop (?m - j) (b # qB)"
      using align_consecutive [OF "1.prems", of False] True by auto
    have "consecutive (i + (?m - i)) (a' # qA')" "consecutive (j + (?m - j)) (b' # qB')"
      unfolding d by (rule consecutive_drop, fact "1.prems")+
    then have c: "nat_id a' = ?m" "nat_id b' = ?m" "consecutive (?m + 1) qA'" "consecutive (?m + 1) qB'"
      by simp_all
    have l: "?m + 1 + length qA' = i + length (a # qA)" "?m + 1 + length qB' = j + length (b # qB)"
      using arg_cong [OF d(1), of length] arg_cong [OF d(2), of length] True by simp_all
    have le: "length qA' \<le> length qA" using l(1) by simp
    note IH = "1.IH" [OF al refl refl refl refl le c(3,4)]
    have "[?m..<min (i + length (a # qA)) (j + length (b # qB))]
        = ?m # [?m + 1..<min (i + length (a # qA)) (j + length (b # qB))]"
      using upt_conv_Cons [of ?m "min (i + length (a # qA)) (j + length (b # qB))"] True
      by (simp only: min_less_iff_conj Suc_eq_plus1)
    moreover have "map (\<lambda>(a, b, gap). (nat_id a, nat_id b, gap)) (pair_up qA' qB')
        = map (\<lambda>k. (k, k, i \<noteq> j \<and> k = ?m)) [?m + 1..<min (i + length (a # qA)) (j + length (b # qB))]"
      unfolding IH using l by (intro map_cong) auto
    ultimately show ?thesis using al le c(1,2) by simp
  next
    case False
    then show ?thesis using align_waits [OF "1.prems"] by (simp add: less_Suc_eq_le)
  qed
qed simp_all

section \<open>Validity of the filter output\<close>

text \<open>The number of valid blocks at the end of the history.\<close>

definition trailing :: "bool list \<Rightarrow> nat" where
  "trailing vs = length (takeWhile id (rev vs))"

lemma trailing_simps [simp]:
  "trailing [] = 0"
  "trailing (vs @ [v]) = (if v then trailing vs + 1 else 0)"
  by (simp_all add: trailing_def)

lemma trailing_iff: "k \<le> trailing vs \<longleftrightarrow> k \<le> length vs \<and> (\<forall>v \<in> set (drop (length vs - k) vs). v)"
proof (induction vs arbitrary: k rule: rev_induct)
  case (snoc v vs)
  show ?case
  proof (cases k)
    case (Suc j)
    then show ?thesis using snoc.IH [of j] by (cases "j \<le> length vs") (auto simp: Suc_diff_le)
  qed simp
qed simp

definition input_valid :: "PacketBatch \<Rightarrow> PacketBatch \<Rightarrow> bool \<Rightarrow> bool" where
  "input_valid a b gap \<longleftrightarrow> \<not> gap \<and> batch_valid a \<and> batch_valid b"

lemma update_noise_state_sel [simp]:
  "m_pfb_invalid_blocks_remaining (update_noise_state fp cfg s g) = m_pfb_invalid_blocks_remaining g"
  "m_timestamp_ns (update_noise_state fp cfg s g) = m_timestamp_ns g"
  by (simp_all add: update_noise_state_def Let_def)

lemma load_block_valid:
  assumes "load_block fp cfg a b gap g = Inr g'"
    and "m_pfb_invalid_blocks_remaining g = num_taps - 1 - trailing vs"
  shows "m_pfb_invalid_blocks_remaining g' = num_taps - 1 - trailing (vs @ [input_valid a b gap])"
    "m_current_pfb_output_valid g' \<longleftrightarrow> num_taps \<le> trailing (vs @ [input_valid a b gap])"
proof -
  have "m_pfb_invalid_blocks_remaining g' =
      (if input_valid a b gap then m_pfb_invalid_blocks_remaining g - 1 else num_taps - 1)
    \<and> m_current_pfb_output_valid g' = (input_valid a b gap \<and> m_pfb_invalid_blocks_remaining g = 0)"
  proof -
    obtain ts where ts: "vdif_to_timestamp_ns (getReferenceEpoch (hdrs a ! 0)) (getSecondsFromEpoch (hdrs a ! 0))
        (getFrameNumber (hdrs a ! 0)) = Inr ts"
      using assms(1) unfolding load_block_def Let_def bind_result_Inr_iff by blast
    show ?thesis
    proof (cases "\<not> gap \<and> batch_valid a \<and> batch_valid b")
      case True
      then have "input_valid a b gap" by (simp add: input_valid_def)
      with True assms(1) show ?thesis unfolding load_block_def Let_def ts bind_result_simps
        by (cases "cfg_cal_mode cfg"; cases "m_pfb_invalid_blocks_remaining g") (auto simp del: de_Morgan_conj)
    next
      case False
      then have "\<not> input_valid a b gap" by (simp add: input_valid_def)
      with False assms(1) show ?thesis unfolding load_block_def Let_def ts bind_result_simps
        by (cases "cfg_cal_mode cfg") (auto simp: num_taps_def simp del: de_Morgan_conj)
    qed
  qed
  then show "m_pfb_invalid_blocks_remaining g' = num_taps - 1 - trailing (vs @ [input_valid a b gap])"
    "m_current_pfb_output_valid g' \<longleftrightarrow> num_taps \<le> trailing (vs @ [input_valid a b gap])"
    using assms(2) by (auto simp: num_taps_def)
qed

section \<open>The filter window\<close>

text \<open>The last blocks of a history that starts with silence.\<close>

definition window :: "nat \<Rightarrow> complexf list list \<Rightarrow> complexf list list" where
  "window N h = drop (length h) (replicate num_taps (replicate N (0, 0)) @ h)"

lemma length_window [simp]: "length (window N h) = num_taps"
  by (simp add: window_def)

lemma window_push: "window N (h @ [blk]) = tl (window N h) @ [blk]"
proof -
  have "window N (h @ [blk]) = drop (Suc (length h)) (replicate num_taps (replicate N (0, 0)) @ h) @ [blk]"
    by (simp add: window_def num_taps_def)
  also have "drop (Suc (length h)) (replicate num_taps (replicate N (0, 0)) @ h) = tl (window N h)"
    by (simp only: window_def drop_Suc tl_drop)
  finally show ?thesis .
qed

lemma window_nonempty [simp]: "window N h \<noteq> []"
proof -
  have "length (window N h) \<noteq> 0" unfolding length_window by (simp add: num_taps_def)
  then show ?thesis by (metis list.size(3))
qed

definition ring_ok :: "nat \<Rightarrow> complexf list \<Rightarrow> nat \<Rightarrow> complexf list list \<Rightarrow> bool" where
  "ring_ok N ring head h \<longleftrightarrow>
     (\<exists>new old. ring = concat (new @ old) \<and> (\<forall>b \<in> set (new @ old). length b = N)
        \<and> old \<noteq> [] \<and> head = length new * N \<and> old @ new = window N h)"

lemma length_concat_blocks: "\<forall>b \<in> set bs. length b = N \<Longrightarrow> length (concat bs) = length bs * N"
  by (induction bs) auto

lemma ring_ok_length:
  assumes "ring_ok N ring head h"
  shows "length ring = N * num_taps" "head + N \<le> length ring"
proof -
  obtain new old where r: "ring = concat (new @ old)" "\<forall>b \<in> set (new @ old). length b = N" "old \<noteq> []"
      "head = length new * N" "old @ new = window N h"
    using assms by (auto simp: ring_ok_def)
  have l: "length new + length old = num_taps"
    using arg_cong [OF r(5), of length] by simp
  show "length ring = N * num_taps" using r(1) length_concat_blocks [OF r(2)] l by simp
  moreover have "(length new + 1) * N \<le> num_taps * N" using r(3) l by (intro mult_le_mono1) (cases old; simp)
  ultimately show "head + N \<le> length ring" using r(4) by (simp add: algebra_simps)
qed

lemma ring_push:
  assumes "ring_ok N ring head h" "length blk = N" "0 < N"
  shows "ring_ok N (take head ring @ blk @ drop (head + N) ring) ((head + N) mod (N * num_taps)) (h @ [blk])"
proof -
  obtain new old where r: "ring = concat (new @ old)" "\<forall>b \<in> set (new @ old). length b = N" "old \<noteq> []"
      "head = length new * N" "old @ new = window N h"
    using assms by (auto simp: ring_ok_def)
  obtain o1 old' where o: "old = o1 # old'" using r(3) by (cases old) auto
  have l: "length new + length old = num_taps" using arg_cong [OF r(5), of length] by simp
  have cn: "length (concat new) = head" using r(2,4) length_concat_blocks [of new N] by simp
  have "length o1 = N" using r(2) o by simp
  then have ring: "take head ring @ blk @ drop (head + N) ring = concat ((new @ [blk]) @ old')"
    using cn by (simp add: r(1) o)
  have w: "old' @ new @ [blk] = window N (h @ [blk])" using r(5) o by (simp add: window_push flip: r(5))
  have len: "\<forall>b \<in> set ((new @ [blk]) @ old'). length b = N" using r(2) o assms(2) by auto
  show ?thesis
  proof (cases old')
    case Nil
    then have "length new + 1 = num_taps" using l o by simp
    then have "head + N = N * num_taps" using r(4) by (metis add.commute mult.commute mult_Suc Suc_eq_plus1)
    then show ?thesis unfolding ring ring_ok_def using w len Nil
      by (intro exI [of _ "[]"] exI [of _ "new @ [blk]"]) simp
  next
    case (Cons x xs)
    then have "length new + 1 < num_taps" using l o by simp
    then have "(length new + 1) * N < num_taps * N" using assms(3) by (rule mult_strict_right_mono)
    then have "(head + N) mod (N * num_taps) = length (new @ [blk]) * N" using r(4) by (simp add: algebra_simps)
    then show ?thesis unfolding ring ring_ok_def using w len Cons
      by (intro exI [of _ "new @ [blk]"] exI [of _ old']) simp
  qed
qed

lemma ring_filter:
  assumes "ring_ok N ring head h"
  shows "map (\<lambda>p. pfb_taps rnd ring taps N num_taps head p 0 num_taps (0, 0)) [0..<N]
    = map (\<lambda>p. pfb_window rnd taps N p 0 (window N h) (0, 0)) [0..<N]"
proof -
  obtain new old where r: "ring = concat (new @ old)" "\<forall>b \<in> set (new @ old). length b = N"
      "head = length new * N" "old @ new = window N h"
    using assms by (auto simp: ring_ok_def)
  have l: "length (new @ old) = num_taps" using arg_cong [OF r(4), of length] by simp
  have "pfb_taps rnd ring taps N num_taps head p 0 num_taps (0, 0)
      = pfb_window rnd taps N p 0 (window N h) (0, 0)" if "p < N" for p
    using pfb_taps_window [OF r(2) l that, of 0 num_taps rnd taps "(0, 0)"] r by simp
  then show ?thesis by simp
qed

lemma ring_init: "ring_ok N (replicate (N * num_taps) (0, 0)) 0 []"
proof -
  have "replicate (n * N) (0 :: real, 0 :: real) = concat (replicate n (replicate N (0, 0)))" for n
    by (induction n) (simp_all add: replicate_add)
  then have "replicate (N * num_taps) (0 :: real, 0 :: real) = concat ([] @ replicate num_taps (replicate N (0, 0)))"
    by (simp add: mult.commute)
  then show ?thesis unfolding ring_ok_def
    by (intro exI [of _ "[]"] exI [of _ "replicate num_taps (replicate N (0, 0))"]) (simp add: window_def num_taps_def)
qed

text \<open>What a submission of the raw blocks does to the rings and the filter output.\<close>

definition filter_inv :: "GpuPfbFft \<Rightarrow> complexf list list \<Rightarrow> complexf list list \<Rightarrow> bool" where
  "filter_inv g hA hB \<longleftrightarrow> 0 < m_Nfft g
     \<and> ring_ok (m_Nfft g) (m_d_inputA g) (m_pfb_head g) hA \<and> ring_ok (m_Nfft g) (m_d_inputB g) (m_pfb_head g) hB
     \<and> length (m_d_pfbedA g) = m_Nfft g \<and> length (m_d_pfbedB g) = m_Nfft g"

definition filtered :: "(real \<Rightarrow> real) \<Rightarrow> real list \<Rightarrow> nat \<Rightarrow> complexf list list \<Rightarrow> complexf list" where
  "filtered rnd taps N h = map (\<lambda>p. pfb_window rnd taps N p 0 (window N h) (0, 0)) [0..<N]"

lemma submit_filter:
  fixes rnd :: "real \<Rightarrow> real" and fft :: "complexf list \<Rightarrow> complexf list"
  assumes inv: "filter_inv g hA hB"
  defines "N \<equiv> m_Nfft g" and "g' \<equiv> submit_PFB_FFT rnd fft g"
  defines "hA' \<equiv> hA @ [convert_block rnd N (m_rawA g)]" and "hB' \<equiv> hB @ [convert_block rnd N (m_rawB g)]"
  shows "filter_inv g' hA' hB'" "m_d_pfbedA g' = filtered rnd (m_filters g) N hA'"
    "m_d_pfbedB g' = filtered rnd (m_filters g) N hB'"
    "m_ffted_bufsA g' = launch N (fftshift_1d N) (fft (filtered rnd (m_filters g) N hA'))"
    "m_ffted_bufsB g' = launch N (fftshift_1d N) (fft (filtered rnd (m_filters g) N hB'))"
proof -
  have N: "0 < N" and r: "ring_ok N (m_d_inputA g) (m_pfb_head g) hA" "ring_ok N (m_d_inputB g) (m_pfb_head g) hB"
      and lp: "length (m_d_pfbedA g) = N" "length (m_d_pfbedB g) = N"
    using inv by (simp_all add: filter_inv_def N_def)
  let ?h = "(m_pfb_head g + N) mod (N * num_taps)"
  let ?A = "launch N (uint8_offsetIQ_to_ring rnd (m_rawA g) N (m_pfb_head g) (N * num_taps)) (m_d_inputA g)"
  let ?B = "launch N (uint8_offsetIQ_to_ring rnd (m_rawB g) N (m_pfb_head g) (N * num_taps)) (m_d_inputB g)"
  note lA = ring_ok_length [OF r(1)] and lB = ring_ok_length [OF r(2)]
  have A: "ring_ok N ?A ?h hA'" unfolding hA'_def
    using ring_push [OF r(1) length_convert_block N] launch_convert [OF lA(2)] lA(1) by simp
  have B: "ring_ok N ?B ?h hB'" unfolding hB'_def
    using ring_push [OF r(2) length_convert_block N] launch_convert [OF lB(2)] lB(1) by simp
  have fA: "launch N (kernel_pfb_sum rnd ?A (m_filters g) N num_taps ?h) (m_d_pfbedA g) = filtered rnd (m_filters g) N hA'"
    unfolding filtered_def launch_pfb [OF lp(1)] by (rule ring_filter [OF A])
  have fB: "launch N (kernel_pfb_sum rnd ?B (m_filters g) N num_taps ?h) (m_d_pfbedB g) = filtered rnd (m_filters g) N hB'"
    unfolding filtered_def launch_pfb [OF lp(2)] by (rule ring_filter [OF B])
  have g': "g' = g\<lparr>m_d_inputA := ?A, m_d_inputB := ?B, m_pfb_head := ?h,
      m_d_pfbedA := filtered rnd (m_filters g) N hA', m_d_pfbedB := filtered rnd (m_filters g) N hB',
      m_ffted_bufsA := launch N (fftshift_1d N) (fft (filtered rnd (m_filters g) N hA')),
      m_ffted_bufsB := launch N (fftshift_1d N) (fft (filtered rnd (m_filters g) N hB'))\<rparr>"
    unfolding g'_def submit_PFB_FFT_def Let_def N_def [symmetric] fA fB by (rule refl)
  show "m_d_pfbedA g' = filtered rnd (m_filters g) N hA'" "m_d_pfbedB g' = filtered rnd (m_filters g) N hB'"
    "m_ffted_bufsA g' = launch N (fftshift_1d N) (fft (filtered rnd (m_filters g) N hA'))"
    "m_ffted_bufsB g' = launch N (fftshift_1d N) (fft (filtered rnd (m_filters g) N hB'))"
    by (simp_all add: g')
  show "filter_inv g' hA' hB'" using N A B
    by (simp add: filter_inv_def g' N_def [symmetric] filtered_def)
qed

end
