(* ===== verification/Gpu_Integration.thy ===== *)
theory Gpu_Integration
  imports Gpu_Input
begin

text \<open>
  Integration of spectra: an abstract specification that collects blocks into groups of the
  configured length, the proof that \<^verbatim>\<open>StokesAcc\<close> implements it, and the resulting properties of the
  published slots.
\<close>

section \<open>Specification\<close>

record acc_input =
  in_valid :: bool
  in_ts :: u64
  in_A :: "complexf list"
  in_B :: "complexf list"
  in_noise_on :: bool
  in_blank :: bool

text \<open>The groups being collected, with the noise source on and off, and the step for one block.\<close>

type_synonym groups = "acc_input list \<times> acc_input list"

definition push_group :: "nat \<Rightarrow> acc_input list \<Rightarrow> acc_input \<Rightarrow> acc_input list \<times> acc_input list option" where
  "push_group L grp x = (if length grp + 1 \<ge> L then ([], Some (grp @ [x])) else (grp @ [x], None))"

definition spec_step :: "bool \<Rightarrow> nat \<Rightarrow> groups \<Rightarrow> acc_input \<Rightarrow> groups \<times> (bool \<times> acc_input list) option" where
  "spec_step cal L gs x =
     (case gs of (on, off) \<Rightarrow>
        if \<not> in_valid x then (([], []), None)
        else if cal \<and> in_blank x then (gs, None)
        else if cal \<and> in_noise_on x
        then (case push_group L on x of (on', r) \<Rightarrow> ((on', off), map_option (Pair True) r))
        else (case push_group L off x of (off', r) \<Rightarrow> ((on, off'), map_option (Pair False) r)))"

definition sum_stokes :: "(real \<Rightarrow> real) \<Rightarrow> nat \<Rightarrow> acc_input list \<Rightarrow> float4 list" where
  "sum_stokes rnd N grp =
     foldl (\<lambda>acc x. map (\<lambda>i. add4 rnd (acc ! i) (stokes_of rnd (in_A x ! i) (in_B x ! i))) [0..<N])
       (replicate N zero4) grp"

definition sum_power :: "(real \<Rightarrow> real) \<Rightarrow> nat \<Rightarrow> acc_input list \<Rightarrow> real" where
  "sum_power rnd N grp = foldl (\<lambda>p x. continuum_power_accumulate rnd (in_A x) (in_B x) N p) 0 grp"

definition slot_matches :: "(real \<Rightarrow> real) \<Rightarrow> GlobalConfig \<Rightarrow> nat \<Rightarrow> HostRingSlot \<Rightarrow> bool \<times> acc_input list \<Rightarrow> bool" where
  "slot_matches rnd cfg N s r \<longleftrightarrow>
     slot_used s \<and> slot_first_timestamp_ns s = in_ts (hd (snd r)) \<and> slot_last_timestamp_ns s = in_ts (last (snd r))
     \<and> slot_noise_state s = (if fst r then NOISE_ON else NOISE_OFF)
     \<and> (observing cfg SPECTRAL \<longrightarrow> slot_data s = sum_stokes rnd N (snd r))
     \<and> (observing cfg CONTINUUM \<longrightarrow> slot_sumPower s = sum_power rnd N (snd r))"

section \<open>Refinement\<close>

definition input_of :: "fpu \<Rightarrow> GlobalConfig \<Rightarrow> GpuPfbFft \<Rightarrow> acc_input" where
  "input_of fp cfg g =
     \<lparr>in_valid = m_current_pfb_output_valid g, in_ts = m_timestamp_ns g, in_A = m_ffted_bufsA g,
      in_B = m_ffted_bufsB g, in_noise_on = (m_noise_state g = NOISE_ON),
      in_blank = is_noise_blank fp cfg (m_timestamp_ns g) g\<rparr>"

definition sums_ok :: "(real \<Rightarrow> real) \<Rightarrow> GlobalConfig \<Rightarrow> GpuPfbFft \<Rightarrow> groups \<Rightarrow> bool" where
  "sums_ok rnd cfg g gs \<longleftrightarrow>
     (observing cfg SPECTRAL \<longrightarrow> m_acc_stokes_ON g = sum_stokes rnd (m_Nfft g) (fst gs)
        \<and> m_acc_stokes_OFF g = sum_stokes rnd (m_Nfft g) (snd gs))
     \<and> (observing cfg CONTINUUM \<longrightarrow> d_sumPower_ON g = sum_power rnd (m_Nfft g) (fst gs)
        \<and> d_sumPower_OFF g = sum_power rnd (m_Nfft g) (snd gs))"

definition counts_ok :: "GlobalConfig \<Rightarrow> GpuPfbFft \<Rightarrow> groups \<Rightarrow> bool" where
  "counts_ok cfg g gs \<longleftrightarrow>
     length (fst gs) < unat (m_acc_len g) \<and> length (snd gs) < unat (m_acc_len g)
     \<and> (if cfg_cal_mode cfg
        then m_acc_on_id g = of_nat (length (fst gs)) \<and> m_acc_off_id g = of_nat (length (snd gs))
          \<and> (fst gs \<noteq> [] \<longrightarrow> m_acc_on_first_timestamp_ns g = in_ts (hd (fst gs)))
          \<and> (snd gs \<noteq> [] \<longrightarrow> m_acc_off_first_timestamp_ns g = in_ts (hd (snd gs)))
        else fst gs = [] \<and> m_acc_id g = of_nat (length (snd gs))
          \<and> (snd gs \<noteq> [] \<longrightarrow> slot_first_timestamp_ns (m_hring g ! m_hhead g) = in_ts (hd (snd gs))))"

definition acc_rel :: "(real \<Rightarrow> real) \<Rightarrow> GlobalConfig \<Rightarrow> GpuPfbFft \<Rightarrow> groups \<Rightarrow> bool" where
  "acc_rel rnd cfg g gs \<longleftrightarrow> sums_ok rnd cfg g gs \<and> counts_ok cfg g gs
     \<and> length (m_hring g) = NUM_SLOTS \<and> m_hhead g < NUM_SLOTS
     \<and> (m_accumulators_reset_for_gap g \<longrightarrow> gs = ([], []))"

lemma sum_snoc:
  "sum_stokes rnd N (grp @ [x])
    = map (\<lambda>i. add4 rnd (sum_stokes rnd N grp ! i) (stokes_of rnd (in_A x ! i) (in_B x ! i))) [0..<N]"
  "sum_power rnd N (grp @ [x]) = continuum_power_accumulate rnd (in_A x) (in_B x) N (sum_power rnd N grp)"
  by (simp_all add: sum_stokes_def sum_power_def)

lemma sum_Nil [simp]: "sum_stokes rnd N [] = replicate N zero4" "sum_power rnd N [] = 0"
  by (simp_all add: sum_stokes_def sum_power_def)

lemma length_sum_stokes [simp]: "length (sum_stokes rnd N grp) = N"
  by (induction grp rule: rev_induct) (simp_all add: sum_snoc)

lemma counter_reached:
  fixes L :: u32
  assumes "n < unat L"
  shows "of_nat n + 1 \<ge> L \<longleftrightarrow> n + 1 \<ge> unat L" "(of_nat n + 1 :: u32) = of_nat (n + 1)" "(of_nat n = (0 :: u32)) \<longleftrightarrow> n = 0"
proof -
  have "unat L < 2 ^ 32" using unsigned_less [of L] by simp
  then have n: "n + 1 < 2 ^ 32" using assms by linarith
  show e: "(of_nat n + 1 :: u32) = of_nat (n + 1)" by simp
  have "unat (of_nat (n + 1) :: u32) = n + 1" unfolding unat_of_nat using n by simp
  then show "of_nat n + 1 \<ge> L \<longleftrightarrow> n + 1 \<ge> unat L" unfolding e word_le_nat_alt by (simp only:)
  show "(of_nat n = (0 :: u32)) \<longleftrightarrow> n = 0" using n by (simp add: word_eq_unat unat_of_nat)
qed

lemma reset_rel:
  assumes "acc_rel rnd cfg g gs" "cfg_observation_mode cfg \<noteq> BASEBAND"
  shows "acc_rel rnd cfg (reset_for_gap cfg g) ([], [])" "m_hhead (reset_for_gap cfg g) = m_hhead g"
proof -
  have "0 < unat (m_acc_len g)" using assms by (auto simp: acc_rel_def counts_ok_def)
  then show "acc_rel rnd cfg (reset_for_gap cfg g) ([], [])"
    using assms by (cases "cfg_observation_mode cfg"; cases "m_accumulators_reset_for_gap g")
      (auto simp: reset_for_gap_def Let_def acc_rel_def sums_ok_def counts_ok_def observing_def)
  show "m_hhead (reset_for_gap cfg g) = m_hhead g" by (simp add: reset_for_gap_def Let_def)
qed

text \<open>What a step does to the ring of results: it publishes a group or leaves the head where it is.\<close>

definition publishes :: "(real \<Rightarrow> real) \<Rightarrow> GlobalConfig \<Rightarrow> GpuPfbFft \<Rightarrow> GpuPfbFft \<Rightarrow> (bool \<times> acc_input list) option \<Rightarrow> bool" where
  "publishes rnd cfg g g' r \<longleftrightarrow>
     m_Nfft g' = m_Nfft g \<and> m_acc_len g' = m_acc_len g
     \<and> (\<forall>k. k \<noteq> m_hhead g \<longrightarrow> m_hring g' ! k = m_hring g ! k)
     \<and> (case r of
          None \<Rightarrow> m_hhead g' = m_hhead g
        | Some grp \<Rightarrow> m_hhead g' = (m_hhead g + 1) mod NUM_SLOTS
            \<and> slot_matches rnd cfg (m_Nfft g) (m_hring g' ! m_hhead g) grp)"

lemma hd_snoc: "hd (xs @ [x]) = (if xs = [] then x else hd xs)"
  by (cases xs) simp_all

lemma head_in_ring: "(h + 1) mod NUM_SLOTS < NUM_SLOTS"
  by (simp add: NUM_SLOTS_def)


definition on_stokes :: "(real \<Rightarrow> real) \<Rightarrow> GlobalConfig \<Rightarrow> GpuPfbFft \<Rightarrow> float4 list" where
  "on_stokes rnd cfg g = m_acc_stokes_ON (accumulate_ON rnd cfg g)"

definition on_power :: "(real \<Rightarrow> real) \<Rightarrow> GlobalConfig \<Rightarrow> GpuPfbFft \<Rightarrow> real" where
  "on_power rnd cfg g = d_sumPower_ON (accumulate_ON rnd cfg g)"

definition off_stokes :: "(real \<Rightarrow> real) \<Rightarrow> GlobalConfig \<Rightarrow> GpuPfbFft \<Rightarrow> float4 list" where
  "off_stokes rnd cfg g = m_acc_stokes_OFF (accumulate_OFF rnd cfg g)"

definition off_power :: "(real \<Rightarrow> real) \<Rightarrow> GlobalConfig \<Rightarrow> GpuPfbFft \<Rightarrow> real" where
  "off_power rnd cfg g = d_sumPower_OFF (accumulate_OFF rnd cfg g)"

lemma accumulate_upd:
  "accumulate_ON rnd cfg g = g\<lparr>m_acc_stokes_ON := on_stokes rnd cfg g, d_sumPower_ON := on_power rnd cfg g\<rparr>"
  "accumulate_OFF rnd cfg g = g\<lparr>m_acc_stokes_OFF := off_stokes rnd cfg g, d_sumPower_OFF := off_power rnd cfg g\<rparr>"
  by (simp_all add: accumulate_ON_def accumulate_OFF_def on_stokes_def on_power_def off_stokes_def off_power_def Let_def)

text \<open>The accumulators after a block, as sums of the group with the block appended.\<close>

lemma on_sums:
  assumes "sums_ok rnd cfg g gs" "in_A x = m_ffted_bufsA g" "in_B x = m_ffted_bufsB g"
  shows "observing cfg SPECTRAL \<Longrightarrow> on_stokes rnd cfg g = sum_stokes rnd (m_Nfft g) (fst gs @ [x])"
    "observing cfg CONTINUUM \<Longrightarrow> on_power rnd cfg g = sum_power rnd (m_Nfft g) (fst gs @ [x])"
  using assms by (auto simp: on_stokes_def on_power_def accumulate_ON_def Let_def sums_ok_def sum_snoc launch_stokes observing_def)

lemma off_sums:
  assumes "sums_ok rnd cfg g gs" "in_A x = m_ffted_bufsA g" "in_B x = m_ffted_bufsB g"
  shows "observing cfg SPECTRAL \<Longrightarrow> off_stokes rnd cfg g = sum_stokes rnd (m_Nfft g) (snd gs @ [x])"
    "observing cfg CONTINUUM \<Longrightarrow> off_power rnd cfg g = sum_power rnd (m_Nfft g) (snd gs @ [x])"
  using assms by (auto simp: off_stokes_def off_power_def accumulate_OFF_def Let_def sums_ok_def sum_snoc launch_stokes observing_def)

text \<open>The accumulators see neither the counters nor the ring.\<close>

lemma on_cong:
  assumes "m_Nfft g' = m_Nfft g" "m_ffted_bufsA g' = m_ffted_bufsA g" "m_ffted_bufsB g' = m_ffted_bufsB g"
    "m_acc_stokes_ON g' = m_acc_stokes_ON g" "d_sumPower_ON g' = d_sumPower_ON g"
  shows "on_stokes rnd cfg g' = on_stokes rnd cfg g" "on_power rnd cfg g' = on_power rnd cfg g"
  using assms by (simp_all add: on_stokes_def on_power_def accumulate_ON_def Let_def)

lemma off_cong:
  assumes "m_Nfft g' = m_Nfft g" "m_ffted_bufsA g' = m_ffted_bufsA g" "m_ffted_bufsB g' = m_ffted_bufsB g"
    "m_acc_stokes_OFF g' = m_acc_stokes_OFF g" "d_sumPower_OFF g' = d_sumPower_OFF g"
  shows "off_stokes rnd cfg g' = off_stokes rnd cfg g" "off_power rnd cfg g' = off_power rnd cfg g"
  using assms by (simp_all add: off_stokes_def off_power_def accumulate_OFF_def Let_def)

text \<open>The slot that a complete group is written to.\<close>

definition filled_slot :: "GlobalConfig \<Rightarrow> float4 list \<Rightarrow> real \<Rightarrow> NoiseState \<Rightarrow> u64 \<Rightarrow> u64 \<Rightarrow> HostRingSlot \<Rightarrow> HostRingSlot" where
  "filled_slot cfg acc pow noise t0 t1 s =
     s\<lparr>slot_data := (if observing cfg SPECTRAL then acc else slot_data s),
       slot_sumPower := (if observing cfg CONTINUUM then pow else slot_sumPower s), slot_used := True,
       slot_first_timestamp_ns := t0, slot_last_timestamp_ns := t1, slot_noise_state := noise\<rparr>"


lemma update_slot_sel [simp]:
  "m_acc_stokes_ON (update_slot f g) = m_acc_stokes_ON g" "d_sumPower_ON (update_slot f g) = d_sumPower_ON g"
  "m_acc_stokes_OFF (update_slot f g) = m_acc_stokes_OFF g" "d_sumPower_OFF (update_slot f g) = d_sumPower_OFF g"
  by (simp_all add: update_slot_def)

lemma copy_result_slot:
  assumes "m_hhead g < length (m_hring g)"
  shows "copy_result cfg acc pow noise (update_slot (\<lambda>s. s\<lparr>slot_first_timestamp_ns := t0, slot_last_timestamp_ns := t1\<rparr>) g)
    = g\<lparr>m_hring := (m_hring g)[m_hhead g := filled_slot cfg acc pow noise t0 t1 (m_hring g ! m_hhead g)]\<rparr>"
  using assms by (cases "m_hring g ! m_hhead g") (simp add: copy_result_def update_slot_def filled_slot_def Let_def)

lemma acc_cal_on_form:
  assumes "m_hhead g < length (m_hring g)"
  shows "acc_cal_on rnd cfg g =
     (let t0 = (if m_acc_on_id g = 0 then m_timestamp_ns g else m_acc_on_first_timestamp_ns g);
          g1 = g\<lparr>m_acc_on_first_timestamp_ns := t0, m_acc_on_id := m_acc_on_id g + 1,
                 m_acc_stokes_ON := on_stokes rnd cfg g, d_sumPower_ON := on_power rnd cfg g\<rparr>
      in if m_acc_on_id g + 1 \<ge> m_acc_len g
         then g1\<lparr>m_hring := (m_hring g)[m_hhead g :=
                   filled_slot cfg (on_stokes rnd cfg g) (on_power rnd cfg g) NOISE_ON t0 (m_timestamp_ns g) (m_hring g ! m_hhead g)],
                 m_acc_stokes_ON := replicate (m_Nfft g) zero4, d_sumPower_ON := 0,
                 m_acc_on_id := 0, m_acc_on_first_timestamp_ns := 0,
                 m_hhead := (m_hhead g + 1) mod NUM_SLOTS\<rparr>
         else g1)"
proof -
  define t0 where "t0 = (if m_acc_on_id g = 0 then m_timestamp_ns g else m_acc_on_first_timestamp_ns g)"
  have t0: "(if m_acc_on_id g = 0 then g\<lparr>m_acc_on_first_timestamp_ns := m_timestamp_ns g\<rparr> else g)
      = g\<lparr>m_acc_on_first_timestamp_ns := t0\<rparr>" by (simp add: t0_def)
  have c: "on_stokes rnd cfg (g\<lparr>m_acc_on_first_timestamp_ns := t0, m_acc_on_id := i\<rparr>) = on_stokes rnd cfg g"
    "on_power rnd cfg (g\<lparr>m_acc_on_first_timestamp_ns := t0, m_acc_on_id := i\<rparr>) = on_power rnd cfg g" for i
    by (rule on_cong; simp)+
  show ?thesis unfolding acc_cal_on_def accumulate_upd t0 t0_def [symmetric] Let_def using assms
    by (simp add: c copy_result_slot next_slot_def)
qed

lemma acc_cal_off_form:
  assumes "m_hhead g < length (m_hring g)"
  shows "acc_cal_off rnd cfg g =
     (let t0 = (if m_acc_off_id g = 0 then m_timestamp_ns g else m_acc_off_first_timestamp_ns g);
          g1 = g\<lparr>m_acc_off_first_timestamp_ns := t0, m_acc_off_id := m_acc_off_id g + 1,
                 m_acc_stokes_OFF := off_stokes rnd cfg g, d_sumPower_OFF := off_power rnd cfg g\<rparr>
      in if m_acc_off_id g + 1 \<ge> m_acc_len g
         then g1\<lparr>m_hring := (m_hring g)[m_hhead g :=
                   filled_slot cfg (off_stokes rnd cfg g) (off_power rnd cfg g) NOISE_OFF t0 (m_timestamp_ns g) (m_hring g ! m_hhead g)],
                 m_acc_stokes_OFF := replicate (m_Nfft g) zero4, d_sumPower_OFF := 0,
                 m_acc_off_id := 0, m_acc_off_first_timestamp_ns := 0,
                 m_hhead := (m_hhead g + 1) mod NUM_SLOTS\<rparr>
         else g1)"
proof -
  define t0 where "t0 = (if m_acc_off_id g = 0 then m_timestamp_ns g else m_acc_off_first_timestamp_ns g)"
  have t0: "(if m_acc_off_id g = 0 then g\<lparr>m_acc_off_first_timestamp_ns := m_timestamp_ns g\<rparr> else g)
      = g\<lparr>m_acc_off_first_timestamp_ns := t0\<rparr>" by (simp add: t0_def)
  have c: "off_stokes rnd cfg (g\<lparr>m_acc_off_first_timestamp_ns := t0, m_acc_off_id := i\<rparr>) = off_stokes rnd cfg g"
    "off_power rnd cfg (g\<lparr>m_acc_off_first_timestamp_ns := t0, m_acc_off_id := i\<rparr>) = off_power rnd cfg g" for i
    by (rule off_cong; simp)+
  show ?thesis unfolding acc_cal_off_def accumulate_upd t0 t0_def [symmetric] Let_def using assms
    by (simp add: c copy_result_slot next_slot_def)
qed

lemma acc_no_cal_form:
  assumes "m_hhead g < length (m_hring g)"
  shows "acc_no_cal rnd cfg g =
     (let s = m_hring g ! m_hhead g;
          t0 = (if m_acc_id g = 0 then m_timestamp_ns g else slot_first_timestamp_ns s);
          g1 = g\<lparr>m_hring := (m_hring g)[m_hhead g := s\<lparr>slot_first_timestamp_ns := t0\<rparr>], m_acc_id := m_acc_id g + 1,
                 m_acc_stokes_OFF := off_stokes rnd cfg g, d_sumPower_OFF := off_power rnd cfg g\<rparr>
      in if m_acc_id g + 1 \<ge> m_acc_len g
         then g1\<lparr>m_hring := (m_hring g)[m_hhead g :=
                   filled_slot cfg (off_stokes rnd cfg g) (off_power rnd cfg g) NOISE_OFF t0 (m_timestamp_ns g) s],
                 m_acc_id := 0, d_sumPower_OFF := 0, m_acc_stokes_OFF := replicate (m_Nfft g) zero4,
                 m_hhead := (m_hhead g + 1) mod NUM_SLOTS\<rparr>
         else g1)"
proof -
  define s where "s = m_hring g ! m_hhead g"
  define t0 where "t0 = (if m_acc_id g = 0 then m_timestamp_ns g else slot_first_timestamp_ns s)"
  let ?R = "(m_hring g)[m_hhead g := s\<lparr>slot_first_timestamp_ns := t0\<rparr>]"
  have t0: "(if m_acc_id g = 0 then update_slot (\<lambda>s. s\<lparr>slot_first_timestamp_ns := m_timestamp_ns g\<rparr>) g else g)
      = g\<lparr>m_hring := ?R\<rparr>" by (cases g) (simp add: t0_def update_slot_def s_def)
  have c: "off_stokes rnd cfg (g\<lparr>m_hring := ?R, m_acc_id := i\<rparr>) = off_stokes rnd cfg g"
    "off_power rnd cfg (g\<lparr>m_hring := ?R, m_acc_id := i\<rparr>) = off_power rnd cfg g" for i
    by (rule off_cong; simp)+
  have cp: "copy_result cfg acc pow noise (update_slot (\<lambda>s. s\<lparr>slot_last_timestamp_ns := t1\<rparr>)
        (g\<lparr>m_hring := ?R, m_acc_id := i, m_acc_stokes_OFF := a, d_sumPower_OFF := p\<rparr>))
    = g\<lparr>m_hring := (m_hring g)[m_hhead g := filled_slot cfg acc pow noise t0 t1 s], m_acc_id := i,
        m_acc_stokes_OFF := a, d_sumPower_OFF := p\<rparr>" for acc pow noise t1 i a p
    using assms by (cases s) (simp add: copy_result_def update_slot_def filled_slot_def Let_def)
  show ?thesis unfolding acc_no_cal_def accumulate_upd t0 s_def [symmetric] t0_def [symmetric] Let_def using assms
    by (simp add: c cp next_slot_def)
qed

lemma filled_slot_matches:
  assumes "t0 = in_ts (hd grp)" "t1 = in_ts (last grp)" "noise = (if on then NOISE_ON else NOISE_OFF)"
    and "observing cfg SPECTRAL \<Longrightarrow> acc = sum_stokes rnd N grp" "observing cfg CONTINUUM \<Longrightarrow> pow = sum_power rnd N grp"
  shows "slot_matches rnd cfg N (filled_slot cfg acc pow noise t0 t1 s) (on, grp)"
  using assms by (simp add: slot_matches_def filled_slot_def)

lemma acc_cal_on_step:
  assumes rel: "acc_rel rnd cfg g (on, off)" and flag: "\<not> m_accumulators_reset_for_gap g"
    and cal: "cfg_cal_mode cfg"
    and x: "in_A x = m_ffted_bufsA g" "in_B x = m_ffted_bufsB g" "in_ts x = m_timestamp_ns g"
    and push: "push_group (unat (m_acc_len g)) on x = (on', r)"
  shows "acc_rel rnd cfg (acc_cal_on rnd cfg g) (on', off)
    \<and> publishes rnd cfg g (acc_cal_on rnd cfg g) (map_option (Pair True) r)"
proof -
  have sums: "sums_ok rnd cfg g (on, off)" and counts: "counts_ok cfg g (on, off)"
      and ring: "length (m_hring g) = NUM_SLOTS" "m_hhead g < NUM_SLOTS" "m_hhead g < length (m_hring g)"
    using rel by (simp_all add: acc_rel_def)
  have n: "length on < unat (m_acc_len g)" "m_acc_on_id g = of_nat (length on)"
    using counts cal by (simp_all add: counts_ok_def)
  note c = counter_reached [OF n(1)] and S = on_sums [OF sums x(1,2), unfolded fst_conv]
  define t0 where "t0 = (if m_acc_on_id g = 0 then m_timestamp_ns g else m_acc_on_first_timestamp_ns g)"
  have t0: "t0 = in_ts (hd (on @ [x]))" using counts cal x(3) c(3) n(2) by (auto simp: t0_def counts_ok_def hd_snoc)
  note form = acc_cal_on_form [OF ring(3), of rnd cfg, unfolded Let_def, folded t0_def, unfolded n(2) c(1)]
  show ?thesis
  proof (cases "length on + 1 \<ge> unat (m_acc_len g)")
    case True
    then have p: "on' = []" "r = Some (on @ [x])" using push by (simp_all add: push_group_def)
    have "slot_matches rnd cfg (m_Nfft g) (filled_slot cfg (on_stokes rnd cfg g) (on_power rnd cfg g) NOISE_ON t0
        (m_timestamp_ns g) (m_hring g ! m_hhead g)) (True, on @ [x])"
      using t0 x(3) S by (intro filled_slot_matches) simp_all
    then show ?thesis unfolding form p using True ring sums counts cal flag n(1)
      by (simp add: acc_rel_def publishes_def sums_ok_def counts_ok_def head_in_ring)
  next
    case False
    then have p: "on' = on @ [x]" "r = None" using push by (simp_all add: push_group_def)
    show ?thesis unfolding form p using False ring sums counts cal flag n(1) t0 S
      by (simp add: acc_rel_def publishes_def sums_ok_def counts_ok_def hd_snoc)
  qed
qed

lemma acc_cal_off_step:
  assumes rel: "acc_rel rnd cfg g (on, off)" and flag: "\<not> m_accumulators_reset_for_gap g"
    and cal: "cfg_cal_mode cfg"
    and x: "in_A x = m_ffted_bufsA g" "in_B x = m_ffted_bufsB g" "in_ts x = m_timestamp_ns g"
    and push: "push_group (unat (m_acc_len g)) off x = (off', r)"
  shows "acc_rel rnd cfg (acc_cal_off rnd cfg g) (on, off')
    \<and> publishes rnd cfg g (acc_cal_off rnd cfg g) (map_option (Pair False) r)"
proof -
  have sums: "sums_ok rnd cfg g (on, off)" and counts: "counts_ok cfg g (on, off)"
      and ring: "length (m_hring g) = NUM_SLOTS" "m_hhead g < NUM_SLOTS" "m_hhead g < length (m_hring g)"
    using rel by (simp_all add: acc_rel_def)
  have n: "length off < unat (m_acc_len g)" "m_acc_off_id g = of_nat (length off)"
    using counts cal by (simp_all add: counts_ok_def)
  note c = counter_reached [OF n(1)] and S = off_sums [OF sums x(1,2), unfolded snd_conv]
  define t0 where "t0 = (if m_acc_off_id g = 0 then m_timestamp_ns g else m_acc_off_first_timestamp_ns g)"
  have t0: "t0 = in_ts (hd (off @ [x]))" using counts cal x(3) c(3) n(2) by (auto simp: t0_def counts_ok_def hd_snoc)
  note form = acc_cal_off_form [OF ring(3), of rnd cfg, unfolded Let_def, folded t0_def, unfolded n(2) c(1)]
  show ?thesis
  proof (cases "length off + 1 \<ge> unat (m_acc_len g)")
    case True
    then have p: "off' = []" "r = Some (off @ [x])" using push by (simp_all add: push_group_def)
    have "slot_matches rnd cfg (m_Nfft g) (filled_slot cfg (off_stokes rnd cfg g) (off_power rnd cfg g) NOISE_OFF t0
        (m_timestamp_ns g) (m_hring g ! m_hhead g)) (False, off @ [x])"
      using t0 x(3) S by (intro filled_slot_matches) simp_all
    then show ?thesis unfolding form p using True ring sums counts cal flag n(1)
      by (simp add: acc_rel_def publishes_def sums_ok_def counts_ok_def head_in_ring)
  next
    case False
    then have p: "off' = off @ [x]" "r = None" using push by (simp_all add: push_group_def)
    show ?thesis unfolding form p using False ring sums counts cal flag n(1) t0 S
      by (simp add: acc_rel_def publishes_def sums_ok_def counts_ok_def hd_snoc)
  qed
qed

lemma acc_no_cal_step:
  assumes rel: "acc_rel rnd cfg g (on, off)" and flag: "\<not> m_accumulators_reset_for_gap g"
    and cal: "\<not> cfg_cal_mode cfg"
    and x: "in_A x = m_ffted_bufsA g" "in_B x = m_ffted_bufsB g" "in_ts x = m_timestamp_ns g"
    and push: "push_group (unat (m_acc_len g)) off x = (off', r)"
  shows "acc_rel rnd cfg (acc_no_cal rnd cfg g) (on, off')
    \<and> publishes rnd cfg g (acc_no_cal rnd cfg g) (map_option (Pair False) r)"
proof -
  have sums: "sums_ok rnd cfg g (on, off)" and counts: "counts_ok cfg g (on, off)"
      and ring: "length (m_hring g) = NUM_SLOTS" "m_hhead g < NUM_SLOTS" "m_hhead g < length (m_hring g)"
    using rel by (simp_all add: acc_rel_def)
  have n: "length off < unat (m_acc_len g)" "m_acc_id g = of_nat (length off)"
    using counts cal by (simp_all add: counts_ok_def)
  note c = counter_reached [OF n(1)] and S = off_sums [OF sums x(1,2), unfolded snd_conv]
  define t0 where "t0 = (if m_acc_id g = 0 then m_timestamp_ns g else slot_first_timestamp_ns (m_hring g ! m_hhead g))"
  have t0: "t0 = in_ts (hd (off @ [x]))" using counts cal x(3) c(3) n(2) by (auto simp: t0_def counts_ok_def hd_snoc)
  note form = acc_no_cal_form [OF ring(3), of rnd cfg, unfolded Let_def, folded t0_def, unfolded n(2) c(1)]
  show ?thesis
  proof (cases "length off + 1 \<ge> unat (m_acc_len g)")
    case True
    then have p: "off' = []" "r = Some (off @ [x])" using push by (simp_all add: push_group_def)
    have "slot_matches rnd cfg (m_Nfft g) (filled_slot cfg (off_stokes rnd cfg g) (off_power rnd cfg g) NOISE_OFF t0
        (m_timestamp_ns g) (m_hring g ! m_hhead g)) (False, off @ [x])"
      using t0 x(3) S by (intro filled_slot_matches) simp_all
    then show ?thesis unfolding form p using True ring sums counts cal flag n(1)
      by (simp add: acc_rel_def publishes_def sums_ok_def counts_ok_def head_in_ring)
  next
    case False
    then have p: "off' = off @ [x]" "r = None" using push by (simp_all add: push_group_def)
    show ?thesis unfolding form p using False ring sums counts cal flag n(1) t0 S
      by (simp add: acc_rel_def publishes_def sums_ok_def counts_ok_def hd_snoc)
  qed
qed


lemma StokesAcc_refines:
  assumes rel: "acc_rel rnd cfg g gs" and mode: "cfg_observation_mode cfg \<noteq> BASEBAND"
    and spec: "spec_step (cfg_cal_mode cfg) (unat (m_acc_len g)) gs (input_of fp cfg g) = (gs', r)"
  shows "acc_rel rnd cfg (StokesAcc fp rnd cfg g) gs' \<and> publishes rnd cfg g (StokesAcc fp rnd cfg g) r"
proof (cases "m_current_pfb_output_valid g")
  case False
  then have p: "gs' = ([], [])" "r = None" "StokesAcc fp rnd cfg g = reset_for_gap cfg g"
    using spec by (simp_all add: spec_step_def input_of_def StokesAcc_def split: prod.splits)
  show ?thesis unfolding p using reset_rel [OF rel mode]
    by (simp add: publishes_def reset_for_gap_def Let_def)
next
  case True
  obtain on off where gs: "gs = (on, off)" by (cases gs)
  define h where "h = g\<lparr>m_accumulators_reset_for_gap := False\<rparr>"
  let ?x = "input_of fp cfg g"
  have h: "acc_rel rnd cfg h (on, off)" "\<not> m_accumulators_reset_for_gap h" "m_acc_len h = m_acc_len g"
    using rel by (cases "cfg_cal_mode cfg"; simp add: h_def gs acc_rel_def sums_ok_def counts_ok_def)+
  have x: "in_A ?x = m_ffted_bufsA h" "in_B ?x = m_ffted_bufsB h" "in_ts ?x = m_timestamp_ns h"
    "in_valid ?x" "in_noise_on ?x = (m_noise_state h = NOISE_ON)"
    "in_blank ?x = is_noise_blank fp cfg (m_timestamp_ns h) h"
    using True by (simp_all add: input_of_def h_def is_noise_blank_def)
  have pub: "publishes rnd cfg g g' q \<longleftrightarrow> publishes rnd cfg h g' q" for g' q
    by (cases q) (simp_all add: publishes_def h_def)
  have stokes: "StokesAcc fp rnd cfg g =
      (if cfg_cal_mode cfg then if in_blank ?x then h else if in_noise_on ?x then acc_cal_on rnd cfg h else acc_cal_off rnd cfg h
       else acc_no_cal rnd cfg h)"
    using True by (simp only: StokesAcc_def x h_def [symmetric] Let_def) simp
  obtain on' r1 where p1: "push_group (unat (m_acc_len h)) on ?x = (on', r1)" by fastforce
  obtain off' r2 where p2: "push_group (unat (m_acc_len h)) off ?x = (off', r2)" by fastforce
  note steps = acc_cal_on_step [OF h(1,2) _ x(1-3) p1] acc_cal_off_step [OF h(1,2) _ x(1-3) p2]
    acc_no_cal_step [OF h(1,2) _ x(1-3) p2]
  consider "cfg_cal_mode cfg" "in_blank ?x" | "cfg_cal_mode cfg" "\<not> in_blank ?x" "in_noise_on ?x"
    | "cfg_cal_mode cfg" "\<not> in_blank ?x" "\<not> in_noise_on ?x" | "\<not> cfg_cal_mode cfg" by blast
  then show ?thesis
  proof cases
    case 1
    then have "gs' = gs" "r = None" using spec x(4) by (simp_all add: spec_step_def gs)
    then show ?thesis using 1 h(1) by (simp add: stokes pub gs) (simp add: publishes_def)
  next
    case 2
    then have "gs' = (on', off)" "r = map_option (Pair True) r1"
      using spec x(4) p1 h(3) by (simp_all add: spec_step_def gs)
    then show ?thesis using 2 steps(1) by (simp add: stokes pub)
  next
    case 3
    then have "gs' = (on, off')" "r = map_option (Pair False) r2"
      using spec x(4) p2 h(3) by (simp_all add: spec_step_def gs)
    then show ?thesis using 3 steps(2) by (simp add: stokes pub)
  next
    case 4
    then have "gs' = (on, off')" "r = map_option (Pair False) r2"
      using spec x(4) p2 h(3) by (simp_all add: spec_step_def gs)
    then show ?thesis using 4 steps(3) by (simp add: stokes pub)
  qed
qed

end
