(* ===== verification/Gpu_Run.thy ===== *)
theory Gpu_Run
  imports Gpu_Integration
begin

text \<open>
  Whole runs of the loop of a subband: the blocks that the loop integrates, as a function of the batches
  in the two queues alone, and the proof that the slots it publishes are the integrations of the
  specification over these blocks.
\<close>

section \<open>The loop\<close>

lemma align_shorter: "align a qA b qB gap = Some (a', qA', b', qB', gap') \<Longrightarrow> length qA' \<le> length qA"
proof (induction a qA b qB gap rule: align.induct)
  case (1 a qA b qB gap)
  then show ?case by (subst (asm) (3) align.simps) (fastforce split: if_splits list.splits)
qed

text \<open>The slots that the loop publishes until a queue runs out or a time stamp is rejected.\<close>

function subband_run :: "fpu \<Rightarrow> (real \<Rightarrow> real) \<Rightarrow> (complexf list \<Rightarrow> complexf list) \<Rightarrow> GlobalConfig \<Rightarrow>
    PacketBatch list \<Rightarrow> PacketBatch list \<Rightarrow> GpuPfbFft \<Rightarrow> HostRingSlot list" where
  "subband_run fp rnd fft cfg qA qB g =
     (case subband_round fp rnd fft cfg qA qB g of
        None \<Rightarrow> []
      | Some (Inl e, qA', qB') \<Rightarrow> []
      | Some (Inr g', qA', qB') \<Rightarrow>
          (if m_hhead g' = m_hhead g then [] else [m_hring g' ! m_hhead g]) @ subband_run fp rnd fft cfg qA' qB' g')"
  by pat_completeness auto
termination
  by (relation "measure (\<lambda>(fp, rnd, fft, cfg, qA, qB, g). length qA)")
    (auto simp: subband_round_def accumulate_one_block_def less_Suc_eq_le dest: align_shorter
       split: list.splits option.splits prod.splits)

declare subband_run.simps [simp del]

section \<open>Blocks\<close>

type_synonym batch_pair = "PacketBatch \<times> PacketBatch \<times> bool"

definition pair_valid :: "batch_pair \<Rightarrow> bool" where
  "pair_valid p = (case p of (a, b, gap) \<Rightarrow> input_valid a b gap)"

definition pair_time :: "batch_pair \<Rightarrow> u64 result" where
  "pair_time p = (let h = hdrs (fst p) ! 0
     in vdif_to_timestamp_ns (getReferenceEpoch h) (getSecondsFromEpoch h) (getFrameNumber h))"

text \<open>The samples that reach the filter: those of the batch, or zero bytes when the pair is not valid.\<close>

definition raw_block :: "nat \<Rightarrow> bool \<Rightarrow> PacketBatch \<Rightarrow> bytes" where
  "raw_block N valid b = (if valid then take (N * 2) (concat (buffer b)) else replicate (N * 2) 0)"

definition samplesA :: "(real \<Rightarrow> real) \<Rightarrow> nat \<Rightarrow> batch_pair \<Rightarrow> complexf list" where
  "samplesA rnd N p = convert_block rnd N (raw_block N (pair_valid p) (fst p))"

definition samplesB :: "(real \<Rightarrow> real) \<Rightarrow> nat \<Rightarrow> batch_pair \<Rightarrow> complexf list" where
  "samplesB rnd N p = convert_block rnd N (raw_block N (pair_valid p) (fst (snd p)))"

definition spectrum :: "(real \<Rightarrow> real) \<Rightarrow> (complexf list \<Rightarrow> complexf list) \<Rightarrow> real list \<Rightarrow> nat \<Rightarrow> complexf list list \<Rightarrow> complexf list" where
  "spectrum rnd fft taps N h = launch N (fftshift_1d N) (fft (filtered rnd taps N h))"

text \<open>The start of the noise cycle and the noise state after a history.\<close>

definition noise_step :: "fpu \<Rightarrow> GlobalConfig \<Rightarrow> u64 \<times> NoiseState \<Rightarrow> u64 \<times> NoiseState \<Rightarrow> u64 \<times> NoiseState" where
  "noise_step fp cfg s r =
     (case s of (start, state) \<Rightarrow> case r of (ts, new_state) \<Rightarrow>
        (if new_state = state then start
         else if new_state = NOISE_ON then ts
         else if start = 0 then ts - noise_on_ns fp cfg else start, new_state))"

definition noise_after :: "fpu \<Rightarrow> GlobalConfig \<Rightarrow> batch_pair list \<Rightarrow> u64 \<times> NoiseState" where
  "noise_after fp cfg ps =
     foldl (noise_step fp cfg) (0, NOISE_OFF) (map (\<lambda>p. (projr (pair_time p), noise_states (fst p) ! 0)) ps)"

definition noise_blank :: "fpu \<Rightarrow> GlobalConfig \<Rightarrow> u64 \<Rightarrow> u64 \<Rightarrow> bool" where
  "noise_blank fp cfg ts start \<longleftrightarrow>
     start \<noteq> 0 \<and>
     (let period_ns = noise_period_ns fp cfg; on_ns = noise_on_ns fp cfg;
          phase = (ts - start) mod period_ns
      in min (min phase (period_ns - phase)) (max phase on_ns - min phase on_ns) \<le> noise_blank_ns fp cfg)"

definition block_input :: "fpu \<Rightarrow> (real \<Rightarrow> real) \<Rightarrow> (complexf list \<Rightarrow> complexf list) \<Rightarrow> GlobalConfig \<Rightarrow> real list \<Rightarrow> nat \<Rightarrow>
    batch_pair list \<Rightarrow> acc_input" where
  "block_input fp rnd fft cfg taps N ps =
     (let ts = projr (pair_time (last ps)); noise = (if cfg_cal_mode cfg then noise_after fp cfg ps else (0, NOISE_OFF))
      in \<lparr>in_valid = (num_taps \<le> trailing (map pair_valid ps)), in_ts = ts,
          in_A = spectrum rnd fft taps N (map (samplesA rnd N) ps),
          in_B = spectrum rnd fft taps N (map (samplesB rnd N) ps),
          in_noise_on = (snd noise = NOISE_ON), in_blank = noise_blank fp cfg ts (fst noise)\<rparr>)"

fun spec_groups :: "bool \<Rightarrow> nat \<Rightarrow> groups \<Rightarrow> acc_input list \<Rightarrow> (bool \<times> acc_input list) list" where
  "spec_groups cal L gs [] = []"
| "spec_groups cal L gs (x # xs) =
     (case spec_step cal L gs x of (gs', r) \<Rightarrow>
        (case r of None \<Rightarrow> [] | Some y \<Rightarrow> [y]) @ spec_groups cal L gs' xs)"

section \<open>One round\<close>

lemma is_noise_blank_start: "is_noise_blank fp cfg ts g = noise_blank fp cfg ts (m_noise_cycle_start_ns g)"
proof -
  have "(if p \<ge> o_ns then p - o_ns else o_ns - p) = max p o_ns - min p o_ns" for p o_ns :: u64
    by (cases "o_ns \<le> p") (auto simp: max_def min_def not_le dest: less_imp_le)
  then show ?thesis by (simp add: is_noise_blank_def noise_blank_def Let_def)
qed

lemma update_noise_form:
  "update_noise_state fp cfg s g =
     g\<lparr>m_noise_cycle_start_ns := fst (noise_step fp cfg (m_noise_cycle_start_ns g, m_noise_state g) (m_timestamp_ns g, s)),
       m_noise_state := s\<rparr>"
  by (cases g) (simp add: update_noise_state_def noise_step_def Let_def)

text \<open>The state after the input of a block, field by field.\<close>

definition loaded :: "fpu \<Rightarrow> GlobalConfig \<Rightarrow> batch_pair \<Rightarrow> u64 \<Rightarrow> GpuPfbFft \<Rightarrow> GpuPfbFft" where
  "loaded fp cfg p ts g =
     (let noise = (if cfg_cal_mode cfg
            then noise_step fp cfg (m_noise_cycle_start_ns g, m_noise_state g) (ts, noise_states (fst p) ! 0)
            else (m_noise_cycle_start_ns g, m_noise_state g));
          k = (if pair_valid p then m_pfb_invalid_blocks_remaining g else num_taps)
      in g\<lparr>m_rawA := raw_block (m_Nfft g) (pair_valid p) (fst p), m_rawB := raw_block (m_Nfft g) (pair_valid p) (fst (snd p)),
           m_timestamp_ns := ts, m_noise_state := snd noise, m_noise_cycle_start_ns := fst noise,
           m_pfb_invalid_blocks_remaining := k - 1, m_current_pfb_output_valid := (k = 0),
           m_invalid_input_blocks := m_invalid_input_blocks g + (if pair_valid p then 0 else 1)\<rparr>)"

lemma snd_noise_step [simp]: "snd (noise_step fp cfg s (ts, n)) = n"
  by (simp add: noise_step_def split: prod.splits)

lemma load_block_loaded:
  assumes "pair_time (a, b, gap) = Inr ts"
  shows "load_block fp cfg a b gap g = Inr (loaded fp cfg (a, b, gap) ts g)"
proof -
  have t: "vdif_to_timestamp_ns (getReferenceEpoch (hdrs a ! 0)) (getSecondsFromEpoch (hdrs a ! 0)) (getFrameNumber (hdrs a ! 0)) = Inr ts"
    using assms by (simp add: pair_time_def Let_def)
  define v where "v = (\<not> gap \<and> batch_valid a \<and> batch_valid b)"
  have v: "pair_valid (a, b, gap) = v" by (simp add: pair_valid_def input_valid_def v_def)
  define ra rb where "ra = raw_block (m_Nfft g) v a" and "rb = raw_block (m_Nfft g) v b"
  have r: "(if v then take (m_Nfft g * 2) (concat (buffer a)) else replicate (m_Nfft g * 2) 0) = ra"
    "(if v then take (m_Nfft g * 2) (concat (buffer b)) else replicate (m_Nfft g * 2) 0) = rb"
    by (simp_all add: ra_def rb_def raw_block_def)
  show ?thesis unfolding load_block_def loaded_def Let_def v_def [symmetric] t v bind_result_simps update_noise_form r
      fst_conv snd_conv ra_def [symmetric] rb_def [symmetric]
    by (cases "cfg_cal_mode cfg"; cases v; cases "m_pfb_invalid_blocks_remaining g"; cases g) (simp_all add: num_taps_def)
qed


definition run_inv :: "fpu \<Rightarrow> (real \<Rightarrow> real) \<Rightarrow> GlobalConfig \<Rightarrow> real list \<Rightarrow> nat \<Rightarrow> nat \<Rightarrow> batch_pair list \<Rightarrow> GpuPfbFft \<Rightarrow> groups \<Rightarrow> bool" where
  "run_inv fp rnd cfg taps N L ps g gs \<longleftrightarrow>
     acc_rel rnd cfg g gs \<and> filter_inv g (map (samplesA rnd N) ps) (map (samplesB rnd N) ps)
     \<and> m_pfb_invalid_blocks_remaining g = num_taps - 1 - trailing (map pair_valid ps)
     \<and> (m_noise_cycle_start_ns g, m_noise_state g) = (if cfg_cal_mode cfg then noise_after fp cfg ps else (0, NOISE_OFF))
     \<and> m_Nfft g = N \<and> m_filters g = taps \<and> unat (m_acc_len g) = L"

lemma submit_frame:
  "acc_rel rnd cfg (submit_PFB_FFT rnd fft g) gs = acc_rel rnd cfg g gs"
  "publishes rnd cfg (submit_PFB_FFT rnd fft g) g' r = publishes rnd cfg g g' r"
  "m_Nfft (submit_PFB_FFT rnd fft g) = m_Nfft g" "m_filters (submit_PFB_FFT rnd fft g) = m_filters g"
  "m_acc_len (submit_PFB_FFT rnd fft g) = m_acc_len g"
  "m_noise_cycle_start_ns (submit_PFB_FFT rnd fft g) = m_noise_cycle_start_ns g"
  "m_noise_state (submit_PFB_FFT rnd fft g) = m_noise_state g"
  "m_timestamp_ns (submit_PFB_FFT rnd fft g) = m_timestamp_ns g"
  "m_current_pfb_output_valid (submit_PFB_FFT rnd fft g) = m_current_pfb_output_valid g"
  "m_pfb_invalid_blocks_remaining (submit_PFB_FFT rnd fft g) = m_pfb_invalid_blocks_remaining g"
  by (simp_all add: submit_PFB_FFT_def Let_def acc_rel_def sums_ok_def counts_ok_def publishes_def cong: option.case_cong)

lemma loaded_frame:
  "acc_rel rnd cfg (loaded fp cfg p ts g) gs = acc_rel rnd cfg g gs"
  "publishes rnd cfg (loaded fp cfg p ts g) g' r = publishes rnd cfg g g' r"
  "filter_inv (loaded fp cfg p ts g) hA hB = filter_inv g hA hB"
  "m_Nfft (loaded fp cfg p ts g) = m_Nfft g" "m_filters (loaded fp cfg p ts g) = m_filters g"
  "m_acc_len (loaded fp cfg p ts g) = m_acc_len g" "m_timestamp_ns (loaded fp cfg p ts g) = ts"
  "m_rawA (loaded fp cfg p ts g) = raw_block (m_Nfft g) (pair_valid p) (fst p)"
  "m_rawB (loaded fp cfg p ts g) = raw_block (m_Nfft g) (pair_valid p) (fst (snd p))"
  by (simp_all add: loaded_def Let_def acc_rel_def sums_ok_def counts_ok_def publishes_def filter_inv_def cong: option.case_cong)

text \<open>Integration leaves the input side alone.\<close>

definition same_input :: "GpuPfbFft \<Rightarrow> GpuPfbFft \<Rightarrow> bool" where
  "same_input g g' \<longleftrightarrow>
     m_Nfft g' = m_Nfft g \<and> m_d_inputA g' = m_d_inputA g \<and> m_d_inputB g' = m_d_inputB g \<and> m_pfb_head g' = m_pfb_head g
     \<and> m_d_pfbedA g' = m_d_pfbedA g \<and> m_d_pfbedB g' = m_d_pfbedB g \<and> m_filters g' = m_filters g
     \<and> m_noise_cycle_start_ns g' = m_noise_cycle_start_ns g \<and> m_noise_state g' = m_noise_state g
     \<and> m_pfb_invalid_blocks_remaining g' = m_pfb_invalid_blocks_remaining g \<and> m_acc_len g' = m_acc_len g"

lemma same_input_integration [simp]:
  "same_input g (accumulate_ON rnd cfg g') = same_input g g'" "same_input g (accumulate_OFF rnd cfg g') = same_input g g'"
  "same_input g (update_slot f g') = same_input g g'" "same_input g (copy_result cfg acc pow n g') = same_input g g'"
  "same_input g (next_slot g') = same_input g g'"
  by (simp_all add: same_input_def accumulate_upd update_slot_def copy_result_def next_slot_def)

lemma StokesAcc_same_input: "same_input g (StokesAcc fp rnd cfg g)"
proof -
  have r: "same_input g g" by (simp add: same_input_def)
  have u: "same_input g (g'\<lparr>m_acc_on_id := i\<rparr>) = same_input g g'"
    "same_input g (g'\<lparr>m_acc_off_id := i\<rparr>) = same_input g g'" "same_input g (g'\<lparr>m_acc_id := i\<rparr>) = same_input g g'"
    "same_input g (g'\<lparr>m_acc_on_first_timestamp_ns := t\<rparr>) = same_input g g'"
    "same_input g (g'\<lparr>m_acc_off_first_timestamp_ns := t\<rparr>) = same_input g g'"
    "same_input g (g'\<lparr>m_acc_stokes_ON := s\<rparr>) = same_input g g'" "same_input g (g'\<lparr>m_acc_stokes_OFF := s\<rparr>) = same_input g g'"
    "same_input g (g'\<lparr>d_sumPower_ON := p\<rparr>) = same_input g g'" "same_input g (g'\<lparr>d_sumPower_OFF := p\<rparr>) = same_input g g'"
    "same_input g (g'\<lparr>m_accumulators_reset_for_gap := b\<rparr>) = same_input g g'" for g' i t s p b
    by (simp_all add: same_input_def)
  show ?thesis
    by (simp add: StokesAcc_def reset_for_gap_def acc_cal_on_def acc_cal_off_def acc_no_cal_def Let_def r u)
qed


lemma noise_after_snoc:
  "noise_after fp cfg (ps @ [p]) = noise_step fp cfg (noise_after fp cfg ps) (projr (pair_time p), noise_states (fst p) ! 0)"
  by (simp add: noise_after_def)

lemma remaining_trailing:
  "(if v then num_taps - 1 - trailing vs else num_taps) - 1 = num_taps - 1 - trailing (vs @ [v])"
  "(if v then num_taps - 1 - trailing vs else num_taps) = 0 \<longleftrightarrow> num_taps \<le> trailing (vs @ [v])"
  by (auto simp: num_taps_def)

lemma round_step:
  fixes fft :: "complexf list \<Rightarrow> complexf list" and ps :: "batch_pair list" and p :: batch_pair
  assumes inv: "run_inv fp rnd cfg taps N L ps g gs" and mode: "cfg_observation_mode cfg \<noteq> BASEBAND"
    and ts: "pair_time p = Inr ts"
    and spec: "spec_step (cfg_cal_mode cfg) L gs (block_input fp rnd fft cfg taps N (ps @ [p])) = (gs', r)"
  defines "g' \<equiv> StokesAcc fp rnd cfg (submit_PFB_FFT rnd fft (loaded fp cfg p ts g))"
  shows "run_inv fp rnd cfg taps N L (ps @ [p]) g' gs' \<and> publishes rnd cfg g g' r"
proof -
  define l where "l = loaded fp cfg p ts g"
  define s where "s = submit_PFB_FFT rnd fft l"
  have i: "acc_rel rnd cfg g gs" "filter_inv g (map (samplesA rnd N) ps) (map (samplesB rnd N) ps)"
    "m_pfb_invalid_blocks_remaining g = num_taps - 1 - trailing (map pair_valid ps)"
    "(m_noise_cycle_start_ns g, m_noise_state g) = (if cfg_cal_mode cfg then noise_after fp cfg ps else (0, NOISE_OFF))"
    "m_Nfft g = N" "m_filters g = taps" "unat (m_acc_len g) = L"
    using inv by (simp_all add: run_inv_def)
  have noise: "(m_noise_cycle_start_ns l, m_noise_state l)
      = (if cfg_cal_mode cfg then noise_after fp cfg (ps @ [p]) else (0, NOISE_OFF))"
    unfolding l_def loaded_def Let_def noise_after_snoc ts using i(4) by simp
  have rem: "m_pfb_invalid_blocks_remaining l = num_taps - 1 - trailing (map pair_valid (ps @ [p]))"
    "m_current_pfb_output_valid l \<longleftrightarrow> num_taps \<le> trailing (map pair_valid (ps @ [p]))"
    using remaining_trailing [of "pair_valid p" "map pair_valid ps"] i(3) by (simp_all add: l_def loaded_def Let_def)
  have "filter_inv l (map (samplesA rnd N) ps) (map (samplesB rnd N) ps)" "m_Nfft l = N" "m_filters l = taps"
    using i by (simp_all add: l_def loaded_frame)
  from submit_filter [OF this(1), where rnd = rnd and fft = fft] this(2,3)
  have f: "filter_inv s (map (samplesA rnd N) (ps @ [p])) (map (samplesB rnd N) (ps @ [p]))"
    "m_ffted_bufsA s = spectrum rnd fft taps N (map (samplesA rnd N) (ps @ [p]))"
    "m_ffted_bufsB s = spectrum rnd fft taps N (map (samplesB rnd N) (ps @ [p]))"
    using i(5) by (simp_all add: s_def spectrum_def samplesA_def samplesB_def l_def loaded_frame)
  let ?n = "if cfg_cal_mode cfg then noise_after fp cfg (ps @ [p]) else (0, NOISE_OFF)"
  have sf: "m_timestamp_ns s = projr (pair_time (last (ps @ [p])))" "m_noise_cycle_start_ns s = fst ?n"
      "m_noise_state s = snd ?n" "m_current_pfb_output_valid s = (num_taps \<le> trailing (map pair_valid (ps @ [p])))"
    unfolding s_def submit_frame rem(2) noise [symmetric] by (simp_all add: l_def loaded_frame ts)
  have x: "input_of fp cfg s = block_input fp rnd fft cfg taps N (ps @ [p])"
    unfolding input_of_def block_input_def is_noise_blank_start Let_def f(2,3) sf by (rule refl)
  have a: "acc_rel rnd cfg s gs" "m_acc_len s = m_acc_len g" "m_Nfft s = N" "m_filters s = taps"
    using i by (simp_all add: s_def l_def submit_frame loaded_frame)
  have "acc_rel rnd cfg g' gs' \<and> publishes rnd cfg s g' r"
    unfolding g'_def l_def [symmetric] s_def [symmetric]
    using spec x a(2) i(7) by (intro StokesAcc_refines [OF a(1) mode]) simp
  then have st: "acc_rel rnd cfg g' gs'" "publishes rnd cfg g g' r"
    by (simp_all add: s_def l_def submit_frame loaded_frame)
  have "same_input s g'" unfolding g'_def l_def [symmetric] s_def [symmetric] by (rule StokesAcc_same_input)
  then have "run_inv fp rnd cfg taps N L (ps @ [p]) g' gs'"
    using st(1) f(1) rem(1) noise a i(7) unfolding run_inv_def same_input_def filter_inv_def
    by (simp add: s_def submit_frame)
  then show ?thesis using st(2) by blast
qed


section \<open>Whole runs\<close>

lemma round_waits: "pair_up qA qB = [] \<Longrightarrow> subband_round fp rnd fft cfg qA qB g = None"
  by (cases "(qA, qB)" rule: pair_up.cases)
    (auto simp: subband_round_def accumulate_one_block_def dest: align_shorter split: option.splits if_splits)

lemma round_pair:
  assumes "pair_up qA qB = p # ps" "pair_time p = Inr ts"
  shows "\<exists>qA' qB'. pair_up qA' qB' = ps \<and> subband_round fp rnd fft cfg qA qB g =
    Some (Inr (StokesAcc fp rnd cfg (submit_PFB_FFT rnd fft (loaded fp cfg p ts g))), qA', qB')"
  using assms
  by (cases "(qA, qB)" rule: pair_up.cases)
    (auto simp: subband_round_def accumulate_one_block_def load_block_loaded split: option.splits if_splits)

definition block_inputs :: "fpu \<Rightarrow> (real \<Rightarrow> real) \<Rightarrow> (complexf list \<Rightarrow> complexf list) \<Rightarrow> GlobalConfig \<Rightarrow> real list \<Rightarrow> nat \<Rightarrow>
    batch_pair list \<Rightarrow> batch_pair list \<Rightarrow> acc_input list" where
  "block_inputs fp rnd fft cfg taps N hist ps =
     map (\<lambda>k. block_input fp rnd fft cfg taps N (hist @ take (Suc k) ps)) [0..<length ps]"

lemma block_inputs_simps [simp]:
  "block_inputs fp rnd fft cfg taps N hist [] = []"
  "block_inputs fp rnd fft cfg taps N hist (p # ps) =
     block_input fp rnd fft cfg taps N (hist @ [p]) # block_inputs fp rnd fft cfg taps N (hist @ [p]) ps"
  by (simp_all add: block_inputs_def upt_conv_Cons map_Suc_upt [symmetric] del: upt_Suc)

lemma published_slot:
  assumes "publishes rnd cfg g g' r" "m_hhead g < NUM_SLOTS"
  shows "list_all2 (slot_matches rnd cfg (m_Nfft g))
    (if m_hhead g' = m_hhead g then [] else [m_hring g' ! m_hhead g]) (case r of None \<Rightarrow> [] | Some y \<Rightarrow> [y])"
proof -
  have "(m_hhead g + 1) mod NUM_SLOTS \<noteq> m_hhead g" using assms(2) by (auto simp: NUM_SLOTS_def mod_if)
  then show ?thesis using assms(1) by (auto simp: publishes_def split: option.splits)
qed

lemma run_refines:
  assumes "run_inv fp rnd cfg taps N L hist g gs" and mode: "cfg_observation_mode cfg \<noteq> BASEBAND"
    and "pair_up qA qB = ps" "\<forall>p \<in> set ps. \<not> isl (pair_time p)"
  shows "list_all2 (slot_matches rnd cfg N) (subband_run fp rnd fft cfg qA qB g)
    (spec_groups (cfg_cal_mode cfg) L gs (block_inputs fp rnd fft cfg taps N hist ps))"
  using assms(1,3,4)
proof (induction ps arbitrary: qA qB g gs hist)
  case Nil
  then show ?case by (simp add: subband_run.simps round_waits)
next
  case (Cons p ps)
  obtain ts where ts: "pair_time p = Inr ts" using Cons.prems(3) by (cases "pair_time p") auto
  define g' where "g' = StokesAcc fp rnd cfg (submit_PFB_FFT rnd fft (loaded fp cfg p ts g))"
  obtain qA' qB' where q: "pair_up qA' qB' = ps" "subband_round fp rnd fft cfg qA qB g = Some (Inr g', qA', qB')"
    using round_pair [OF Cons.prems(2) ts] unfolding g'_def by blast
  obtain gs' r where sp: "spec_step (cfg_cal_mode cfg) L gs (block_input fp rnd fft cfg taps N (hist @ [p])) = (gs', r)"
    by fastforce
  have s: "run_inv fp rnd cfg taps N L (hist @ [p]) g' gs'" "publishes rnd cfg g g' r"
    using round_step [OF Cons.prems(1) mode ts sp] by (simp_all add: g'_def)
  have "m_hhead g < NUM_SLOTS" "m_Nfft g = N" using Cons.prems(1) by (simp_all add: run_inv_def acc_rel_def)
  then have "list_all2 (slot_matches rnd cfg N)
      (if m_hhead g' = m_hhead g then [] else [m_hring g' ! m_hhead g]) (case r of None \<Rightarrow> [] | Some y \<Rightarrow> [y])"
    using published_slot [OF s(2)] by simp
  moreover have "list_all2 (slot_matches rnd cfg N) (subband_run fp rnd fft cfg qA' qB' g')
      (spec_groups (cfg_cal_mode cfg) L gs' (block_inputs fp rnd fft cfg taps N (hist @ [p]) ps))"
    using Cons.prems(3) by (intro Cons.IH [OF s(1) q(1)]) simp
  ultimately show ?case unfolding subband_run.simps [of fp rnd fft cfg qA qB g] q(2)
    by (simp add: sp list_all2_appendI)
qed

lemma new_GpuPfbFft_fields:
  assumes "new_GpuPfbFft fp cfg taps = Inr g"
  shows "m_Nfft g = nat (cfg_total_nfft cfg)" "m_acc_len g \<noteq> 0" "m_filters g = take (m_Nfft g * num_taps) taps"
    "m_d_inputA g = replicate (m_Nfft g * num_taps) (0, 0)" "m_d_inputB g = replicate (m_Nfft g * num_taps) (0, 0)"
    "m_pfb_head g = 0" "length (m_d_pfbedA g) = m_Nfft g" "length (m_d_pfbedB g) = m_Nfft g"
    "m_acc_stokes_ON g = replicate (m_Nfft g) zero4" "m_acc_stokes_OFF g = replicate (m_Nfft g) zero4"
    "d_sumPower_ON g = 0" "d_sumPower_OFF g = 0" "m_acc_id g = 0" "m_acc_on_id g = 0" "m_acc_off_id g = 0"
    "length (m_hring g) = NUM_SLOTS" "m_hhead g = 0" "m_pfb_invalid_blocks_remaining g = num_taps - 1"
    "m_noise_cycle_start_ns g = 0" "m_noise_state g = NOISE_OFF"
  using assms unfolding new_GpuPfbFft_def Let_def by (simp split: if_split_asm; fastforce)+

lemma run_init:
  assumes "new_GpuPfbFft fp cfg taps = Inr g" "0 < cfg_total_nfft cfg"
  shows "run_inv fp rnd cfg (take (m_Nfft g * num_taps) taps) (m_Nfft g) (unat (m_acc_len g)) [] g ([], [])"
proof -
  note g = new_GpuPfbFft_fields [OF assms(1)]
  have pos: "0 < unat (m_acc_len g)" "0 < m_Nfft g" "(0 :: nat) < NUM_SLOTS"
    using g(1,2) assms(2) by (simp_all add: unat_gt_0 NUM_SLOTS_def)
  have "sums_ok rnd cfg g ([], [])" using g by (simp add: sums_ok_def)
  moreover have "counts_ok cfg g ([], [])" using g(13-15) pos by (simp add: counts_ok_def)
  moreover have "filter_inv g [] []" using g(4-8) pos ring_init [of "m_Nfft g"] by (simp add: filter_inv_def)
  ultimately show ?thesis using g(3,16-20) pos
    by (simp add: run_inv_def acc_rel_def noise_after_def)
qed


section \<open>Groups\<close>

text \<open>
  A group holds the blocks of one noise state out of a stretch of valid blocks, less the blocks around
  the transitions of the noise source.
\<close>

definition in_group :: "bool \<Rightarrow> bool \<Rightarrow> acc_input \<Rightarrow> bool" where
  "in_group cal b x \<longleftrightarrow> (if cal then \<not> in_blank x \<and> in_noise_on x = b else \<not> b)"

definition stretch :: "bool \<Rightarrow> bool \<Rightarrow> acc_input list \<Rightarrow> acc_input list \<Rightarrow> bool" where
  "stretch cal b grp hist \<longleftrightarrow> (\<exists>pre seg. hist = pre @ seg \<and> (\<forall>x \<in> set seg. in_valid x) \<and> grp = filter (in_group cal b) seg)"

lemma stretch_Nil: "stretch cal b [] hist"
  unfolding stretch_def by (intro exI [of _ hist] exI [of _ "[]"]) simp

lemma stretch_step:
  assumes "stretch cal b grp hist" "in_valid x"
  shows "stretch cal b (if in_group cal b x then grp @ [x] else grp) (hist @ [x])"
proof -
  obtain pre seg where "hist = pre @ seg" "\<forall>x \<in> set seg. in_valid x" "grp = filter (in_group cal b) seg"
    using assms(1) by (auto simp: stretch_def)
  then show ?thesis using assms(2) unfolding stretch_def by (intro exI [of _ pre] exI [of _ "seg @ [x]"]) auto
qed

lemma spec_step_stretch:
  assumes "spec_step cal L (on, off) x = ((on', off'), r)" "stretch cal True on hist" "stretch cal False off hist"
    "length on < L" "length off < L"
  shows "stretch cal True on' (hist @ [x])" "stretch cal False off' (hist @ [x])" "length on' < L" "length off' < L"
    "r = Some (b, grp) \<Longrightarrow> stretch cal b grp (hist @ [x]) \<and> length grp = L"
proof -
  have "stretch cal True on' (hist @ [x]) \<and> stretch cal False off' (hist @ [x]) \<and> length on' < L \<and> length off' < L
    \<and> (r = Some (b, grp) \<longrightarrow> stretch cal b grp (hist @ [x]) \<and> length grp = L)"
  proof (cases "in_valid x")
    case False
    then show ?thesis using assms by (auto simp: spec_step_def stretch_Nil)
  next
    case True
    note s = stretch_step [OF assms(2) True] stretch_step [OF assms(3) True]
    consider "cal" "in_blank x" | "cal" "\<not> in_blank x" "in_noise_on x" | "cal" "\<not> in_blank x" "\<not> in_noise_on x" | "\<not> cal"
      by blast
    then show ?thesis
      using assms(1,4,5) s True
      by cases (auto simp: spec_step_def push_group_def in_group_def stretch_Nil split: if_splits)
  qed
  then show "stretch cal True on' (hist @ [x])" "stretch cal False off' (hist @ [x])" "length on' < L" "length off' < L"
    "r = Some (b, grp) \<Longrightarrow> stretch cal b grp (hist @ [x]) \<and> length grp = L" by blast+
qed

lemma spec_groups_stretch:
  assumes "(b, grp) \<in> set (spec_groups cal L gs xs)"
    and "stretch cal True (fst gs) hist" "stretch cal False (snd gs) hist" "length (fst gs) < L" "length (snd gs) < L"
  shows "length grp = L \<and> (\<exists>n \<le> length xs. stretch cal b grp (hist @ take n xs))"
  using assms
proof (induction xs arbitrary: gs hist)
  case (Cons x xs)
  obtain on off on' off' r where sp: "gs = (on, off)" "spec_step cal L (on, off) x = ((on', off'), r)"
    by (metis surj_pair)
  note st = spec_step_stretch [OF sp(2), of hist]
  show ?case
  proof (cases "r = Some (b, grp)")
    case True
    then show ?thesis using st(5) Cons.prems sp(1) by (auto intro!: exI [of _ 1])
  next
    case False
    then have "(b, grp) \<in> set (spec_groups cal L (on', off') xs)"
      using Cons.prems(1) sp by (auto split: option.splits)
    then have "length grp = L \<and> (\<exists>n \<le> length xs. stretch cal b grp ((hist @ [x]) @ take n xs))"
      by (rule Cons.IH) (use st(1-4) Cons.prems(2-5) sp(1) in simp_all)
    then obtain n where "length grp = L" "n \<le> length xs" "stretch cal b grp (hist @ take (Suc n) (x # xs))" by auto
    then show ?thesis by (intro conjI exI [of _ "Suc n"]) simp_all
  qed
qed simp


lemma stretch_indices:
  assumes "stretch cal b grp (take n (map f [0..<m]))" "n \<le> m"
  shows "\<exists>i \<le> n. grp = map f (filter (\<lambda>k. in_group cal b (f k)) [i..<n]) \<and> (\<forall>k. i \<le> k \<and> k < n \<longrightarrow> in_valid (f k))"
proof -
  have t: "take n (map f [0..<m]) = map f [0..<n]" using assms(2) by (simp add: take_map)
  obtain pre seg where p: "map f [0..<n] = pre @ seg" "\<forall>x \<in> set seg. in_valid x" "grp = filter (in_group cal b) seg"
    using assms(1) unfolding t by (auto simp: stretch_def)
  have l: "length pre + length seg = n" using arg_cong [OF p(1), of length] by simp
  have "seg = drop (length pre) (map f [0..<n])" by (simp add: p(1))
  then have s: "seg = map f [length pre..<n]" by (simp add: drop_map)
  show ?thesis using p(2,3) l unfolding s by (intro exI [of _ "length pre"]) (auto simp: filter_map o_def)
qed

lemma in_valid_block:
  assumes "k < length ps"
  shows "in_valid (block_input fp rnd fft cfg taps N (take (Suc k) ps)) \<longleftrightarrow>
    num_taps \<le> Suc k \<and> (\<forall>j. Suc k - num_taps \<le> j \<and> j \<le> k \<longrightarrow> pair_valid (ps ! j))"
proof -
  have d: "drop (Suc k - num_taps) (take (Suc k) ps) = map ((!) ps) [Suc k - num_taps..<Suc k]"
    using assms by (intro nth_equalityI) (auto simp del: upt_Suc)
  have l: "length (take (Suc k) ps) = Suc k" using assms by simp
  show ?thesis unfolding block_input_def Let_def acc_input.simps trailing_iff length_map l drop_map d
    by (auto simp: less_Suc_eq_le simp del: upt_Suc)
qed

text \<open>The epoch field has six bits, so a header always has a time stamp.\<close>

lemma reference_epoch_bound: "getReferenceEpoch v < 64"
proof -
  have "(drop_bit 24 (word_at 1 v) AND 0x3f :: u32) \<le> 0x3f" by (rule word_and_le1)
  then have "unat (drop_bit 24 (word_at 1 v) AND 0x3f :: u32) \<le> 63" by (simp add: word_le_nat_alt)
  then have "unat (getReferenceEpoch v) \<le> 63"
    unfolding getReferenceEpoch_def by (metis le_trans take_bit_nat_less_eq_self unsigned_ucast_eq)
  then show ?thesis by (simp add: word_less_nat_alt)
qed

lemma pair_time_total: "\<not> isl (pair_time p)"
proof -
  have "\<not> getReferenceEpoch (hdrs (fst p) ! 0) \<ge> 64" using reference_epoch_bound by (simp add: not_le)
  then show ?thesis
    by (auto simp: pair_time_def vdif_to_timestamp_ns_def vdif_epoch_to_unix_sec_def Let_def split: sum.splits)
qed

lemma new_run_refines:
  assumes "new_GpuPfbFft fp cfg taps = Inr g" "0 < cfg_total_nfft cfg" "cfg_observation_mode cfg \<noteq> BASEBAND"
  shows "list_all2 (slot_matches rnd cfg (m_Nfft g)) (subband_run fp rnd fft cfg qA qB g)
    (spec_groups (cfg_cal_mode cfg) (unat (m_acc_len g)) ([], [])
       (block_inputs fp rnd fft cfg (take (m_Nfft g * num_taps) taps) (m_Nfft g) [] (pair_up qA qB)))"
  by (rule run_refines [OF run_init [OF assms(1,2)] assms(3) refl]) (simp add: pair_time_total)

lemma slot_group:
  fixes qA qB :: "PacketBatch list"
  assumes "new_GpuPfbFft fp cfg taps = Inr g" "0 < cfg_total_nfft cfg" "cfg_observation_mode cfg \<noteq> BASEBAND"
    and s: "s \<in> set (subband_run fp rnd fft cfg qA qB g)"
  defines "ps \<equiv> pair_up qA qB"
  defines "x \<equiv> \<lambda>k. block_input fp rnd fft cfg (take (m_Nfft g * num_taps) taps) (m_Nfft g) (take (Suc k) ps)"
  shows "\<exists>noise i j. j \<le> length ps
    \<and> (\<forall>k. i \<le> k \<and> k < j \<longrightarrow> num_taps \<le> Suc k \<and> (\<forall>m. Suc k - num_taps \<le> m \<and> m \<le> k \<longrightarrow> pair_valid (ps ! m)))
    \<and> (let ks = filter (\<lambda>k. in_group (cfg_cal_mode cfg) noise (x k)) [i..<j]
       in length ks = unat (m_acc_len g) \<and> slot_matches rnd cfg (m_Nfft g) s (noise, map x ks))"
proof -
  note inv = run_init [OF assms(1,2), where rnd = rnd]
  have xs: "block_inputs fp rnd fft cfg (take (m_Nfft g * num_taps) taps) (m_Nfft g) [] ps = map x [0..<length ps]"
    by (simp add: block_inputs_def x_def)
  have "list_all2 (slot_matches rnd cfg (m_Nfft g)) (subband_run fp rnd fft cfg qA qB g)
      (spec_groups (cfg_cal_mode cfg) (unat (m_acc_len g)) ([], []) (map x [0..<length ps]))"
    using new_run_refines [OF assms(1-3), where qA = qA and qB = qB and fft = fft and rnd = rnd] unfolding ps_def [symmetric] xs .
  then obtain noise grp where g: "(noise, grp) \<in> set (spec_groups (cfg_cal_mode cfg) (unat (m_acc_len g)) ([], []) (map x [0..<length ps]))"
      "slot_matches rnd cfg (m_Nfft g) s (noise, grp)"
    using s by (auto simp: list_all2_conv_all_nth in_set_conv_nth) (metis nth_mem surj_pair)
  have "0 < unat (m_acc_len g)" using inv by (simp add: run_inv_def acc_rel_def counts_ok_def)
  then have "length grp = unat (m_acc_len g)
      \<and> (\<exists>n \<le> length ps. stretch (cfg_cal_mode cfg) noise grp (take n (map x [0..<length ps])))"
    using spec_groups_stretch [OF g(1), of "[]"] by (simp add: stretch_Nil)
  then obtain n where n: "length grp = unat (m_acc_len g)" "n \<le> length ps"
      "stretch (cfg_cal_mode cfg) noise grp (take n (map x [0..<length ps]))" by blast
  obtain i where i: "grp = map x (filter (\<lambda>k. in_group (cfg_cal_mode cfg) noise (x k)) [i..<n])"
      "\<forall>k. i \<le> k \<and> k < n \<longrightarrow> in_valid (x k)"
    using stretch_indices [OF n(3,2)] by blast
  show ?thesis using n(1,2) g(2) i unfolding Let_def
    by (intro exI [of _ noise] exI [of _ i] exI [of _ n]) (auto simp: x_def in_valid_block)
qed

section \<open>Properties\<close>

text \<open>
  C2. A subband worker refines the integration of the specification: over the pairs of batches
  that it forms from the two queues, the slots it publishes are, one by one and in order, the groups of
  blocks that the specification collects, with the sums of their Stokes products and powers, their
  noise state and the time stamps of their first and last blocks.
\<close>

theorem integration_refines:
  assumes "new_GpuPfbFft fp cfg taps = Inr g" "0 < cfg_total_nfft cfg" "cfg_observation_mode cfg \<noteq> BASEBAND"
  shows "list_all2 (slot_matches rnd cfg (m_Nfft g)) (subband_run fp rnd fft cfg qA qB g)
    (spec_groups (cfg_cal_mode cfg) (unat (m_acc_len g)) ([], [])
       (block_inputs fp rnd fft cfg (take (m_Nfft g * num_taps) taps) (m_Nfft g) [] (pair_up qA qB)))"
  using assms by (rule new_run_refines)

text \<open>
  C3. Every published slot integrates exactly the configured number of blocks, all of one noise state,
  picked out of a stretch of the input in which each block and the three before it were received
  completely in both polarisations: a lost packet never enters a result.
\<close>

theorem slot_blocks_valid:
  fixes qA qB :: "PacketBatch list"
  assumes "new_GpuPfbFft fp cfg taps = Inr g" "0 < cfg_total_nfft cfg" "cfg_observation_mode cfg \<noteq> BASEBAND"
    and s: "s \<in> set (subband_run fp rnd fft cfg qA qB g)"
  defines "ps \<equiv> pair_up qA qB"
  defines "x \<equiv> \<lambda>k. block_input fp rnd fft cfg (take (m_Nfft g * num_taps) taps) (m_Nfft g) (take (Suc k) ps)"
  shows "\<exists>noise i j. j \<le> length ps
    \<and> (\<forall>k. i \<le> k \<and> k < j \<longrightarrow> num_taps \<le> Suc k \<and> (\<forall>m. Suc k - num_taps \<le> m \<and> m \<le> k \<longrightarrow> pair_valid (ps ! m)))
    \<and> (let ks = filter (\<lambda>k. in_group (cfg_cal_mode cfg) noise (x k)) [i..<j]
       in length ks = unat (m_acc_len g) \<and> slot_matches rnd cfg (m_Nfft g) s (noise, map x ks))"
  using slot_group [OF assms(1-3) s] unfolding ps_def x_def .

text \<open>A run over four batches of each polarisation with an integration of one block.\<close>

definition demo_batch :: "nat \<Rightarrow> PacketBatch" where
  "demo_batch i = \<lparr>batch_count = 16, batch_id = of_nat i, received_count = 16, header_valid = True,
     pkt_ids = replicate 16 0, noise_states = replicate 16 0, batch_valid = True, buffer = replicate 16 (replicate 8192 128),
     hdrs = replicate 16 new_VDIF\<rparr>"

definition demo_gpu_cfg :: GlobalConfig where
  "demo_gpu_cfg = new_GlobalConfig\<lparr>cfg_integration_t := Fin 0\<rparr>"

definition demo_queue :: "PacketBatch list" where
  "demo_queue = map demo_batch [0..<4]"

lemma demo_gpu:
  "\<exists>g. new_GpuPfbFft exact_fpu demo_gpu_cfg taps = Inr g \<and> m_acc_len g = 1 \<and> m_Nfft g = 65536"
proof -
  have "integration_time exact_fpu demo_gpu_cfg = fft_period exact_fpu demo_gpu_cfg"
    "fft_period exact_fpu demo_gpu_cfg = Fin (65536 / 256000000)"
    by (simp_all add: integration_time_def fft_period_def exact_fpu_def demo_gpu_cfg_def new_GlobalConfig_def
        sampling_rate_def trunc_def)
  then have "llround (real_of_dbl (dbl_div (fl exact_fpu) (integration_time exact_fpu demo_gpu_cfg) (fft_period exact_fpu demo_gpu_cfg))) = 1"
    using llround_of_int [of 1] by (simp add: exact_fpu_def)
  then show ?thesis by (simp add: new_GpuPfbFft_def demo_gpu_cfg_def new_GlobalConfig_def Let_def)
qed

lemma demo_pairs: "pair_up demo_queue demo_queue = map (\<lambda>i. (demo_batch i, demo_batch i, False)) [0..<4]"
  by (simp add: demo_queue_def upt_rec align.simps)

lemma demo_inputs:
  "spec_groups False 1 ([], []) (block_inputs exact_fpu rnd fft demo_gpu_cfg taps N [] (pair_up demo_queue demo_queue))
    = [(False, [block_input exact_fpu rnd fft demo_gpu_cfg taps N (pair_up demo_queue demo_queue)])]"
proof -
  have v: "pair_valid (demo_batch i, demo_batch j, False)" for i j
    by (simp add: pair_valid_def input_valid_def demo_batch_def)
  have i: "in_valid (block_input exact_fpu rnd fft demo_gpu_cfg taps N ps) = (num_taps \<le> trailing (map pair_valid ps))" for ps
    by (simp add: block_input_def Let_def)
  have p: "pair_up demo_queue demo_queue = [(demo_batch 0, demo_batch 0, False), (demo_batch 1, demo_batch 1, False),
      (demo_batch 2, demo_batch 2, False), (demo_batch 3, demo_batch 3, False)]"
    unfolding demo_pairs by (simp add: upt_rec numeral_2_eq_2 numeral_3_eq_3)
  show ?thesis unfolding p
    by (simp add: spec_step_def push_group_def i v trailing_def num_taps_def)
qed

lemma demo_gpu_mode:
  "0 < cfg_total_nfft demo_gpu_cfg" "cfg_observation_mode demo_gpu_cfg \<noteq> BASEBAND" "cfg_cal_mode demo_gpu_cfg = False"
  by (simp_all add: demo_gpu_cfg_def new_GlobalConfig_def)

lemma demo_slot:
  "\<exists>g s. new_GpuPfbFft exact_fpu demo_gpu_cfg [] = Inr g \<and> m_acc_len g = 1 \<and> m_Nfft g = 65536
    \<and> s \<in> set (subband_run exact_fpu (\<lambda>x. x) (\<lambda>x. x) demo_gpu_cfg demo_queue demo_queue g)"
proof -
  obtain g where g: "new_GpuPfbFft exact_fpu demo_gpu_cfg [] = Inr g" "m_acc_len g = 1" "m_Nfft g = 65536"
    using demo_gpu by blast
  have "subband_run exact_fpu (\<lambda>x. x) (\<lambda>x. x) demo_gpu_cfg demo_queue demo_queue g \<noteq> []"
    using new_run_refines [OF g(1) demo_gpu_mode(1,2), where qA = demo_queue and qB = demo_queue and fft = "\<lambda>x. x" and rnd = "\<lambda>x. x"] g
    by (auto simp: demo_gpu_mode(3) demo_inputs [unfolded One_nat_def] list_all2_Cons2)
  then show ?thesis using g by (meson list.set_sel(1))
qed

theorem integration_refines_witness:
  "\<exists>g s. new_GpuPfbFft exact_fpu demo_gpu_cfg [] = Inr g
    \<and> subband_run exact_fpu (\<lambda>x. x) (\<lambda>x. x) demo_gpu_cfg demo_queue demo_queue g = [s]
    \<and> slot_matches (\<lambda>x. x) demo_gpu_cfg 65536 s
        (False, [block_input exact_fpu (\<lambda>x. x) (\<lambda>x. x) demo_gpu_cfg [] 65536 (pair_up demo_queue demo_queue)])"
proof -
  obtain g where g: "new_GpuPfbFft exact_fpu demo_gpu_cfg [] = Inr g" "m_acc_len g = 1" "m_Nfft g = 65536"
    using demo_gpu by blast
  from integration_refines [OF g(1) demo_gpu_mode(1,2), where qA = demo_queue and qB = demo_queue and fft = "\<lambda>x. x" and rnd = "\<lambda>x. x"]
  show ?thesis using g by (auto simp: demo_gpu_mode(3) demo_inputs [unfolded One_nat_def] list_all2_Cons2)
qed

theorem slot_blocks_valid_witness:
  "\<exists>g s i j. new_GpuPfbFft exact_fpu demo_gpu_cfg [] = Inr g
    \<and> s \<in> set (subband_run exact_fpu (\<lambda>x. x) (\<lambda>x. x) demo_gpu_cfg demo_queue demo_queue g)
    \<and> j \<le> (4 :: nat) \<and> (\<forall>k. i \<le> k \<and> k < j \<longrightarrow> 3 \<le> k)"
proof -
  obtain g s where g: "new_GpuPfbFft exact_fpu demo_gpu_cfg [] = Inr g"
      and s: "s \<in> set (subband_run exact_fpu (\<lambda>x. x) (\<lambda>x. x) demo_gpu_cfg demo_queue demo_queue g)"
    using demo_slot by blast
  obtain noise i j where j: "j \<le> length (pair_up demo_queue demo_queue)"
      "\<forall>k. i \<le> k \<and> k < j \<longrightarrow> num_taps \<le> Suc k \<and>
        (\<forall>m. Suc k - num_taps \<le> m \<and> m \<le> k \<longrightarrow> pair_valid (pair_up demo_queue demo_queue ! m))"
    using slot_blocks_valid [OF g demo_gpu_mode(1,2) s] by blast
  then have "j \<le> 4" "\<forall>k. i \<le> k \<and> k < j \<longrightarrow> 3 \<le> k" by (auto simp: demo_pairs num_taps_def)
  then show ?thesis using g s
    by (intro exI [of _ g] exI [of _ s] exI [of _ i] exI [of _ j]) simp
qed


section \<open>Exact arithmetic\<close>

lemma sum_stokes_exact:
  assumes "i < N"
  shows "sum_stokes (\<lambda>x. x) N grp ! i =
    (\<Sum>x\<leftarrow>grp. exact_power (in_A x ! i), \<Sum>x\<leftarrow>grp. exact_power (in_B x ! i),
     \<Sum>x\<leftarrow>grp. fst (in_A x ! i) * snd (in_B x ! i), \<Sum>x\<leftarrow>grp. snd (in_A x ! i) * fst (in_B x ! i))"
  using assms
  by (induction grp rule: rev_induct)
    (simp_all add: sum_snoc add4_def stokes_of_def fadd_def fmaf_def fmul_def exact_power_def)

lemma sum_power_exact:
  "sum_power (\<lambda>x. x) N grp = (\<Sum>x\<leftarrow>grp. \<Sum>i<N. exact_power (in_A x ! i) + exact_power (in_B x ! i))"
  by (induction grp rule: rev_induct) (simp_all add: sum_snoc continuum_exact)

lemma stretch_subset: "stretch cal b grp hist \<Longrightarrow> set grp \<subseteq> set hist"
  by (auto simp: stretch_def)

text \<open>
  C4. With exact arithmetic a spectral slot holds, for every channel, the sums over the blocks of its
  group of the two polarisation powers and the two cross products, and a continuum slot the total power
  of its blocks over all channels and both polarisations; the tree reduction of the kernel loses and
  repeats nothing.
\<close>

theorem integration_exact:
  assumes new: "new_GpuPfbFft fp cfg taps = Inr g" "0 < cfg_total_nfft cfg" "cfg_observation_mode cfg \<noteq> BASEBAND"
    and s: "s \<in> set (subband_run fp (\<lambda>x. x) fft cfg qA qB g)"
  shows "\<exists>grp. length grp = unat (m_acc_len g)
    \<and> set grp \<subseteq> set (block_inputs fp (\<lambda>x. x) fft cfg (take (m_Nfft g * num_taps) taps) (m_Nfft g) [] (pair_up qA qB))
    \<and> (cfg_observation_mode cfg = SPECTRAL \<longrightarrow> (\<forall>i < m_Nfft g. slot_data s ! i =
         (\<Sum>x\<leftarrow>grp. exact_power (in_A x ! i), \<Sum>x\<leftarrow>grp. exact_power (in_B x ! i),
          \<Sum>x\<leftarrow>grp. fst (in_A x ! i) * snd (in_B x ! i), \<Sum>x\<leftarrow>grp. snd (in_A x ! i) * fst (in_B x ! i))))
    \<and> (cfg_observation_mode cfg = CONTINUUM \<longrightarrow> slot_sumPower s =
         (\<Sum>x\<leftarrow>grp. \<Sum>i<m_Nfft g. exact_power (in_A x ! i) + exact_power (in_B x ! i)))"
proof -
  let ?xs = "block_inputs fp (\<lambda>x. x) fft cfg (take (m_Nfft g * num_taps) taps) (m_Nfft g) [] (pair_up qA qB)"
  obtain noise grp where g: "(noise, grp) \<in> set (spec_groups (cfg_cal_mode cfg) (unat (m_acc_len g)) ([], []) ?xs)"
      "slot_matches (\<lambda>x. x) cfg (m_Nfft g) s (noise, grp)"
    using new_run_refines [OF new, where qA = qA and qB = qB and fft = fft and rnd = "\<lambda>x. x"] s
    by (auto simp: list_all2_conv_all_nth in_set_conv_nth) (metis nth_mem surj_pair)
  have "0 < unat (m_acc_len g)" using run_init [OF new(1,2)] by (simp add: run_inv_def acc_rel_def counts_ok_def)
  then obtain n where n: "length grp = unat (m_acc_len g)" "stretch (cfg_cal_mode cfg) noise grp (take n ?xs)"
    using spec_groups_stretch [OF g(1), of "[]"] by (auto simp: stretch_Nil)
  have "set grp \<subseteq> set ?xs" using stretch_subset [OF n(2)] by (meson set_take_subset subset_trans)
  then show ?thesis using n(1) g(2)
    by (intro exI [of _ grp]) (simp add: slot_matches_def observing_def sum_stokes_exact sum_power_exact)
qed

theorem integration_exact_witness:
  "\<exists>g s (grp :: acc_input list). new_GpuPfbFft exact_fpu demo_gpu_cfg [] = Inr g
    \<and> s \<in> set (subband_run exact_fpu (\<lambda>x. x) (\<lambda>x. x) demo_gpu_cfg demo_queue demo_queue g) \<and> length grp = 1
    \<and> fst (slot_data s ! 0) = (\<Sum>x\<leftarrow>grp. exact_power (in_A x ! 0))"
proof -
  obtain g s where g: "new_GpuPfbFft exact_fpu demo_gpu_cfg [] = Inr g" "m_acc_len g = 1" "m_Nfft g = 65536"
      and s: "s \<in> set (subband_run exact_fpu (\<lambda>x. x) (\<lambda>x. x) demo_gpu_cfg demo_queue demo_queue g)"
    using demo_slot by blast
  have m: "cfg_observation_mode demo_gpu_cfg = SPECTRAL" by (simp add: demo_gpu_cfg_def new_GlobalConfig_def)
  have N: "0 < m_Nfft g" "unat (m_acc_len g) = 1" using g by simp_all
  have "\<exists>grp :: acc_input list. length grp = unat (m_acc_len g) \<and> fst (slot_data s ! 0) = (\<Sum>x\<leftarrow>grp. exact_power (in_A x ! 0))"
    by (rule ex_forward [OF integration_exact [OF g(1) demo_gpu_mode(1,2) s]]) (simp add: m N(1))
  then show ?thesis using g(1) s unfolding N(2) by blast
qed

end
