(* ===== verification/Subband_Chain.thy ===== *)
theory Subband_Chain
  imports Gpu_Run Receiver_Delivery
begin

text \<open>
  The receivers of the two polarisations and the GPU worker of a subband together: the queues of the
  worker hold the batches that two receivers published.
\<close>

section \<open>Pairs\<close>

lemma align_members:
  "align a qA b qB gap = Some (a', qA', b', qB', gap') \<Longrightarrow>
     set (a' # qA') \<subseteq> set (a # qA) \<and> set (b' # qB') \<subseteq> set (b # qB)"
proof (induction a qA b qB gap rule: align.induct)
  case (1 a qA b qB gap)
  then show ?case by (subst (asm) (3) align.simps) (fastforce split: if_splits list.splits)
qed

lemma pair_up_members:
  "(a, b, gap) \<in> set (pair_up qA qB) \<Longrightarrow> a \<in> set qA \<and> b \<in> set qB"
proof (induction qA qB rule: pair_up.induct)
  case (1 a0 qA b0 qB)
  show ?case
  proof (cases "align a0 qA b0 qB False")
    case None
    then show ?thesis using "1.prems" by simp
  next
    case (Some r)
    obtain a' qA' b' qB' g' where r: "r = (a', qA', b', qB', g')" by (cases r)
    note al = Some [unfolded r]
    show ?thesis using "1.prems" "1.IH" [OF al refl refl refl refl] align_members [OF al] align_shorter [OF al]
      by (auto simp: al)
  qed
qed simp_all

lemma pair_ids:
  assumes "consecutive i qA" "consecutive j qB" "k < length (pair_up qA qB)" "pair_up qA qB ! k = (a, b, gap)"
  shows "nat_id a = max i j + k" "nat_id b = max i j + k"
proof -
  let ?f = "\<lambda>(a, b, gap). (nat_id a, nat_id b, gap)"
  note paired = pair_up_consecutive [OF assms(1,2)]
  have k0: "k < length [max i j..<min (i + length qA) (j + length qB)]"
    using assms(3) arg_cong [OF paired, of length] by (simp only: length_map)
  then have k: "max i j + k < min (i + length qA) (j + length qB)"
    by (simp only: length_upt less_diff_conv add.commute)
  have "(nat_id a, nat_id b, gap) = map ?f (pair_up qA qB) ! k" using assms(3,4) by simp
  also have "\<dots> = (max i j + k, max i j + k, i \<noteq> j \<and> max i j + k = max i j)"
    unfolding paired nth_map [OF k0] nth_upt [OF k] by (rule refl)
  finally show "nat_id a = max i j + k" "nat_id b = max i j + k" by simp_all
qed

lemma published_queue:
  assumes "0 < unat capacity" "unat capacity < 2 ^ 63" "0 < bs cfg" "thread_id cfg < 2 ^ 10"
    and "rx_reach cfg capacity s" "stored s \<noteq> []"
  shows "consecutive (pid (hd (stored s)) div bs cfg) (published s)"
  using published_ids [OF assms] by (simp add: consecutive_def)

text \<open>
  C5. Two receivers deliver their batches to a worker, and the worker pairs them by id: the pairs have
  equal and consecutive ids from the first id that both receivers published, and only the first pair
  can be flagged as an alignment gap, when one receiver started earlier than the other.
\<close>

theorem polarisations_paired:
  assumes "0 < unat capacity" "unat capacity < 2 ^ 63" "0 < bs cfgA" "thread_id cfgA < 2 ^ 10" "0 < bs cfgB" "thread_id cfgB < 2 ^ 10"
    and "rx_reach cfgA capacity sA" "stored sA \<noteq> []" "rx_reach cfgB capacity sB" "stored sB \<noteq> []"
  defines "iA \<equiv> pid (hd (stored sA)) div bs cfgA" and "iB \<equiv> pid (hd (stored sB)) div bs cfgB"
  shows "map (\<lambda>(a, b, gap). (nat_id a, nat_id b, gap)) (pair_up (published sA) (published sB))
    = map (\<lambda>k. (k, k, iA \<noteq> iB \<and> k = max iA iB))
        [max iA iB..<min (iA + length (published sA)) (iB + length (published sB))]"
  using pair_up_consecutive published_queue [OF assms(1-4,7,8)] published_queue [OF assms(1,2,5,6,9,10)]
  unfolding iA_def iB_def by blast

theorem polarisations_paired_witness:
  "\<exists>s. rx_reach (demo_cfg False) 1 s
    \<and> map (\<lambda>(a, b, gap). (nat_id a, nat_id b, gap)) (pair_up (published s) (published s)) = [(0, 0, False)]"
proof -
  obtain s b where s: "rx_reach (demo_cfg False) 1 s" "published s = [b]"
      "stored s = [demo_pinfo False 0, demo_pinfo False 1]" "pid (demo_pinfo False 0) = 0"
    using demo_published by blast
  have c: "0 < bs (demo_cfg False)" "thread_id (demo_cfg False) < 2 ^ 10" by (simp_all add: demo_cfg_def)
  have p: "0 < unat (1 :: u64)" "unat (1 :: u64) < 2 ^ 63" "stored s \<noteq> []" using s(3) by simp_all
  have "map (\<lambda>(a, b, gap). (nat_id a, nat_id b, gap)) (pair_up (published s) (published s)) = map (\<lambda>k. (k, k, False)) [0..<1]"
    using polarisations_paired [OF p(1,2) c c s(1) p(3) s(1) p(3)] unfolding s(3) list.sel s(4) div_0 max.idem
    by (simp add: s(2) del: pair_up.simps)
  then have "map (\<lambda>(a, b, gap). (nat_id a, nat_id b, gap)) (pair_up (published s) (published s)) = [(0, 0, False)]" by simp
  with s(1) show ?thesis by (intro exI [of _ s] conjI)
qed

section \<open>From packets to results\<close>

text \<open>
  From the network to the result: every block of the stretch that a published slot integrates, and
  each of the three blocks before it that the filter bank reaches back to, has all its packets received
  on both polarisations. The blocks carry consecutive batch ids, so the stretch is contiguous in time.
\<close>

theorem results_from_received_packets:
  assumes cap: "0 < unat capacity" "unat capacity < 2 ^ 63"
    and rxA: "0 < bs cfgA" "thread_id cfgA < 2 ^ 10" "rx_reach cfgA capacity sA" "stored sA \<noteq> []"
    and rxB: "0 < bs cfgB" "thread_id cfgB < 2 ^ 10" "rx_reach cfgB capacity sB" "stored sB \<noteq> []"
    and gpu: "new_GpuPfbFft fp cfg taps = Inr g" "0 < cfg_total_nfft cfg" "cfg_observation_mode cfg \<noteq> BASEBAND"
    and s: "s \<in> set (subband_run fp rnd fft cfg (published sA) (published sB) g)"
  defines "first \<equiv> max (pid (hd (stored sA)) div bs cfgA) (pid (hd (stored sB)) div bs cfgB)"
  shows "\<exists>i j. i + unat (m_acc_len g) \<le> j \<and> (\<forall>k. i \<le> k \<and> k < j \<longrightarrow> num_taps \<le> Suc k \<and>
      (\<forall>m. Suc k - num_taps \<le> m \<and> m \<le> k \<longrightarrow>
         (\<forall>n < bs cfgA. \<exists>p \<in> set (stored sA). pid p = (first + m) * bs cfgA + n)
       \<and> (\<forall>n < bs cfgB. \<exists>p \<in> set (stored sB). pid p = (first + m) * bs cfgB + n)))"
proof -
  define ps where "ps = pair_up (published sA) (published sB)"
  obtain noise i j where j: "j \<le> length ps"
      and v: "\<forall>k. i \<le> k \<and> k < j \<longrightarrow> num_taps \<le> Suc k \<and> (\<forall>m. Suc k - num_taps \<le> m \<and> m \<le> k \<longrightarrow> pair_valid (ps ! m))"
      and len: "\<exists>P. length (filter P [i..<j]) = unat (m_acc_len g)"
    using slot_group [OF gpu s] unfolding Let_def ps_def by blast
  obtain P where "length (filter P [i..<j]) = unat (m_acc_len g)" using len by blast
  then have "unat (m_acc_len g) \<le> length [i..<j]" by (metis length_filter_le)
  moreover have "0 < unat (m_acc_len g)"
    using run_init [OF gpu(1,2)] by (simp add: run_inv_def acc_rel_def counts_ok_def)
  ultimately have ij: "i + unat (m_acc_len g) \<le> j" by auto
  have got: "(\<forall>n < bs cfgA. \<exists>p \<in> set (stored sA). pid p = (first + m) * bs cfgA + n)
      \<and> (\<forall>n < bs cfgB. \<exists>p \<in> set (stored sB). pid p = (first + m) * bs cfgB + n)"
    if m: "m < length ps" "pair_valid (ps ! m)" for m
  proof -
    obtain a b gap where p: "ps ! m = (a, b, gap)" by (cases "ps ! m")
    have "(a, b, gap) \<in> set ps" using m(1) p by (metis nth_mem)
    then have ab: "a \<in> set (published sA)" "b \<in> set (published sB)"
      unfolding ps_def by (simp_all add: pair_up_members)
    note ids = pair_ids [OF published_queue [OF cap rxA] published_queue [OF cap rxB] m(1) [unfolded ps_def] p [unfolded ps_def], folded first_def]
    have "batch_valid a" "batch_valid b" using m(2) p by (simp_all add: pair_valid_def input_valid_def)
    then show ?thesis
      using published_valid_iff [OF cap rxA(1-3) ab(1)] published_valid_iff [OF cap rxB(1-3) ab(2)] ids by simp
  qed
  show ?thesis using ij v j got
    by (intro exI [of _ i] exI [of _ j] conjI ij) (meson le_less_trans less_le_trans)
qed


section \<open>A run from packets to a result\<close>

text \<open>A receiver that stores one more packet of the demonstration stream, each packet a batch of its own.\<close>

definition demo_state :: "nat \<Rightarrow> rx_sys \<Rightarrow> bool" where
  "demo_state n s \<longleftrightarrow> rx_reach (demo_cfg False) 8 s \<and> stored s = map (\<lambda>k. demo_pinfo False (of_nat k)) [0..<Suc n]
     \<and> length (published s) = n \<and> rpc s = R_idle \<and> prebatchid (rx s) = of_nat n \<and> expected_pkt_id (rx s) = of_nat (Suc n)
     \<and> cb_inv (queue (rx s)) \<and> length (queue_list (queue (rx s))) = n \<and> unat (maxcap (queue (rx s))) = 8"

lemma demo_state_0: "\<exists>s. demo_state 0 s"
proof -
  let ?s0 = "rx_init (demo_cfg False) 8"
  have init: "expected_pkt_id (rx ?s0) = 0" "queue (rx ?s0) = new_buffer 8" "rpc ?s0 = R_idle"
    by (simp_all add: rx_init_def new_receiver_def)
  obtain r1 where a: "rx_classify (demo_cfg False) Mon_mapped 0 (demo_packet 0) (rx ?s0) = Rx_accept r1 (demo_pinfo False 0)"
    using init by (simp add: demo_classify sequence_check_def demo_pinfo_sel Let_def)
  have f1: "prebatchid r1 = 0" "queue r1 = new_buffer 8" "expected_pkt_id r1 = 1"
    using rx_classify_accept [OF a] init by (simp_all add: demo_pinfo_sel)
  obtain r2 where st: "rx_store (demo_cfg False) (demo_pinfo False 0) r1 = Inr r2" using demo_store by blast
  note f2 = rx_store_sel [OF st, unfolded f1]
  have "rx_reach (demo_cfg False) 8 (?s0\<lparr>rx := r2, stored := [demo_pinfo False 0]\<rparr>)"
    using rx_next [OF rx_next [OF rx_start [of "demo_cfg False" 8] rx_accept [OF init(3) a]]
        rx_done [of _ "demo_pinfo False 0" "demo_cfg False" r2]] st f1
    by (simp add: demo_pinfo_sel rx_init_def)
  moreover have "cb_inv (new_buffer 8 :: nat circular_buffer)" "queue_list (new_buffer 8 :: nat circular_buffer) = []"
    by (rule new_buffer_inv; simp)+
  moreover have "unat (maxcap (new_buffer 8 :: nat circular_buffer)) = 8" by (simp add: new_buffer_def)
  ultimately show ?thesis using f2 init(3)
    by (intro exI [of _ "?s0\<lparr>rx := r2, stored := [demo_pinfo False 0]\<rparr>"]) (simp add: demo_state_def rx_init_def)
qed

lemma demo_state_Suc:
  assumes "demo_state n s" "n < 8"
  shows "\<exists>s'. demo_state (Suc n) s'"
proof -
  note s = assms(1) [unfolded demo_state_def]
  let ?i = "demo_pinfo False (of_nat (Suc n))"
  have id: "recv_packet_id ?i = of_nat (Suc n)" "info_batchid ?i = of_nat (Suc n)"
    unfolding demo_pinfo_sel using assms(2) by (simp_all add: word_eq_unat unat_of_nat unsigned_ucast_eq take_bit_nat_eq_self del: of_nat_Suc)
  have ne: "(of_nat (Suc n) :: u64) \<noteq> 0" using assms(2) by (simp add: word_eq_unat unat_of_nat del: of_nat_Suc)
  have lt: "(of_nat n :: u64) < of_nat (Suc n)" using assms(2) by (simp add: word_less_nat_alt unat_of_nat del: of_nat_Suc)
  obtain r1 where a: "rx_classify (demo_cfg False) Mon_mapped 0 (demo_packet (of_nat (Suc n))) (rx s) = Rx_accept r1 ?i"
    using s ne id(1) by (simp add: demo_classify sequence_check_def Let_def del: of_nat_Suc)
  have f1: "prebatchid r1 = of_nat n" "queue r1 = queue (rx s)" "expected_pkt_id r1 = of_nat (Suc n) + 1"
    using rx_classify_accept [OF a] s ne id by (simp_all del: of_nat_Suc)
  have s1: "rx_reach (demo_cfg False) 8 (s\<lparr>rx := r1, rpc := R_advance ?i\<rparr>)"
    using rx_next [of "demo_cfg False" 8 s] s a by (blast intro: rx_accept)
  obtain q where q: "try_enqueue (pool_idx r1) (queue (rx s)) = (True, q)" "cb_inv q"
      "unat (maxcap q) = 8" "length (queue_list q) = Suc n"
  proof -
    have "cb_inv (queue (rx s))" "length (queue_list (queue (rx s))) = n" "unat (maxcap (queue (rx s))) = 8" using s by blast+
    then show ?thesis using cb.enqE [of "queue (rx s)" "pool_idx r1" thesis] assms(2) that by (metis length_append_singleton)
  qed
  define r2 where "r2 = next_batch (demo_cfg False) ((finish_current (demo_cfg False) r1)\<lparr>queue := q\<rparr>)"
  have p: "rx_try_publish (demo_cfg False) r1 = (True, r2)"
    using q(1) f1(2) by (simp add: rx_try_publish_def r2_def)
  have f2: "queue r2 = q" "prebatchid r2 = of_nat (Suc n)" "expected_pkt_id r2 = of_nat (Suc n) + 1"
    using f1 by (simp_all add: r2_def next_batch_def finish_current_def Let_def)
  let ?b = "current (finish_current (demo_cfg False) r1)"
  let ?s2 = "s\<lparr>rpc := R_advance ?i, rx := r2, published := published s @ [?b]\<rparr>"
  have s2: "rx_reach (demo_cfg False) 8 ?s2"
    using rx_next [OF s1 rx_publish [of "s\<lparr>rx := r1, rpc := R_advance ?i\<rparr>" ?i "demo_cfg False" r2]] p f1(1) lt id(2)
    by (simp del: of_nat_Suc)
  obtain r3 where st: "rx_store (demo_cfg False) ?i r2 = Inr r3" using demo_store by blast
  note f3 = rx_store_sel [OF st, unfolded f2]
  have "rx_reach (demo_cfg False) 8 (?s2\<lparr>rx := r3, rpc := R_idle, stored := stored s @ [?i]\<rparr>)"
    using rx_next [OF s2 rx_done [of ?s2 ?i "demo_cfg False" r3]] st f2(2) id(2) by (simp del: of_nat_Suc)
  then show ?thesis using f3 q s
    by (intro exI [of _ "?s2\<lparr>rx := r3, rpc := R_idle, stored := stored s @ [?i]\<rparr>"]) (simp add: demo_state_def)
qed

lemma demo_state_run: "n \<le> 8 \<Longrightarrow> \<exists>s. demo_state n s"
proof (induction n)
  case 0
  show ?case by (rule demo_state_0)
next
  case (Suc n)
  then show ?case using demo_state_Suc [of n] by auto
qed

lemma valid_pairs_publish:
  assumes "length ps = num_taps" "\<forall>p \<in> set ps. pair_valid p"
  shows "spec_groups False 1 ([], []) (block_inputs fp rnd fft cfg taps N [] ps) \<noteq> []"
proof -
  have ne: "spec_groups False 1 ([], []) xs \<noteq> []" if "x \<in> set xs" "in_valid x" for xs and x :: acc_input
    using that by (induction xs) (auto simp: spec_step_def push_group_def)
  have "drop 0 (map pair_valid ps) = map pair_valid ps" by simp
  then have "num_taps \<le> trailing (map pair_valid ps)" using assms by (simp add: trailing_iff)
  then have "in_valid (block_input fp rnd fft cfg taps N ps)" by (simp add: block_input_def Let_def)
  moreover have "block_input fp rnd fft cfg taps N ps \<in> set (block_inputs fp rnd fft cfg taps N [] ps)"
    using assms(1) by (auto simp: block_inputs_def num_taps_def intro!: image_eqI [of _ _ 3])
  ultimately show ?thesis by (rule ne [rotated])
qed

lemma demo_pairs_valid:
  assumes s: "demo_state 4 s"
  shows "length (pair_up (published s) (published s)) = num_taps" "\<forall>p \<in> set (pair_up (published s) (published s)). pair_valid p"
proof -
  have c: "0 < unat (8 :: u64)" "unat (8 :: u64) < 2 ^ 63" "0 < bs (demo_cfg False)" "thread_id (demo_cfg False) < 2 ^ 10"
    by (simp_all add: demo_cfg_def)
  have st: "rx_reach (demo_cfg False) 8 s" "stored s \<noteq> []" "length (published s) = 4"
    and hd: "pid (hd (stored s)) div bs (demo_cfg False) = 0" and bs1: "bs (demo_cfg False) = 1"
    using s by (simp_all add: demo_state_def demo_pinfo_sel demo_cfg_def hd_map del: upt_Suc)
  note con = published_queue [OF c st(1,2), unfolded hd]
  note paired = pair_up_consecutive [OF con con]
  show "length (pair_up (published s) (published s)) = num_taps"
    using arg_cong [OF paired, of length] st(3) by (simp add: num_taps_def)
  have ids: "pid (demo_pinfo False (of_nat k)) = k" if "k < 5" for k
    using that unfolding demo_pinfo_sel by (simp add: unat_of_nat unsigned_ucast_eq take_bit_nat_eq_self)
  have v: "batch_valid b" if b: "b \<in> set (published s)" for b
  proof -
    have "unat (batch_id b) \<in> set (map nat_id (published s))" using b by simp
    then have "unat (batch_id b) < 4" using con unfolding consecutive_def st(3) by (metis add_0 atLeastLessThan_iff set_upt)
    then have "demo_pinfo False (of_nat (unat (batch_id b))) \<in> set (stored s)"
      using s by (simp add: demo_state_def del: upt_Suc of_nat_unat)
    then have "\<exists>i \<in> set (stored s). pid i = unat (batch_id b)"
      using ids [of "unat (batch_id b)"] \<open>unat (batch_id b) < 4\<close> by force
    then show ?thesis unfolding published_valid_iff [OF c st(1) b] bs1 by simp
  qed
  show "\<forall>p \<in> set (pair_up (published s) (published s)). pair_valid p"
  proof
    fix p assume p: "p \<in> set (pair_up (published s) (published s))"
    obtain a b gap where q: "p = (a, b, gap)" by (cases p)
    have "(nat_id a, nat_id b, gap) \<in> set (map (\<lambda>(a, b, gap). (nat_id a, nat_id b, gap)) (pair_up (published s) (published s)))"
      using p q by force
    then have "\<not> gap" unfolding paired by auto
    then show "pair_valid p" using v pair_up_members [of a b gap] p q by (simp add: pair_valid_def input_valid_def)
  qed
qed

theorem results_from_received_packets_witness:
  "\<exists>sA g s i j. rx_reach (demo_cfg False) 8 sA \<and> new_GpuPfbFft exact_fpu demo_gpu_cfg [] = Inr g
    \<and> s \<in> set (subband_run exact_fpu (\<lambda>x. x) (\<lambda>x. x) demo_gpu_cfg (published sA) (published sA) g)
    \<and> i < j \<and> (\<exists>p \<in> set (stored sA). pid p = i)"
proof -
  obtain t where t: "demo_state 4 t" using demo_state_run [of 4] by auto
  have c: "0 < unat (8 :: u64)" "unat (8 :: u64) < 2 ^ 63" "0 < bs (demo_cfg False)" "thread_id (demo_cfg False) < 2 ^ 10"
      "bs (demo_cfg False) = 1" by (simp_all add: demo_cfg_def)
  have st: "rx_reach (demo_cfg False) 8 t" "stored t \<noteq> []" and hd: "pid (hd (stored t)) = 0"
    using t by (simp_all add: demo_state_def demo_pinfo_sel hd_map del: upt_Suc)
  obtain g where g: "new_GpuPfbFft exact_fpu demo_gpu_cfg [] = Inr g" "m_acc_len g = 1" using demo_gpu by blast
  have "subband_run exact_fpu (\<lambda>x. x) (\<lambda>x. x) demo_gpu_cfg (published t) (published t) g \<noteq> []"
    using new_run_refines [OF g(1) demo_gpu_mode(1,2), of "\<lambda>x. x" "\<lambda>x. x" "published t" "published t"]
      valid_pairs_publish [OF demo_pairs_valid [OF t]] g(2) by (auto simp: demo_gpu_mode(3))
  then obtain s where s: "s \<in> set (subband_run exact_fpu (\<lambda>x. x) (\<lambda>x. x) demo_gpu_cfg (published t) (published t) g)"
    by (meson list.set_sel(1))
  note r = results_from_received_packets [OF c(1,2) c(3,4) st c(3,4) st g(1) demo_gpu_mode(1,2) s]
  obtain i j where ij: "i + unat (m_acc_len g) \<le> j" "\<forall>k. i \<le> k \<and> k < j \<longrightarrow>
      (\<forall>m. Suc k - num_taps \<le> m \<and> m \<le> k \<longrightarrow> (\<exists>p \<in> set (stored t). pid p = m))"
    using r unfolding c(5) hd by fastforce
  then have "i < j" "\<exists>p \<in> set (stored t). pid p = i" using g(2) by (auto simp: num_taps_def)
  then show ?thesis using st(1) g(1) s by blast
qed

end
