(* ===== verification/Spectrum_Sender.thy ===== *)
theory Spectrum_Sender
  imports Spectrum_Transport Global_Config
begin

text \<open>
  The socket state machine of \<^verbatim>\<open>include/SpectrumSender.hpp\<close>: creation and configuration of the ZeroMQ
  sockets, connection events and sending of results. ZeroMQ itself is a parameter: the outcomes of its
  calls are a record \<open>zmq_env\<close>, and what the calls leave in the library (open sockets, options,
  connections, accepted messages) is a record \<open>zmq\<close>.
\<close>

section \<open>The library\<close>

datatype zmq_option = ZMQ_LINGER | ZMQ_IMMEDIATE | ZMQ_SNDHWM | ZMQ_SNDTIMEO | ZMQ_RECONNECT_IVL
  | ZMQ_RECONNECT_IVL_MAX | ZMQ_HEARTBEAT_IVL | ZMQ_HEARTBEAT_TIMEOUT

datatype zmq_call = Setsockopt nat zmq_option int | Connect nat string

record zmq =
  open_sockets :: "nat list"
  done_calls :: "zmq_call list"
  sent_messages :: "(nat \<times> bytes) list"

text \<open>
  The outcomes during one operation: the context, the handles of the two sockets (\<open>None\<close> for a null
  pointer), the monitor, the numbered configuration calls, the poll result and event bit, the message
  allocation, the return value of the send, and the text of \<^verbatim>\<open>zmq_strerror\<close>.
\<close>

record zmq_env =
  env_context :: bool
  env_socket :: "nat option"
  env_monitor :: bool
  env_pair :: "nat option"
  env_call :: "nat \<Rightarrow> bool"
  env_poll :: int
  env_pollout :: bool
  env_alloc :: bool
  env_sent :: int
  env_error :: string

definition zmq_socket :: "nat \<Rightarrow> zmq \<Rightarrow> zmq" where
  "zmq_socket h z = z\<lparr>open_sockets := open_sockets z @ [h]\<rparr>"

definition zmq_close :: "nat \<Rightarrow> zmq \<Rightarrow> zmq" where
  "zmq_close h z = z\<lparr>open_sockets := remove1 h (open_sockets z)\<rparr>"

text \<open>The chain of calls joined by \<^verbatim>\<open>||\<close>: it stops at the first that fails.\<close>

fun zmq_calls :: "(nat \<Rightarrow> bool) \<Rightarrow> nat \<Rightarrow> zmq_call list \<Rightarrow> zmq \<Rightarrow> bool \<times> zmq" where
  "zmq_calls ok k [] z = (True, z)"
| "zmq_calls ok k (c # cs) z =
     (if ok k then zmq_calls ok (k + 1) cs (z\<lparr>done_calls := done_calls z @ [c]\<rparr>) else (False, z))"

section \<open>The sender\<close>

text \<open>The members lose their trailing underscore and carry the prefix \<^verbatim>\<open>s_\<close>.\<close>

record SpectrumSender =
  s_socket :: "nat option"
  s_monitor_socket :: "nat option"
  s_owner_thread :: nat
  s_monitor_connected :: bool
  s_server_id :: u16
  s_next_sequence :: u64
  s_endpoint :: string
  s_last_failure :: string

definition new_SpectrumSender :: SpectrumSender where
  "new_SpectrumSender = \<lparr>s_socket = None, s_monitor_socket = None, s_owner_thread = 0, s_monitor_connected = False,
     s_server_id = 0, s_next_sequence = 0, s_endpoint = '''', s_last_failure = ''''\<rparr>"

definition sender_init :: "string \<Rightarrow> u16 \<Rightarrow> u16 \<Rightarrow> SpectrumSender \<Rightarrow> SpectrumSender" where
  "sender_init ip port server s =
     s\<lparr>s_server_id := server, s_endpoint := ''tcp://'' @ ip @ '':'' @ decimal (unat port)\<rparr>"

text \<open>The configuration calls of \<^verbatim>\<open>ensure_socket\<close> in order; \<open>this_ptr\<close> is the address of the object.\<close>

definition monitor_endpoint :: "nat \<Rightarrow> string" where
  "monitor_endpoint this_ptr = ''inproc://spectrum-sender-monitor-'' @ decimal this_ptr"

definition socket_options :: "nat \<Rightarrow> nat \<Rightarrow> nat \<Rightarrow> zmq_call list" where
  "socket_options this_ptr candidate monitor =
     [Setsockopt monitor ZMQ_LINGER 0, Connect monitor (monitor_endpoint this_ptr),
      Setsockopt candidate ZMQ_IMMEDIATE 1, Setsockopt candidate ZMQ_LINGER 0,
      Setsockopt candidate ZMQ_SNDHWM 1, Setsockopt candidate ZMQ_SNDTIMEO 0,
      Setsockopt candidate ZMQ_RECONNECT_IVL 100, Setsockopt candidate ZMQ_RECONNECT_IVL_MAX 1000,
      Setsockopt candidate ZMQ_HEARTBEAT_IVL 1000, Setsockopt candidate ZMQ_HEARTBEAT_TIMEOUT 3000]"

definition fail_with :: "string \<Rightarrow> SpectrumSender \<Rightarrow> SpectrumSender" where
  "fail_with text s = s\<lparr>s_last_failure := text\<rparr>"

text \<open>The connect of the candidate is call number 10, after the ten of the chain.\<close>

definition ensure_socket :: "nat \<Rightarrow> nat \<Rightarrow> zmq_env \<Rightarrow> SpectrumSender \<Rightarrow> zmq \<Rightarrow> bool \<times> SpectrumSender \<times> zmq" where
  "ensure_socket thread this_ptr env s z =
     (if s_socket s \<noteq> None then
        if s_owner_thread s \<noteq> thread then (False, fail_with ''ZeroMQ socket accessed from a non-owner thread'' s, z)
        else (True, s, z)
      else if s_endpoint s = '''' then (False, fail_with ''ZeroMQ sender endpoint is not configured'' s, z)
      else if \<not> env_context env then (False, fail_with ''failed to create ZeroMQ context'' s, z)
      else
        case env_socket env of
          None \<Rightarrow> (False, fail_with (env_error env) s, z)
        | Some candidate \<Rightarrow>
            let z = zmq_socket candidate z in
            if \<not> env_monitor env then (False, fail_with (env_error env) s, zmq_close candidate z)
            else
              case env_pair env of
                None \<Rightarrow> (False, fail_with (env_error env) s, zmq_close candidate z)
              | Some monitor \<Rightarrow>
                  (case zmq_calls (env_call env) 0 (socket_options this_ptr candidate monitor) (zmq_socket monitor z) of
                     (False, z) \<Rightarrow> (False, fail_with (env_error env) s, zmq_close candidate (zmq_close monitor z))
                   | (True, z) \<Rightarrow>
                       (case zmq_calls (env_call env) 10 [Connect candidate (s_endpoint s)] z of
                          (False, z) \<Rightarrow> (False, fail_with (env_error env) s, zmq_close candidate (zmq_close monitor z))
                        | (True, z) \<Rightarrow>
                            (True, s\<lparr>s_socket := Some candidate, s_monitor_socket := Some monitor,
                                     s_owner_thread := thread, s_last_failure := ''''\<rparr>, z))))"

definition wait_until_writable :: "nat \<Rightarrow> nat \<Rightarrow> zmq_env \<Rightarrow> SpectrumSender \<Rightarrow> zmq \<Rightarrow> bool \<times> SpectrumSender \<times> zmq" where
  "wait_until_writable thread this_ptr env s z =
     (case ensure_socket thread this_ptr env s z of
        (False, s, z) \<Rightarrow> (False, s, z)
      | (True, s, z) \<Rightarrow>
          if env_poll env < 0 then (False, fail_with (env_error env) s, z)
          else if env_poll env = 0 \<or> \<not> env_pollout env
          then (False, fail_with ''no writable peer (connection pending/down or HWM full)'' s, z)
          else (True, s\<lparr>s_last_failure := ''''\<rparr>, z))"

section \<open>Connection events\<close>

datatype ConnectionEvent = CONNECTED | DISCONNECTED

definition ZMQ_EVENT_CONNECTED :: u16 where "ZMQ_EVENT_CONNECTED = 1"
definition ZMQ_EVENT_DISCONNECTED :: u16 where "ZMQ_EVENT_DISCONNECTED = 0x200"

text \<open>A frame waiting on the monitor socket, with its \<^verbatim>\<open>more\<close> flag; the loop ends when no frame is left.\<close>

record monitor_frame =
  frame_data :: bytes
  frame_more :: bool

definition event_id :: "monitor_frame \<Rightarrow> u16" where
  "event_id f =
     (if length (frame_data f) \<ge> 2 then ucast (frame_data f ! 0) OR push_bit 8 (ucast (frame_data f ! 1)) else 0)"

function event_loop :: "monitor_frame list \<Rightarrow> bool \<Rightarrow> ConnectionEvent list \<times> bool" where
  "event_loop [] up = ([], up)"
| "event_loop (f # fs) up =
     (let fs = (if frame_more f then drop 1 fs else fs) in
      if event_id f = ZMQ_EVENT_CONNECTED \<and> \<not> up
      then (case event_loop fs True of (es, c) \<Rightarrow> (CONNECTED # es, c))
      else if event_id f = ZMQ_EVENT_DISCONNECTED \<and> up
      then (case event_loop fs False of (es, c) \<Rightarrow> (DISCONNECTED # es, c))
      else event_loop fs up)"
  by pat_completeness auto
termination
  by (relation "measure (length \<circ> fst)") auto

definition take_connection_events :: "monitor_frame list \<Rightarrow> SpectrumSender \<Rightarrow> ConnectionEvent list \<times> SpectrumSender" where
  "take_connection_events fs s =
     (if s_monitor_socket s = None then ([], s)
      else case event_loop fs (s_monitor_connected s) of (es, c) \<Rightarrow> (es, s\<lparr>s_monitor_connected := c\<rparr>))"

section \<open>Sending\<close>

definition INT_MAX :: nat where "INT_MAX = 2 ^ 31 - 1"
definition UINT32_MAX :: nat where "UINT32_MAX = 2 ^ 32 - 1"

text \<open>A payload is \<open>None\<close> for a null pointer. The 103 bytes are the size of \<^verbatim>\<open>spectrum_header\<close>, the 24 of
  \<^verbatim>\<open>spectrum_transport_header\<close>; a send that returns the length of the message has handed it over.\<close>

definition send_spectrum :: "nat \<Rightarrow> nat \<Rightarrow> zmq_env \<Rightarrow> spectrum_header \<Rightarrow> bytes option \<Rightarrow> SpectrumSender \<Rightarrow> zmq \<Rightarrow>
    bool \<times> spectrum_header \<times> SpectrumSender \<times> zmq" where
  "send_spectrum thread this_ptr env header payload s z =
     (case ensure_socket thread this_ptr env s z of
        (False, s, z) \<Rightarrow> (False, header, s, z)
      | (True, s, z) \<Rightarrow>
          (case payload of
             None \<Rightarrow> (False, header, fail_with ''result payload is null'' s, z)
           | Some data \<Rightarrow>
               if length data > UINT32_MAX - 103
               then (False, header, fail_with ''payload exceeds transport size limit'' s, z)
               else
                 let header = header\<lparr>pkt_id := 0, total_pkt := 1\<rparr>;
                     sequence = s_next_sequence s;
                     s = s\<lparr>s_next_sequence := sequence + 1\<rparr>
                 in (case wait_until_writable thread this_ptr env s z of
                       (False, s, z) \<Rightarrow> (False, header, s, z)
                     | (True, s, z) \<Rightarrow>
                         let message_bytes = 24 + (103 + length data) in
                         if message_bytes > INT_MAX
                         then (False, header, fail_with ''message exceeds ZeroMQ send size limit'' s, z)
                         else if \<not> env_alloc env then (False, header, fail_with (env_error env) s, z)
                         else
                           let message = build_message (s_server_id s) sequence header data in
                           if env_sent env \<ge> 0 \<and> nat (env_sent env) = message_bytes
                           then (True, header, s\<lparr>s_last_failure := ''''\<rparr>,
                                 z\<lparr>sent_messages := sent_messages z @ [(the (s_socket s), message)]\<rparr>)
                           else (False, header,
                                 fail_with (if env_sent env < 0 then env_error env else ''partial ZeroMQ message send'') s, z))))"


section \<open>Sockets\<close>

text \<open>The open sockets are those that a sender holds, besides the ones of others.\<close>

definition held_sockets :: "SpectrumSender \<Rightarrow> nat list" where
  "held_sockets s = (case s_socket s of None \<Rightarrow> [] | Some h \<Rightarrow> [h]) @ (case s_monitor_socket s of None \<Rightarrow> [] | Some h \<Rightarrow> [h])"

definition sender_ok :: "SpectrumSender \<Rightarrow> nat list \<Rightarrow> zmq \<Rightarrow> bool" where
  "sender_ok s others z \<longleftrightarrow> (s_socket s = None \<longleftrightarrow> s_monitor_socket s = None) \<and> open_sockets z = others @ held_sockets s
     \<and> (s_socket s \<noteq> None \<longrightarrow> (\<exists>this_ptr. let c = the (s_socket s); m = the (s_monitor_socket s) in
          set (socket_options this_ptr c m) \<subseteq> set (done_calls z) \<and> Connect c (s_endpoint s) \<in> set (done_calls z)))"

lemma zmq_calls_frame:
  "zmq_calls ok k cs z = (b, z') \<Longrightarrow> open_sockets z' = open_sockets z \<and> sent_messages z' = sent_messages z
     \<and> set (done_calls z) \<subseteq> set (done_calls z') \<and> (b \<longrightarrow> done_calls z' = done_calls z @ cs)"
  by (induction ok k cs z rule: zmq_calls.induct) (auto split: if_splits)

text \<open>A fresh handle is not open; the documentation of ZeroMQ gives handles that are distinct while open.\<close>

definition fresh_env :: "zmq_env \<Rightarrow> zmq \<Rightarrow> bool" where
  "fresh_env env z \<longleftrightarrow>
     (\<forall>h. env_socket env = Some h \<or> env_pair env = Some h \<longrightarrow> h \<notin> set (open_sockets z))
     \<and> (env_socket env \<noteq> None \<longrightarrow> env_socket env \<noteq> env_pair env)"

lemma remove1_last: "h \<notin> set xs \<Longrightarrow> remove1 h (xs @ [h]) = xs"
  by (simp add: remove1_append)

lemma fail_with_sel [simp]:
  "s_socket (fail_with t s) = s_socket s" "s_monitor_socket (fail_with t s) = s_monitor_socket s"
  "s_owner_thread (fail_with t s) = s_owner_thread s" "s_monitor_connected (fail_with t s) = s_monitor_connected s"
  "s_server_id (fail_with t s) = s_server_id s" "s_next_sequence (fail_with t s) = s_next_sequence s"
  "s_endpoint (fail_with t s) = s_endpoint s"
  by (simp_all add: fail_with_def)

lemma sender_ok_cong:
  assumes "s_socket s' = s_socket s" "s_monitor_socket s' = s_monitor_socket s" "s_endpoint s' = s_endpoint s"
    "open_sockets z' = open_sockets z" "done_calls z' = done_calls z"
  shows "sender_ok s' others z' = sender_ok s others z"
  using assms by (simp add: sender_ok_def held_sockets_def)

lemma ensure_socket_spec:
  assumes "sender_ok s others z" "fresh_env env z" "ensure_socket thread this_ptr env s z = (b, s', z')"
  shows "sender_ok s' others z' \<and> sent_messages z' = sent_messages z \<and> s_next_sequence s' = s_next_sequence s
    \<and> s_server_id s' = s_server_id s \<and> s_endpoint s' = s_endpoint s \<and> s_monitor_connected s' = s_monitor_connected s
    \<and> (b \<longrightarrow> s_socket s' \<noteq> None \<and> s_owner_thread s' = thread)
    \<and> (\<not> b \<longrightarrow> open_sockets z' = open_sockets z \<and> s_socket s' = s_socket s)
    \<and> (s_socket s \<noteq> None \<longrightarrow> s_socket s' = s_socket s \<and> z' = z)"
proof (cases "s_socket s = None \<and> s_endpoint s \<noteq> '''' \<and> env_context env \<and> env_monitor env
    \<and> env_socket env \<noteq> None \<and> env_pair env \<noteq> None")
  case False
  let ?f = "\<lambda>t. fail_with t s"
  have "s' = s \<or> (\<exists>t. s' = ?f t)" "open_sockets z' = open_sockets z" "sent_messages z' = sent_messages z"
      "done_calls z' = done_calls z" "b \<longrightarrow> s_socket s \<noteq> None \<and> s_owner_thread s = thread" "s_socket s \<noteq> None \<longrightarrow> z' = z"
    using assms(2,3) False unfolding ensure_socket_def Let_def
    by (auto simp: zmq_socket_def zmq_close_def fresh_env_def remove1_last split: if_splits option.splits)
  moreover have "sender_ok s' others z'"
    using calculation(1,2,4) assms(1) sender_ok_cong [of s' s z' z] by auto
  ultimately show ?thesis by auto
next
  case True
  then obtain c m where cm: "env_socket env = Some c" "env_pair env = Some m" by auto
  let ?z1 = "zmq_socket m (zmq_socket c z)"
  have fr: "c \<notin> set (open_sockets z)" "m \<notin> set (open_sockets z)" "c \<noteq> m" using assms(2) cm by (auto simp: fresh_env_def)
  have op: "open_sockets ?z1 = others @ [c, m]" using assms(1) True by (simp add: zmq_socket_def sender_ok_def held_sockets_def)
  have cl: "remove1 c (remove1 m (others @ [c, m])) = others"
    using fr assms(1) True by (auto simp: sender_ok_def held_sockets_def remove1_append)
  obtain b1 z1 where c1: "zmq_calls (env_call env) 0 (socket_options this_ptr c m) ?z1 = (b1, z1)" by fastforce
  obtain b2 z2 where c2: "zmq_calls (env_call env) 10 [Connect c (s_endpoint s)] z1 = (b2, z2)" by fastforce
  note f1 = zmq_calls_frame [OF c1] and f2 = zmq_calls_frame [OF c2]
  have o1: "open_sockets z1 = others @ [c, m]" "open_sockets z2 = others @ [c, m]" using f1 f2 op by simp_all
  have e: "(b, s', z') = (if b1 \<and> b2 then (True, s\<lparr>s_socket := Some c, s_monitor_socket := Some m, s_owner_thread := thread, s_last_failure := ''''\<rparr>, z2)
      else (False, fail_with (env_error env) s, zmq_close c (zmq_close m (if b1 then z2 else z1))))"
    unfolding assms(3) [symmetric] ensure_socket_def Let_def using True cm c1 c2 by (cases b1; cases b2) simp_all
  have sent: "sent_messages z1 = sent_messages z" "sent_messages z2 = sent_messages z"
    using f1 f2 by (simp_all add: zmq_socket_def)
  show ?thesis
  proof (cases "b1 \<and> b2")
    case both: True
    have "set (socket_options this_ptr c m) \<subseteq> set (done_calls z2)" "Connect c (s_endpoint s) \<in> set (done_calls z2)"
      using f1 f2 both by auto
    then show ?thesis using e both o1 sent True assms(1) by (auto simp: sender_ok_def held_sockets_def Let_def)
  next
    case nb: False
    then show ?thesis using e o1 sent True cl assms(1) by (auto simp: sender_ok_def held_sockets_def fail_with_def zmq_close_def)
  qed
qed


section \<open>Event sequences\<close>

text \<open>Events alternate, beginning with a connection when the peer was down.\<close>

fun alternate :: "bool \<Rightarrow> ConnectionEvent list \<Rightarrow> bool" where
  "alternate up [] \<longleftrightarrow> True"
| "alternate up (e # es) \<longleftrightarrow> e = (if up then DISCONNECTED else CONNECTED) \<and> alternate (\<not> up) es"

lemma event_loop_alternate:
  "event_loop fs up = (es, up') \<Longrightarrow> alternate up es \<and> up' = (if even (length es) then up else \<not> up)"
proof (induction fs up arbitrary: es up' rule: event_loop.induct)
  case (2 f fs up)
  then show ?case by (fastforce simp: Let_def split: if_splits prod.splits)
qed simp

lemma alternate_append: "alternate up (xs @ ys) \<longleftrightarrow> alternate up xs \<and> alternate (if even (length xs) then up else \<not> up) ys"
  by (induction xs arbitrary: up) auto

fun take_all_events :: "monitor_frame list list \<Rightarrow> SpectrumSender \<Rightarrow> ConnectionEvent list" where
  "take_all_events [] s = []"
| "take_all_events (fs # fss) s = (case take_connection_events fs s of (es, s) \<Rightarrow> es @ take_all_events fss s)"

lemma take_all_events_alternate: "alternate (s_monitor_connected s) (take_all_events fss s)"
proof (induction fss arbitrary: s)
  case (Cons fs fss)
  show ?case
  proof (cases "s_monitor_socket s = None")
    case True
    then show ?thesis using Cons.IH [of s] by (simp add: take_connection_events_def)
  next
    case False
    obtain es up where e: "event_loop fs (s_monitor_connected s) = (es, up)" by fastforce
    have "take_connection_events fs s = (es, s\<lparr>s_monitor_connected := up\<rparr>)"
      using False e by (auto simp: take_connection_events_def)
    then show ?thesis using event_loop_alternate [OF e] Cons.IH [of "s\<lparr>s_monitor_connected := up\<rparr>"]
      by (simp add: alternate_append)
  qed
qed simp

section \<open>Sequence numbers\<close>

text \<open>The calls of a worker on a sender: environment, header and payload of each.\<close>

fun send_all :: "nat \<Rightarrow> nat \<Rightarrow> (zmq_env \<times> spectrum_header \<times> bytes) list \<Rightarrow> SpectrumSender \<Rightarrow> zmq \<Rightarrow>
    bool list \<times> SpectrumSender \<times> zmq" where
  "send_all thread this_ptr [] s z = ([], s, z)"
| "send_all thread this_ptr ((env, h, data) # cs) s z =
     (case send_spectrum thread this_ptr env h (Some data) s z of
        (b, _, s, z) \<Rightarrow> (case send_all thread this_ptr cs s z of (bs, s, z) \<Rightarrow> (b # bs, s, z)))"

definition message_of :: "SpectrumSender \<Rightarrow> nat \<Rightarrow> spectrum_header \<Rightarrow> bytes \<Rightarrow> bytes" where
  "message_of s k h data = build_message (s_server_id s) (s_next_sequence s + of_nat k) (h\<lparr>pkt_id := 0, total_pkt := 1\<rparr>) data"

lemma send_spectrum_ready:
  assumes "s_socket s = Some c" "s_owner_thread s = thread" "length data \<le> UINT32_MAX - 103"
    and "send_spectrum thread this_ptr env h (Some data) s z = (b, h', s', z')"
  shows "s_socket s' = Some c" "s_owner_thread s' = thread" "s_next_sequence s' = s_next_sequence s + 1"
    "s_server_id s' = s_server_id s"
    "sent_messages z' = sent_messages z @ (if b then [(c, message_of s 0 h data)] else [])"
    "open_sockets z' = open_sockets z"
  using assms unfolding send_spectrum_def wait_until_writable_def ensure_socket_def Let_def
  by (auto simp: message_of_def split: if_splits)

lemma send_all_ready:
  assumes "s_socket s = Some c" "s_owner_thread s = thread" "\<forall>(env, h, data) \<in> set cs. length data \<le> UINT32_MAX - 103"
    and "send_all thread this_ptr cs s z = (rs, s', z')"
  shows "length rs = length cs \<and> s_socket s' = Some c \<and> s_next_sequence s' = s_next_sequence s + of_nat (length cs)
    \<and> sent_messages z' = sent_messages z @
        map (\<lambda>k. (c, message_of s k (fst (snd (cs ! k))) (snd (snd (cs ! k))))) (filter (\<lambda>k. rs ! k) [0..<length cs])"
  using assms
proof (induction cs arbitrary: s z rs)
  case (Cons a cs)
  obtain env h data where a: "a = (env, h, data)" by (cases a)
  obtain b h1 s1 z1 where s: "send_spectrum thread this_ptr env h (Some data) s z = (b, h1, s1, z1)" by (metis surj_pair)
  obtain rs1 where r: "send_all thread this_ptr cs s1 z1 = (rs1, s', z')" "rs = b # rs1"
    using Cons.prems(4) s by (auto simp: a split: prod.splits)
  note f = send_spectrum_ready [OF Cons.prems(1,2) _ s]
  have f: "s_socket s1 = Some c" "s_owner_thread s1 = thread" "s_next_sequence s1 = s_next_sequence s + 1"
      "s_server_id s1 = s_server_id s" "sent_messages z1 = sent_messages z @ (if b then [(c, message_of s 0 h data)] else [])"
    using f Cons.prems(3) by (simp_all add: a)
  note IH = Cons.IH [OF f(1,2) _ r(1)]
  have m: "message_of s1 k h d = message_of s (Suc k) h d" for k h d
    by (simp add: message_of_def f add.assoc)
  have up: "[0..<length (a # cs)] = 0 # map Suc [0..<length cs]" by (simp add: upt_conv_Cons map_Suc_upt del: upt_Suc)
  show ?case using IH Cons.prems(3) unfolding up r(2) by (auto simp: a f(3,5) m filter_map o_def)
qed simp

section \<open>Properties\<close>

text \<open>
  C21. Creating the sockets of a sender leaks nothing: whatever call of the library fails, the sockets
  opened on the way are closed again, a later attempt starts from the same state, and after a success
  the sender holds exactly its two sockets, fully configured and owned by the calling thread.
\<close>

theorem ensure_socket_owns:
  assumes "sender_ok s others z" "fresh_env env z" "ensure_socket thread this_ptr env s z = (b, s', z')"
  shows "sender_ok s' others z' \<and> (if b then s_socket s' \<noteq> None \<and> s_owner_thread s' = thread
    else open_sockets z' = open_sockets z \<and> s_socket s' = s_socket s)"
  using ensure_socket_spec [OF assms] by simp

text \<open>
  C20. The results of a window are numbered without repetition: over any series of sends on a prepared
  sender, every result takes the next sequence number whether or not it can be sent, and the messages
  handed to the socket are exactly those of the successful calls, in order, each with the number of its
  result. A receiver sees every dropped result as a gap.
\<close>

theorem send_spectrum_sequence:
  assumes "ensure_socket thread this_ptr env (sender_init ip port server new_SpectrumSender) z = (True, s, z0)"
    and "\<forall>(env, h, data) \<in> set cs. length data \<le> UINT32_MAX - 103"
    and "send_all thread this_ptr cs s z0 = (rs, s', z')"
  shows "s_next_sequence s' = of_nat (length cs) \<and> length rs = length cs
    \<and> sent_messages z' = sent_messages z0 @
        map (\<lambda>k. (the (s_socket s), build_message server (of_nat k) ((fst (snd (cs ! k)))\<lparr>pkt_id := 0, total_pkt := 1\<rparr>) (snd (snd (cs ! k)))))
          (filter (\<lambda>k. rs ! k) [0..<length cs])"
proof -
  have s: "s_socket s \<noteq> None" "s_owner_thread s = thread" "s_next_sequence s = 0" "s_server_id s = server"
    using assms(1) unfolding ensure_socket_def Let_def
    by (auto simp: sender_init_def new_SpectrumSender_def split: if_splits option.splits prod.splits bool.splits)
  then obtain c where c: "s_socket s = Some c" by auto
  show ?thesis using send_all_ready [OF c s(2) assms(2,3)] by (simp add: message_of_def s c)
qed

text \<open>A library in which every call succeeds.\<close>

definition demo_zmq_env :: zmq_env where
  "demo_zmq_env = \<lparr>env_context = True, env_socket = Some 1, env_monitor = True, env_pair = Some 2, env_call = (\<lambda>_. True),
     env_poll = 1, env_pollout = True, env_alloc = True, env_sent = 127, env_error = ''''\<rparr>"

definition empty_zmq :: zmq where
  "empty_zmq = \<lparr>open_sockets = [], done_calls = [], sent_messages = []\<rparr>"

definition demo_sender :: SpectrumSender where
  "demo_sender = sender_init ''10.0.0.1'' 5000 3 new_SpectrumSender"

definition zero_header :: spectrum_header where
  "zero_header = \<lparr>magic = 0, version = 3, timestamp_ns = 0, obs_id = 0, integration_id = 0, subband_id = 0, window_id = 0,
     subband_start_freq = 0, subband_end_freq = 0, start_freq_hz = 0, channel_bw_hz = 0, n_channels = 0, stokes = 4,
     pkt_id = 0, total_pkt = 1, exposure = 0, noise_state = 0, cal_mode = 0, beam_id = 0, reserved2 = 0, ra = 0, dec = 0,
     flags = 0, integration_start_ns = 0\<rparr>"

lemma demo_prepared:
  "\<exists>s z0. ensure_socket 7 0 demo_zmq_env demo_sender empty_zmq = (True, s, z0) \<and> s_socket s = Some 1 \<and> s_owner_thread s = 7
     \<and> sent_messages z0 = []"
  by (simp add: ensure_socket_def demo_sender_def sender_init_def new_SpectrumSender_def demo_zmq_env_def socket_options_def
      empty_zmq_def zmq_socket_def Let_def)

theorem ensure_socket_owns_witness:
  "\<exists>s' z'. ensure_socket 7 0 (demo_zmq_env\<lparr>env_call := (\<lambda>k. k < 4)\<rparr>) demo_sender empty_zmq = (False, s', z')
     \<and> open_sockets z' = [] \<and> sender_ok s' [] z'"
proof -
  let ?e = "demo_zmq_env\<lparr>env_call := (\<lambda>k. k < 4)\<rparr>"
  obtain b s' z' where e: "ensure_socket 7 0 ?e demo_sender empty_zmq = (b, s', z')" by (metis surj_pair)
  then have b: "b = False"
    by (simp add: ensure_socket_def demo_sender_def sender_init_def new_SpectrumSender_def demo_zmq_env_def socket_options_def Let_def)
  have ok: "sender_ok demo_sender [] empty_zmq" "fresh_env ?e empty_zmq"
    by (simp_all add: sender_ok_def held_sockets_def demo_sender_def sender_init_def new_SpectrumSender_def empty_zmq_def
        fresh_env_def demo_zmq_env_def)
  show ?thesis using ensure_socket_owns [OF ok e] e b by (simp add: empty_zmq_def)
qed

theorem send_spectrum_sequence_witness:
  "\<exists>s z0 rs s' z'. ensure_socket 7 0 demo_zmq_env demo_sender empty_zmq = (True, s, z0)
     \<and> send_all 7 0 [(demo_zmq_env, zero_header, []), (demo_zmq_env\<lparr>env_poll := 0\<rparr>, zero_header, []), (demo_zmq_env, zero_header, [])] s z0
         = (rs, s', z')
     \<and> rs = [True, False, True] \<and> s_next_sequence s' = 3
     \<and> sent_messages z' = [(1, build_message 3 0 zero_header []), (1, build_message 3 2 zero_header [])]"
proof -
  let ?cs = "[(demo_zmq_env, zero_header, []), (demo_zmq_env\<lparr>env_poll := 0\<rparr>, zero_header, []), (demo_zmq_env, zero_header, [])]
    :: (zmq_env \<times> spectrum_header \<times> bytes) list"
  obtain s z0 where p: "ensure_socket 7 0 demo_zmq_env demo_sender empty_zmq = (True, s, z0)" "s_socket s = Some 1"
      "s_owner_thread s = 7" "sent_messages z0 = []"
    using demo_prepared by blast
  obtain rs s' z' where r: "send_all 7 0 ?cs s z0 = (rs, s', z')" by (metis surj_pair)
  then have rs: "rs = [True, False, True]" using p
    by (auto simp: send_spectrum_def wait_until_writable_def ensure_socket_def demo_zmq_env_def UINT32_MAX_def INT_MAX_def Let_def)
  have h: "zero_header\<lparr>pkt_id := 0, total_pkt := 1\<rparr> = zero_header" by (simp add: zero_header_def)
  have "\<forall>(env, h, data) \<in> set ?cs. length data \<le> UINT32_MAX - 103" by simp
  from send_spectrum_sequence [OF p(1) [unfolded demo_sender_def] this r]
  show ?thesis using p r by (simp add: rs h upt_rec)
qed

end
