(* ===== verification/Config_Reader.thy ===== *)
theory Config_Reader
  imports Baseband_Recorder Observation_Id Spectrum_Sender
begin

text \<open>
  Reading of the configuration file: \<^verbatim>\<open>parseObservationMode\<close> and \<^verbatim>\<open>initFromYaml\<close> of \<^verbatim>\<open>include/Globalcfg.hpp\<close>,
  section by section. A node of yaml-cpp is a value of \<open>yaml\<close>, an undefined node \<open>None\<close>; the
  conversions \<^verbatim>\<open>as<T>\<close> are an argument. The object is read into an updated configuration; an exception is an error
  value, and the outermost function turns it into \<^verbatim>\<open>false\<close>. Log messages are left out.
\<close>

section \<open>Nodes\<close>

datatype yaml = YNull | YScalar string | YSeq "yaml list" | YMap "(string \<times> yaml) list"

record yaml_conv =
  as_string :: "yaml \<Rightarrow> string option"
  as_int :: "yaml \<Rightarrow> int option"
  as_size :: "yaml \<Rightarrow> u64 option"
  as_bool :: "yaml \<Rightarrow> bool option"
  as_double :: "yaml \<Rightarrow> dbl option"

definition is_scalar :: "yaml \<Rightarrow> bool" where
  "is_scalar n = (case n of YScalar _ \<Rightarrow> True | _ \<Rightarrow> False)"

definition is_map :: "yaml \<Rightarrow> bool" where
  "is_map n = (case n of YMap _ \<Rightarrow> True | _ \<Rightarrow> False)"

text \<open>\<^verbatim>\<open>node[key]\<close>: undefined where the key is absent; a scalar has no members.\<close>

definition get :: "yaml \<Rightarrow> string \<Rightarrow> yaml option result" where
  "get n key =
     (case n of
        YMap kvs \<Rightarrow> Inr (map_of kvs key)
      | YScalar _ \<Rightarrow> Inl (Runtime_error ''operator[] call on a scalar'')
      | _ \<Rightarrow> Inr None)"

definition convert :: "(yaml \<Rightarrow> 'a option) \<Rightarrow> yaml option \<Rightarrow> 'a result" where
  "convert as n =
     (case n of
        None \<Rightarrow> Inl (Runtime_error ''invalid node'')
      | Some n \<Rightarrow> (case as n of None \<Rightarrow> Inl (Runtime_error ''bad conversion'') | Some x \<Rightarrow> Inr x))"

text \<open>\<open>if (node[key]) x = node[key].as<T>();\<close> with the value \<open>d\<close> that is kept when there is none.\<close>

definition optional :: "(yaml \<Rightarrow> 'a option) \<Rightarrow> yaml \<Rightarrow> string \<Rightarrow> 'a \<Rightarrow> 'a result" where
  "optional as n key d =
     bind_result (get n key) (\<lambda>m. case m of None \<Rightarrow> Inr d | Some v \<Rightarrow> convert as (Some v))"

definition required :: "(yaml \<Rightarrow> 'a option) \<Rightarrow> yaml \<Rightarrow> string \<Rightarrow> 'a result" where
  "required as n key = bind_result (get n key) (convert as)"

text \<open>A required scalar with its own message.\<close>

definition required_scalar :: "(yaml \<Rightarrow> 'a option) \<Rightarrow> yaml \<Rightarrow> string \<Rightarrow> string \<Rightarrow> 'a result" where
  "required_scalar as n key message =
     bind_result (get n key) (\<lambda>m.
       case m of
         None \<Rightarrow> Inl (Runtime_error message)
       | Some v \<Rightarrow> if is_scalar v then convert as (Some v) else Inl (Runtime_error message))"

definition check :: "bool \<Rightarrow> string \<Rightarrow> 'a result \<Rightarrow> 'a result" where
  "check ok message r = (if ok then r else Inl (Runtime_error message))"

section \<open>The sections of the file\<close>

definition parseObservationMode :: "yaml_conv \<Rightarrow> yaml \<Rightarrow> ObservationMode result" where
  "parseObservationMode cv n =
     bind_result (convert (as_int cv) (Some n)) (\<lambda>mode.
       if mode = 0 then Inr BASEBAND else if mode = 1 then Inr SPECTRAL else if mode = 2 then Inr CONTINUUM
       else Inl (Runtime_error (''Invalid observation_mode: '' @ int_text mode @ '' (valid values: 0, 1, 2)'')))"

definition read_identity :: "yaml_conv \<Rightarrow> yaml \<Rightarrow> GlobalConfig \<Rightarrow> GlobalConfig result" where
  "read_identity cv n cfg =
     bind_result (optional (as_bool cv) n ''Debug'' (cfg_Debug_mode cfg)) (\<lambda>debug.
     bind_result (required_scalar (as_int cv) n ''ServerID'' ''Configuration is missing ServerID'') (\<lambda>server.
     check (0 \<le> server \<and> server \<le> 7) ''ServerID must be between 0 and 7'' (
     let cfg = cfg\<lparr>cfg_Debug_mode := debug, cfg_ServerID := server, cfg_Observation_ID := '''', cfg_Observation_numeric_id := 0\<rparr> in
     bind_result (get n ''Observation_ID'') (\<lambda>m.
       case m of
         None \<Rightarrow> Inr cfg
       | Some YNull \<Rightarrow> Inr cfg
       | Some v \<Rightarrow>
           check (is_scalar v) ''Observation_ID must be a scalar'' (
           bind_result (convert (as_string cv) (Some v)) (\<lambda>obs.
             if obs = '''' then Inr cfg
             else check (observation_id_is_valid obs)
                    (''Observation_ID must contain 1-64 ASCII letters, digits, '.', '_' or '-' and must not be '.' or '..'' @ [CHR 0x27])
                    (Inr (cfg\<lparr>cfg_Observation_ID := obs, cfg_Observation_numeric_id := observation_id_numeric obs\<rparr>))))))))"

definition read_mode :: "yaml_conv \<Rightarrow> yaml \<Rightarrow> GlobalConfig \<Rightarrow> GlobalConfig result" where
  "read_mode cv n cfg =
     bind_result (get n ''observation_mode'') (\<lambda>m.
       case m of
         None \<Rightarrow> Inr cfg
       | Some v \<Rightarrow> bind_result (parseObservationMode cv v) (\<lambda>mode. Inr (cfg\<lparr>cfg_observation_mode := mode\<rparr>)))"

text \<open>
  Environment: the clock text of an automatic directory name (one per call) and which directories
  \<^verbatim>\<open>create_directories\<close> can make.
\<close>

record dir_env =
  de_stamp :: string
  de_mkdir :: "string \<Rightarrow> bool"

definition create_directories :: "dir_env \<Rightarrow> string \<Rightarrow> 'a result \<Rightarrow> 'a result" where
  "create_directories env path r = (if de_mkdir env path then r else Inl (Runtime_error ''filesystem error: cannot create directories''))"

text \<open>A scan key at the top level, or the old nested one.\<close>

definition scan_key :: "(yaml \<Rightarrow> 'a option) \<Rightarrow> yaml \<Rightarrow> yaml \<Rightarrow> string \<Rightarrow> 'a \<Rightarrow> 'a result" where
  "scan_key as n loc key d =
     bind_result (get n key) (\<lambda>m. case m of Some v \<Rightarrow> convert as (Some v) | None \<Rightarrow> optional as loc key d)"

definition read_local_sdfits :: "yaml_conv \<Rightarrow> dir_env \<Rightarrow> yaml \<Rightarrow> GlobalConfig \<Rightarrow> GlobalConfig result" where
  "read_local_sdfits cv env n cfg =
     bind_result (get n ''local_sdfits'') (\<lambda>m.
       case m of
         None \<Rightarrow> Inr cfg
       | Some loc \<Rightarrow>
           check (is_map loc) ''local_sdfits must be a mapping'' (
           bind_result (optional (as_bool cv) loc ''enabled'' (cfg_local_sdfits_enabled cfg)) (\<lambda>enabled.
             let cfg = cfg\<lparr>cfg_local_sdfits_enabled := enabled\<rparr> in
             if \<not> enabled then Inr cfg
             else
               check (cfg_observation_mode cfg = SPECTRAL) ''local_sdfits is supported only in spectral-line mode'' (
               bind_result (get loc ''storage_folder'') (\<lambda>f.
               bind_result (case f of
                     None \<Rightarrow> Inr ''/data''
                   | Some v \<Rightarrow> check (is_scalar v) ''local_sdfits.storage_folder must be a scalar'' (convert (as_string cv) (Some v))) (\<lambda>folder.
               check (folder \<noteq> '''') ''local_sdfits.storage_folder must not be empty'' (
               bind_result (scan_key (as_string cv) n loc ''object'' (cfg_object cfg)) (\<lambda>obj.
               bind_result (scan_key (as_bool cv) n loc ''source_on'' (cfg_source_on cfg)) (\<lambda>src.
               bind_result (optional (as_size cv) loc ''queue_mb'' 2048) (\<lambda>queue_mb.
               check (queue_mb \<noteq> 0 \<and> queue_mb \<le> 16384) ''local_sdfits.queue_mb must be between 1 and 16384'' (
               let directory = (if cfg_Observation_ID cfg = ''''
                      then automatic_observation_directory_id (de_stamp env) obj (if src then ''ON'' else ''OFF'')
                      else cfg_Observation_ID cfg);
                   path = path_join folder directory
               in create_directories env path
                    (Inr (cfg\<lparr>cfg_object := obj, cfg_source_on := src, cfg_local_sdfits_queue_bytes := queue_mb * 1024 * 1024,
                              cfg_local_sdfits_folder := path\<rparr>)))))))))))))"

definition read_storage :: "yaml_conv \<Rightarrow> yaml \<Rightarrow> GlobalConfig \<Rightarrow> GlobalConfig result" where
  "read_storage cv n cfg =
     bind_result (optional (as_size cv) n ''Memory_pool_per_stream'' (cfg_Memory_pool_per_stream cfg)) (\<lambda>mem.
     bind_result (get n ''Storage_node_ip'') (\<lambda>m.
     bind_result (case m of
           Some v \<Rightarrow> if is_scalar v then convert (as_string cv) (Some v) else Inr ''127.0.0.1''
         | None \<Rightarrow> Inr ''127.0.0.1'') (\<lambda>ip.
       Inr (cfg\<lparr>cfg_Memory_pool_per_stream := mem, cfg_Storage_node_ip := ip\<rparr>))))"

definition read_baseband :: "yaml_conv \<Rightarrow> dir_env \<Rightarrow> yaml \<Rightarrow> GlobalConfig \<Rightarrow> GlobalConfig result" where
  "read_baseband cv env n cfg =
     (if cfg_observation_mode cfg \<noteq> BASEBAND then Inr cfg
      else
        bind_result (required_scalar (as_string cv) n ''Baseband_Folder0'' ''Configuration is missing Baseband_Folder0'') (\<lambda>f0.
        bind_result (required_scalar (as_string cv) n ''Baseband_Folder1'' ''Configuration is missing Baseband_Folder1'') (\<lambda>f1.
        bind_result (required_scalar (as_int cv) n ''Baseband_bits'' ''Configuration is missing Baseband_bits'') (\<lambda>bits.
        check (bits = 8 \<or> bits = 4 \<or> bits = 2) ''Baseband_bits must be one of 8, 4, or 2'' (
        let directory = (if cfg_Observation_ID cfg = ''''
               then automatic_observation_directory_id (de_stamp env) '''' '''' else cfg_Observation_ID cfg);
            p0 = path_join f0 directory; p1 = path_join f1 directory
        in create_directories env p0 (create_directories env p1
             (Inr (cfg\<lparr>cfg_Baseband_folder0 := p0, cfg_Baseband_folder1 := p1, cfg_Baseband_bits := bits\<rparr>))))))))"

definition read_window_size :: "fpu \<Rightarrow> yaml_conv \<Rightarrow> yaml \<Rightarrow> GlobalConfig \<Rightarrow> GlobalConfig result" where
  "read_window_size fp cv n cfg =
     bind_result (optional (as_bool cv) n ''subband_monitor'' (cfg_subband_monitor cfg)) (\<lambda>mon.
     bind_result (optional (as_double cv) n ''win_bw'' (cfg_win_bw cfg)) (\<lambda>bw.
     check (isfinite bw \<and> \<not> dbl_le bw (Fin 0)) ''win_bw must be finite and > 0'' (
     bind_result (optional (as_int cv) n ''win_channels'' (cfg_win_channels cfg)) (\<lambda>ch.
     check (ch > 0) ''win_channels must be > 0'' (
     let requested = dbl_mul (fl fp) (dbl_div (fl fp) (Fin (of_int sampling_rate)) bw) (Fin (of_int ch)) in
     check (isfinite requested \<and> \<not> dbl_less requested (Fin 1) \<and> \<not> dbl_less (Fin (of_int Max_nfft)) requested)
       ''Calculated FFT length is out of range''
       (Inr (cfg\<lparr>cfg_subband_monitor := mon, cfg_win_bw := bw, cfg_win_channels := ch,
                 cfg_total_nfft := llround (real_of_dbl requested)\<rparr>)))))))"

definition read_noise :: "yaml_conv \<Rightarrow> yaml \<Rightarrow> GlobalConfig \<Rightarrow> GlobalConfig result" where
  "read_noise cv n cfg =
     bind_result (optional (as_double cv) n ''integration_t'' (cfg_integration_t cfg)) (\<lambda>t.
     bind_result (optional (as_bool cv) n ''cal_mode'' (cfg_cal_mode cfg)) (\<lambda>cal.
     bind_result (get n ''noise_source'') (\<lambda>m.
     bind_result (case m of
           None \<Rightarrow> Inr (cfg_noise_source cfg)
         | Some ns \<Rightarrow>
             bind_result (optional (as_double cv) ns ''period_ms'' (period_ms (cfg_noise_source cfg))) (\<lambda>p.
             bind_result (optional (as_double cv) ns ''duty_cycle'' (duty_cycle (cfg_noise_source cfg))) (\<lambda>d.
             bind_result (optional (as_double cv) ns ''transition_blank_ms'' (transition_blank_ms (cfg_noise_source cfg))) (\<lambda>b.
               Inr \<lparr>period_ms = p, duty_cycle = d, transition_blank_ms = b\<rparr>)))) (\<lambda>noise.
     check (\<not> dbl_le (period_ms noise) (Fin 0)) ''noise_source.period_ms must be > 0'' (
     check (\<not> dbl_le (duty_cycle noise) (Fin 0) \<and> \<not> dbl_le (Fin 100) (duty_cycle noise))
       ''noise_source.duty_cycle must be between 0 and 100'' (
     check (\<not> dbl_less (transition_blank_ms noise) (Fin 0)) ''noise_source.transition_blank_ms must be >= 0''
       (Inr (cfg\<lparr>cfg_integration_t := t, cfg_cal_mode := cal, cfg_noise_source := noise\<rparr>))))))))"

section \<open>Subbands\<close>

text \<open>The members of \<^verbatim>\<open>spectrum_header\<close> after value initialisation.\<close>

definition new_spectrum_header :: spectrum_header where
  "new_spectrum_header = \<lparr>magic = 0x534C5231, version = 3, timestamp_ns = 0, obs_id = 0, integration_id = 0, subband_id = 0,
     window_id = 0, subband_start_freq = 0, subband_end_freq = 0, start_freq_hz = 0, channel_bw_hz = 0, n_channels = 0,
     stokes = 0, pkt_id = 0, total_pkt = 0, exposure = 0, noise_state = 0, cal_mode = 0, beam_id = 0, reserved2 = 0,
     ra = 0, dec = 0, flags = 0, integration_start_ns = 0\<rparr>"

definition read_window :: "fpu \<Rightarrow> yaml_conv \<Rightarrow> GlobalConfig \<Rightarrow> SubbandConfig \<Rightarrow> nat \<Rightarrow> yaml \<Rightarrow> WindowConfig result" where
  "read_window fp cv cfg sb win_id n =
     bind_result (required (as_double cv) n ''center_freq'') (\<lambda>center.
     check (isfinite center) ''Window center frequency must be finite'' (
     let half = dbl_div (fl fp) (cfg_win_bw cfg) (Fin 2);
         req_start = dbl_sub (fl fp) center half; req_end = dbl_add (fl fp) center half in
     check (\<not> dbl_less req_start (sb_start_freq sb)) ''Window start fre < subband start fre!'' (
     check (\<not> dbl_less (sb_end_freq sb) req_end) ''Window end freq > subband end freq!'' (
     let ch_bw = dbl_div (fl fp) (Fin (of_int sampling_rate)) (Fin (of_int (cfg_total_nfft cfg)));
         start = llround (real_of_dbl (dbl_div (fl fp) (dbl_sub (fl fp) req_start (sb_start_freq sb)) ch_bw)) in
     check (0 \<le> start \<and> start + cfg_win_channels cfg \<le> cfg_total_nfft cfg) ''FFT-bin-aligned window exceeds subband bounds'' (
     let start_freq = dbl_add (fl fp) (sb_start_freq sb) (dbl_mul (fl fp) (Fin (of_int start)) ch_bw);
         bw = dbl_mul (fl fp) (Fin (of_int (cfg_win_channels cfg))) ch_bw;
         h = new_spectrum_header\<lparr>exposure := bits32 fp (integration_time fp cfg), obs_id := cfg_Observation_numeric_id cfg,
               channel_bw_hz := bits64 fp ch_bw, subband_start_freq := bits64 fp (sb_start_freq sb),
               subband_end_freq := bits64 fp (sb_end_freq sb), beam_id := (case sb_beam sb of Beam_A \<Rightarrow> 0 | Beam_B \<Rightarrow> 1),
               subband_id := of_int (cfg_ServerID cfg * 4 + int (unat (sb_subband_id sb) div 2)),
               start_freq_hz := bits64 fp start_freq, n_channels := of_int (cfg_win_channels cfg), stokes := 4,
               cal_mode := (if cfg_cal_mode cfg then 1 else 0), window_id := of_nat win_id\<rparr>
     in Inr \<lparr>w_start_freq = start_freq, w_end_freq = dbl_add (fl fp) start_freq bw, w_start_idx = nat start,
              w_center_freq = center, w_BW = bw,
              w_endpoint = s_endpoint (sender_init (cfg_Storage_node_ip cfg) (of_int (sb_port sb)) (of_int (cfg_ServerID cfg)) new_SpectrumSender),
              w_server_id = of_int (cfg_ServerID cfg), w_header = h, w_port = sb_port sb\<rparr>)))))"

fun read_windows :: "fpu \<Rightarrow> yaml_conv \<Rightarrow> GlobalConfig \<Rightarrow> SubbandConfig \<Rightarrow> nat \<Rightarrow> yaml list \<Rightarrow> WindowConfig list result" where
  "read_windows fp cv cfg sb win_id [] = Inr []"
| "read_windows fp cv cfg sb win_id (n # ns) =
     bind_result (read_window fp cv cfg sb win_id n) (\<lambda>w.
     bind_result (read_windows fp cv cfg sb (win_id + 1) ns) (\<lambda>ws. Inr (w # ws)))"

definition read_beam :: "yaml_conv \<Rightarrow> yaml \<Rightarrow> BeamId result" where
  "read_beam cv n =
     bind_result (get n ''beam'') (\<lambda>m.
       case m of
         None \<Rightarrow> Inl (Runtime_error ''Every subband entry must specify beam A or B'')
       | Some v \<Rightarrow>
           check (is_scalar v) ''Subband beam must be a scalar A or B'' (
           bind_result (convert (as_string cv) (Some v)) (\<lambda>beam.
             if beam = ''A'' then Inr Beam_A else if beam = ''B'' then Inr Beam_B
             else Inl (Runtime_error ''Subband beam must be A or B''))))"

text \<open>Members that a disabled subband leaves at their initial zero.\<close>

definition read_subband :: "fpu \<Rightarrow> yaml_conv \<Rightarrow> GlobalConfig \<Rightarrow> nat \<Rightarrow> yaml \<Rightarrow> SubbandConfig result" where
  "read_subband fp cv cfg sb_id n =
     bind_result (required (as_bool cv) n ''enable'') (\<lambda>enable.
     bind_result (read_beam cv n) (\<lambda>beam.
     let sb = \<lparr>sb_subband_id = of_nat sb_id, sb_enable = enable, sb_beam = beam, sb_gpu_id = 0, sb_start_freq = Fin 0,
               sb_end_freq = Fin 0, sb_port = 0, sb_windows = []\<rparr> in
     if \<not> enable then Inr sb
     else
       bind_result (required (as_int cv) n ''gpu_id'') (\<lambda>gpu.
       bind_result (required (as_double cv) n ''start_freq'') (\<lambda>start_freq.
       bind_result (required (as_double cv) n ''end_freq'') (\<lambda>end_freq.
       bind_result (required (as_int cv) n ''port'') (\<lambda>port.
       check (0 < port \<and> port \<le> 65535) ''Subband result destination port must be between 1 and 65535'' (
       check (isfinite start_freq \<and> isfinite end_freq \<and> \<not> dbl_le end_freq start_freq) ''Invalid subband frequency range'' (
       let bw = dbl_sub (fl fp) end_freq start_freq in
       check (\<not> dbl_less (Fin (1 / 2)) (dbl_abs (dbl_sub (fl fp) bw (Fin (of_int sampling_rate)))))
         ''Subband bandwidth must equal the 256 MHz sampling rate'' (
       bind_result (get n ''windows'') (\<lambda>m.
         case m of
           Some (YSeq ns) \<Rightarrow>
             check (length ns \<noteq> 0 \<and> length ns \<le> 4) ''Each enabled subband requires between 1 and 4 windows'' (
             let sb = sb\<lparr>sb_gpu_id := gpu, sb_start_freq := start_freq, sb_end_freq := end_freq, sb_port := port\<rparr> in
             bind_result (read_windows fp cv cfg sb 0 ns) (\<lambda>ws. Inr (sb\<lparr>sb_windows := ws\<rparr>)))
         | _ \<Rightarrow> Inl (Runtime_error ''Each enabled subband requires between 1 and 4 windows'')))))))))))"

fun read_subbands :: "fpu \<Rightarrow> yaml_conv \<Rightarrow> GlobalConfig \<Rightarrow> nat \<Rightarrow> yaml list \<Rightarrow> SubbandConfig list result" where
  "read_subbands fp cv cfg sb_id [] = Inr []"
| "read_subbands fp cv cfg sb_id (n # ns) =
     bind_result (read_subband fp cv cfg sb_id n) (\<lambda>sb.
     bind_result (read_subbands fp cv cfg (sb_id + 1) ns) (\<lambda>sbs. Inr (sb # sbs)))"

section \<open>Pairs of beams\<close>

definition far_apart :: "fpu \<Rightarrow> dbl \<Rightarrow> dbl \<Rightarrow> bool" where
  "far_apart fp x y \<longleftrightarrow> dbl_less (Fin (1 / 2)) (dbl_abs (dbl_sub (fl fp) x y))"

definition check_pair :: "fpu \<Rightarrow> SubbandConfig \<Rightarrow> SubbandConfig \<Rightarrow> unit result" where
  "check_pair fp a b =
     check (sb_beam a = Beam_A \<and> sb_beam b = Beam_B) ''Subband entries must be ordered as A/B pairs'' (
     check (sb_enable a = sb_enable b) ''Both beams in a physical subband must have the same enable state'' (
     if \<not> sb_enable a then Inr ()
     else
       check (\<not> far_apart fp (sb_start_freq a) (sb_start_freq b) \<and> \<not> far_apart fp (sb_end_freq a) (sb_end_freq b))
         ''A/B entries in a physical subband must have the same frequency range'' (
       check (length (sb_windows a) = length (sb_windows b)) ''A/B entries in a physical subband must have the same windows'' (
       check (\<forall>(v, w) \<in> set (zip (sb_windows a) (sb_windows b)).
                \<not> far_apart fp (w_start_freq v) (w_start_freq w) \<and> \<not> far_apart fp (w_end_freq v) (w_end_freq w))
         ''A/B entries in a physical subband must have matching window frequencies'' (Inr ())))))"

fun check_pairs :: "fpu \<Rightarrow> SubbandConfig list \<Rightarrow> unit result" where
  "check_pairs fp (a # b # sbs) = bind_result (check_pair fp a b) (\<lambda>_. check_pairs fp sbs)"
| "check_pairs fp _ = Inr ()"

section \<open>The whole file\<close>

text \<open>The \<^verbatim>\<open>try\<close> block, for the root node of the file; \<^verbatim>\<open>sdfits_metadata\<close> is kept as a node.\<close>

definition read_config :: "fpu \<Rightarrow> yaml_conv \<Rightarrow> dir_env \<Rightarrow> yaml \<Rightarrow> GlobalConfig \<Rightarrow> (GlobalConfig \<times> yaml option) result" where
  "read_config fp cv env n cfg =
     bind_result (get n ''sdfits_metadata'') (\<lambda>meta.
     bind_result (read_identity cv n cfg) (\<lambda>cfg.
     bind_result (read_mode cv n cfg) (\<lambda>cfg.
     bind_result (read_local_sdfits cv env n cfg) (\<lambda>cfg.
     bind_result (read_storage cv n cfg) (\<lambda>cfg.
     bind_result (read_baseband cv env n cfg) (\<lambda>cfg.
     bind_result (read_window_size fp cv n cfg) (\<lambda>cfg.
     bind_result (read_noise cv n cfg) (\<lambda>cfg.
     bind_result (get n ''subbands'') (\<lambda>m.
       case m of
         Some (YSeq ns) \<Rightarrow>
           bind_result (read_subbands fp cv cfg 0 ns) (\<lambda>sbs.
           let cfg = cfg\<lparr>cfg_subbands := cfg_subbands cfg @ sbs\<rparr> in
           check (length (cfg_subbands cfg) = 8) ''Exactly 8 subband/beam entries are required per server'' (
           bind_result (check_pairs fp (cfg_subbands cfg)) (\<lambda>_. Inr (cfg, meta))))
       | _ \<Rightarrow> Inl (Runtime_error ''Configuration is missing subbands''))))))))))"

text \<open>\<open>None\<close> for a file that cannot be loaded. The result is the configuration when \<^verbatim>\<open>true\<close> is returned.\<close>

definition initFromYaml :: "fpu \<Rightarrow> yaml_conv \<Rightarrow> dir_env \<Rightarrow> yaml option \<Rightarrow> GlobalConfig \<Rightarrow> (GlobalConfig \<times> yaml option) option" where
  "initFromYaml fp cv env file cfg =
     (case file of
        None \<Rightarrow> None
      | Some n \<Rightarrow>
          (case read_config fp cv env n cfg of
             Inl _ \<Rightarrow> None
           | Inr (cfg, meta) \<Rightarrow> if checkConfig cfg then Some (cfg, meta) else None))"


section \<open>What a section leaves behind\<close>

lemma check_Inr_iff: "check ok m r = Inr x \<longleftrightarrow> ok \<and> r = Inr x"
  by (simp add: check_def)

lemma create_directories_Inr_iff: "create_directories env p r = Inr x \<longleftrightarrow> de_mkdir env p \<and> r = Inr x"
  by (simp add: create_directories_def)

lemma option_case_Inr_iff:
  "(case m of None \<Rightarrow> r | Some v \<Rightarrow> f v) = Inr x \<longleftrightarrow> m = None \<and> r = Inr x \<or> (\<exists>v. m = Some v \<and> f v = Inr x)"
  by (cases m) simp_all

lemma seq_case_Inr_iff:
  "(case m of Some (YSeq ns) \<Rightarrow> f ns | _ \<Rightarrow> Inl e) = Inr x \<longleftrightarrow> (\<exists>ns. m = Some (YSeq ns) \<and> f ns = Inr x)"
  by (cases m; cases "the m") simp_all

lemma if_Inr_iff: "(if b then r else r') = Inr x \<longleftrightarrow> b \<and> r = Inr x \<or> \<not> b \<and> r' = Inr x"
  by simp

lemmas reader_iff = bind_result_Inr_iff check_Inr_iff create_directories_Inr_iff Let_def

text \<open>A window read for a subband.\<close>

definition window_ok :: "GlobalConfig \<Rightarrow> SubbandConfig \<Rightarrow> nat \<Rightarrow> WindowConfig \<Rightarrow> bool" where
  "window_ok cfg sb k w \<longleftrightarrow>
     int (w_start_idx w) + cfg_win_channels cfg \<le> cfg_total_nfft cfg
     \<and> n_channels (w_header w) = of_int (cfg_win_channels cfg) \<and> window_id (w_header w) = of_nat k
     \<and> subband_id (w_header w) = of_int (cfg_ServerID cfg * 4 + int (unat (sb_subband_id sb) div 2))
     \<and> beam_id (w_header w) = (case sb_beam sb of Beam_A \<Rightarrow> 0 | Beam_B \<Rightarrow> 1) \<and> w_port w = sb_port sb"

lemma read_window_ok: "read_window fp cv cfg sb k n = Inr w \<Longrightarrow> window_ok cfg sb k w"
  unfolding read_window_def reader_iff by (auto simp: window_ok_def)

lemma read_windows_ok:
  "read_windows fp cv cfg sb k ns = Inr ws \<Longrightarrow> length ws = length ns \<and> (\<forall>j < length ws. window_ok cfg sb (k + j) (ws ! j))"
proof (induction ns arbitrary: k ws)
  case (Cons n ns)
  then obtain w ws' where w: "ws = w # ws'" "read_window fp cv cfg sb k n = Inr w" "read_windows fp cv cfg sb (k + 1) ns = Inr ws'"
    by (auto simp: reader_iff)
  have "length ws' = length ns" "\<forall>j < length ws'. window_ok cfg sb (k + Suc j) (ws' ! j)" using Cons.IH [OF w(3)] by simp_all
  then show ?case using read_window_ok [OF w(2)] by (auto simp: w(1) nth_Cons split: nat.splits)
qed simp

definition subband_ok :: "GlobalConfig \<Rightarrow> nat \<Rightarrow> SubbandConfig \<Rightarrow> bool" where
  "subband_ok cfg k sb \<longleftrightarrow> sb_subband_id sb = of_nat k
     \<and> (if sb_enable sb then 0 < sb_port sb \<and> sb_port sb \<le> 65535 \<and> sb_windows sb \<noteq> [] \<and> length (sb_windows sb) \<le> 4
          \<and> (\<forall>j < length (sb_windows sb). window_ok cfg sb j (sb_windows sb ! j))
        else sb_windows sb = [])"

lemma window_ok_cong:
  assumes "sb_subband_id sb' = sb_subband_id sb" "sb_beam sb' = sb_beam sb" "sb_port sb' = sb_port sb"
  shows "window_ok cfg sb' k w = window_ok cfg sb k w"
  using assms by (simp add: window_ok_def)

lemma read_subband_ok: 
  assumes "read_subband fp cv cfg k n = Inr sb"
  shows "subband_ok cfg k sb"
proof -
  obtain enable beam where s: "required (as_bool cv) n ''enable'' = Inr enable" "read_beam cv n = Inr beam"
    using assms unfolding read_subband_def bind_result_Inr_iff by blast
  show ?thesis
  proof (cases enable)
    case False
    then show ?thesis using assms s by (auto simp: read_subband_def subband_ok_def)
  next
    case True
    let ?sb = "\<lambda>gpu f g port. \<lparr>sb_subband_id = of_nat k, sb_enable = True, sb_beam = beam, sb_gpu_id = gpu, sb_start_freq = f,
      sb_end_freq = g, sb_port = port, sb_windows = []\<rparr> :: SubbandConfig"
    obtain gpu f g port ns ws where r: "0 < port" "port \<le> 65535" "ns \<noteq> []" "length ns \<le> 4"
        "read_windows fp cv cfg (?sb gpu f g port) 0 ns = Inr ws" "sb = (?sb gpu f g port)\<lparr>sb_windows := ws\<rparr>"
      using assms s True unfolding read_subband_def by (auto simp: reader_iff seq_case_Inr_iff)
    have "window_ok cfg sb j w = window_ok cfg (?sb gpu f g port) j w" for j w
      by (rule window_ok_cong) (simp_all add: r(6))
    moreover have "length ws = length ns" "\<forall>j < length ws. window_ok cfg (?sb gpu f g port) j (ws ! j)"
      using read_windows_ok [OF r(5)] by simp_all
    moreover have "ws \<noteq> []" using r(3) calculation(2) by auto
    moreover have "sb_windows sb = ws" "sb_enable sb" "sb_port sb = port" "sb_subband_id sb = of_nat k" by (simp_all add: r(6))
    ultimately show ?thesis using r(1-4) by (simp add: subband_ok_def)
  qed
qed

lemma read_subbands_ok:
  "read_subbands fp cv cfg k ns = Inr sbs \<Longrightarrow> \<forall>j < length sbs. subband_ok cfg (k + j) (sbs ! j)"
proof (induction ns arbitrary: k sbs)
  case (Cons n ns)
  then obtain sb sbs' where s: "sbs = sb # sbs'" "read_subband fp cv cfg k n = Inr sb" "read_subbands fp cv cfg (k + 1) ns = Inr sbs'"
    by (auto simp: reader_iff)
  have "\<forall>j < length sbs'. subband_ok cfg (k + Suc j) (sbs' ! j)" using Cons.IH [OF s(3)] by simp
  then show ?case using read_subband_ok [OF s(2)] by (auto simp: s(1) nth_Cons split: nat.splits)
qed simp

text \<open>
  What holds of the value of a reader when it has one: a rule for each way of putting readers together.
\<close>

definition gives :: "'a result \<Rightarrow> ('a \<Rightarrow> bool) \<Rightarrow> bool" where
  "gives r P \<longleftrightarrow> (\<forall>x. r = Inr x \<longrightarrow> P x)"

lemma givesD: "gives r P \<Longrightarrow> r = Inr x \<Longrightarrow> P x"
  by (simp add: gives_def)

lemma gives_bind: "(\<And>x. m = Inr x \<Longrightarrow> gives (f x) P) \<Longrightarrow> gives (bind_result m f) P"
  by (auto simp: gives_def bind_result_Inr_iff)

lemma gives_check: "(ok \<Longrightarrow> gives r P) \<Longrightarrow> gives (check ok m r) P"
  by (simp add: gives_def check_Inr_iff)

lemma gives_mkdir: "gives r P \<Longrightarrow> gives (create_directories env p r) P"
  by (simp add: gives_def create_directories_Inr_iff)

lemma gives_if: "(b \<Longrightarrow> gives r P) \<Longrightarrow> (\<not> b \<Longrightarrow> gives r' P) \<Longrightarrow> gives (if b then r else r') P"
  by simp

lemma gives_option: "(\<And>v. m = Some v \<Longrightarrow> gives (f v) P) \<Longrightarrow> (m = None \<Longrightarrow> gives r P) \<Longrightarrow> gives (case m of None \<Rightarrow> r | Some v \<Rightarrow> f v) P"
  by (cases m) simp_all

lemma gives_yaml:
  "(m = YNull \<Longrightarrow> gives r P) \<Longrightarrow> (\<And>v. gives (f v) P) \<Longrightarrow> gives (case m of YNull \<Rightarrow> r | YScalar x \<Rightarrow> f (YScalar x) | YSeq x \<Rightarrow> f (YSeq x) | YMap x \<Rightarrow> f (YMap x)) P"
  by (cases m) simp_all

lemma gives_Inr: "P x \<Longrightarrow> gives (Inr x) P"
  by (simp add: gives_def)

lemma gives_Inl: "gives (Inl e) P"
  by (simp add: gives_def)

lemmas gives_intros = gives_Inl gives_check gives_mkdir gives_if gives_yaml gives_option gives_bind gives_Inr

text \<open>The sections that come before the subbands and what they check.\<close>

definition same_layout :: "GlobalConfig \<Rightarrow> GlobalConfig \<Rightarrow> bool" where
  "same_layout cfg cfg' \<longleftrightarrow> cfg_ServerID cfg' = cfg_ServerID cfg \<and> cfg_subbands cfg' = cfg_subbands cfg"

lemma same_layout_trans: "same_layout a b \<Longrightarrow> same_layout b c \<Longrightarrow> same_layout a c"
  by (simp add: same_layout_def)

lemma read_identity_ok:
  "gives (read_identity cv n cfg) (\<lambda>c. 0 \<le> cfg_ServerID c \<and> cfg_ServerID c \<le> 7 \<and> cfg_subbands c = cfg_subbands cfg)"
  unfolding read_identity_def Let_def by (intro gives_intros) (simp_all add: gives_def check_Inr_iff bind_result_Inr_iff)

lemma read_mode_keep: "gives (read_mode cv n cfg) (same_layout cfg)"
  unfolding read_mode_def by (intro gives_intros) (simp_all add: same_layout_def)

lemma read_storage_keep: "gives (read_storage cv n cfg) (same_layout cfg)"
  unfolding read_storage_def by (intro gives_bind gives_Inr) (simp add: same_layout_def)

lemma read_baseband_keep: "gives (read_baseband cv env n cfg) (same_layout cfg)"
  unfolding read_baseband_def Let_def by (intro gives_intros) (simp_all add: same_layout_def)

lemma read_local_sdfits_keep: "gives (read_local_sdfits cv env n cfg) (same_layout cfg)"
  unfolding read_local_sdfits_def Let_def
  apply (rule gives_bind)
  apply (rule gives_option)
  apply (rule gives_check)
  apply (rule gives_bind)
  apply (rule gives_if)
  apply (rule gives_Inr)
  apply (simp add: same_layout_def)
   apply (rule gives_check gives_bind gives_mkdir)+
  by (rule gives_Inr, simp add: same_layout_def)+

lemma read_window_size_ok:
  "gives (read_window_size fp cv n cfg)
     (\<lambda>c. same_layout cfg c \<and> 0 < cfg_win_channels c \<and> cfg_total_nfft c \<le> Max_nfft)"
proof -
  have le: "llround (real_of_dbl q) \<le> Max_nfft" if "isfinite q" "\<not> dbl_less (Fin (of_int Max_nfft)) q" for q
  proof -
    have "real_of_dbl q \<le> of_int Max_nfft" using that by (cases q) simp_all
    then show ?thesis using llround_mono [of "real_of_dbl q" "of_int Max_nfft"] by simp
  qed
  show ?thesis unfolding read_window_size_def Let_def
    by (intro gives_bind gives_check gives_Inr) (simp add: same_layout_def le)
qed

lemma read_noise_keep:
  "gives (read_noise cv n cfg) (\<lambda>c. same_layout cfg c \<and> cfg_win_channels c = cfg_win_channels cfg \<and> cfg_total_nfft c = cfg_total_nfft cfg)"
  unfolding read_noise_def by (intro gives_bind gives_check gives_Inr) (simp add: same_layout_def)


lemma check_pairs_nth:
  "check_pairs fp sbs = Inr () \<Longrightarrow> 2 * k + 1 < length sbs \<Longrightarrow> check_pair fp (sbs ! (2 * k)) (sbs ! (2 * k + 1)) = Inr ()"
proof (induction fp sbs arbitrary: k rule: check_pairs.induct)
  case (1 fp a b sbs)
  then show ?case by (cases k) (auto simp: bind_result_Inr_iff)
qed simp_all

text \<open>The layout a configuration has once the file was accepted.\<close>

definition pair_ok :: "SubbandConfig \<Rightarrow> SubbandConfig \<Rightarrow> bool" where
  "pair_ok a b \<longleftrightarrow> sb_beam a = Beam_A \<and> sb_beam b = Beam_B \<and> sb_enable a = sb_enable b
     \<and> length (sb_windows a) = length (sb_windows b)"

lemma check_pair_ok: "check_pair fp a b = Inr () \<Longrightarrow> subband_ok cfg j a \<Longrightarrow> subband_ok cfg k b \<Longrightarrow> pair_ok a b"
  by (auto simp: check_pair_def check_Inr_iff pair_ok_def subband_ok_def split: if_splits)

definition layout_ok :: "GlobalConfig \<Rightarrow> bool" where
  "layout_ok cfg \<longleftrightarrow> 0 \<le> cfg_ServerID cfg \<and> cfg_ServerID cfg \<le> 7 \<and> 0 < cfg_win_channels cfg
     \<and> cfg_total_nfft cfg \<le> Max_nfft \<and> length (cfg_subbands cfg) = 8
     \<and> (\<forall>k < 8. subband_ok cfg k (cfg_subbands cfg ! k))
     \<and> (\<forall>k < 4. pair_ok (cfg_subbands cfg ! (2 * k)) (cfg_subbands cfg ! (2 * k + 1)))"

lemma subband_ok_cong:
  assumes "cfg_win_channels cfg' = cfg_win_channels cfg" "cfg_total_nfft cfg' = cfg_total_nfft cfg" "cfg_ServerID cfg' = cfg_ServerID cfg"
  shows "subband_ok cfg' k sb = subband_ok cfg k sb"
  using assms by (simp add: subband_ok_def window_ok_def)

lemma read_config_ok:
  assumes "read_config fp cv env n cfg0 = Inr (cfg, meta)" and "cfg_subbands cfg0 = []"
  shows "layout_ok cfg"
proof -
  obtain c1 c2 c3 c4 c5 c6 c7 m ns sbs where r:
      "read_identity cv n cfg0 = Inr c1" "read_mode cv n c1 = Inr c2" "read_local_sdfits cv env n c2 = Inr c3"
      "read_storage cv n c3 = Inr c4" "read_baseband cv env n c4 = Inr c5" "read_window_size fp cv n c5 = Inr c6"
      "read_noise cv n c6 = Inr c7" and s: "read_subbands fp cv c7 0 ns = Inr sbs"
      and l: "length (cfg_subbands c7 @ sbs) = 8" and p: "check_pairs fp (cfg_subbands c7 @ sbs) = Inr ()"
      and c: "cfg = c7\<lparr>cfg_subbands := cfg_subbands c7 @ sbs\<rparr>"
    using assms(1) unfolding read_config_def reader_iff seq_case_Inr_iff by (elim exE conjE) auto
  note id = givesD [OF read_identity_ok r(1)]
  have "same_layout c1 c5"
    by (blast intro: same_layout_trans givesD [OF read_mode_keep r(2)] givesD [OF read_local_sdfits_keep r(3)]
        givesD [OF read_storage_keep r(4)] givesD [OF read_baseband_keep r(5)])
  moreover note ws = givesD [OF read_window_size_ok r(6)] givesD [OF read_noise_keep r(7)]
  ultimately have keep: "same_layout c1 c7" by (blast intro: same_layout_trans)
  have e: "cfg_subbands c7 = []" and srv: "0 \<le> cfg_ServerID c7 \<and> cfg_ServerID c7 \<le> 7"
    using keep id assms(2) by (simp_all add: same_layout_def)
  have sz: "0 < cfg_win_channels c7 \<and> cfg_total_nfft c7 \<le> Max_nfft" using ws by simp
  have proj: "cfg_subbands cfg = sbs" "cfg_win_channels cfg = cfg_win_channels c7" "cfg_total_nfft cfg = cfg_total_nfft c7"
    "cfg_ServerID cfg = cfg_ServerID c7"
    by (simp_all add: c e)
  have len: "length sbs = 8" using l e by simp
  have ok: "\<forall>k < 8. subband_ok c7 k (sbs ! k)" using read_subbands_ok [OF s] len by simp
  have "pair_ok (sbs ! (2 * k)) (sbs ! (2 * k + 1))" if "k < 4" for k
    by (rule check_pair_ok [where cfg = c7 and fp = fp and j = "2 * k" and k = "2 * k + 1"]) (use that p e len ok check_pairs_nth [of fp sbs k] in simp_all)
  then show ?thesis
    using srv sz len ok by (simp add: layout_ok_def proj subband_ok_cong [OF proj(2,3,4)])
qed

lemma initFromYaml_ok:
  assumes "initFromYaml fp cv env file new_GlobalConfig = Some (cfg, meta)"
  shows "layout_ok cfg" "checkConfig cfg"
proof -
  obtain n where n: "read_config fp cv env n new_GlobalConfig = Inr (cfg, meta)" and "checkConfig cfg"
    using assms by (auto simp: initFromYaml_def split: option.splits sum.splits if_splits)
  then show "layout_ok cfg" "checkConfig cfg" using read_config_ok [OF n] by (simp_all add: new_GlobalConfig_def)
qed

text \<open>The ids a window of an accepted configuration puts into every result.\<close>

lemma window_ids:
  assumes "layout_ok cfg" "k < 8" "j < length (sb_windows (cfg_subbands cfg ! k))"
  shows "int (unat (subband_id (w_header (sb_windows (cfg_subbands cfg ! k) ! j)))) = cfg_ServerID cfg * 4 + int (k div 2)"
    "unat (beam_id (w_header (sb_windows (cfg_subbands cfg ! k) ! j))) = k mod 2"
    "unat (window_id (w_header (sb_windows (cfg_subbands cfg ! k) ! j))) = j"
proof -
  let ?sb = "cfg_subbands cfg ! k"
  have ok: "subband_ok cfg k ?sb" using assms(1,2) by (simp add: layout_ok_def)
  then have w: "window_ok cfg ?sb j (sb_windows ?sb ! j)" and j: "j < 4" and id: "sb_subband_id ?sb = of_nat k"
    using assms(3) by (auto simp: subband_ok_def split: if_splits)
  have "pair_ok (cfg_subbands cfg ! (2 * (k div 2))) (cfg_subbands cfg ! (2 * (k div 2) + 1))"
    using assms(1,2) by (simp add: layout_ok_def)
  then have b: "sb_beam ?sb = (if k mod 2 = 0 then Beam_A else Beam_B)"
    by (cases "k mod 2 = 0") (auto simp: pair_ok_def elim!: evenE oddE simp: even_iff_mod_2_eq_zero [symmetric])
  have u: "unat (of_nat k :: u8) = k" using assms(2) by (simp add: unat_of_nat)
  have s: "0 \<le> cfg_ServerID cfg" "cfg_ServerID cfg \<le> 7" using assms(1) by (simp_all add: layout_ok_def)
  let ?v = "cfg_ServerID cfg * 4 + int (k div 2)"
  have u16: "int (unat (of_int v :: u16)) = v" if "0 \<le> v" "v < 2 ^ 16" for v
    using that by (simp add: uint_nat [symmetric] uint_word_of_int)
  have "subband_id (w_header (sb_windows ?sb ! j)) = of_int ?v"
    using w by (simp add: window_ok_def id u)
  then show "int (unat (subband_id (w_header (sb_windows ?sb ! j)))) = ?v"
    using u16 [of ?v] s assms(2) by simp
  show "unat (beam_id (w_header (sb_windows ?sb ! j))) = k mod 2"
    using w b by (simp add: window_ok_def)
  show "unat (window_id (w_header (sb_windows ?sb ! j))) = j"
    using w j by (simp add: window_ok_def unat_of_nat)
qed

section \<open>An accepted file\<close>

text \<open>Eight entries, the first pair enabled, and the shortest integration; every number is written as a scalar that the conversions know.\<close>

definition demo_conv :: yaml_conv where
  "demo_conv = \<lparr>as_string = (\<lambda>n. case n of YScalar s \<Rightarrow> Some s | _ \<Rightarrow> None),
     as_int = (\<lambda>n. case n of YScalar s \<Rightarrow> Some (int (undecimal s)) | _ \<Rightarrow> None),
     as_size = (\<lambda>n. case n of YScalar s \<Rightarrow> Some (of_nat (undecimal s)) | _ \<Rightarrow> None),
     as_bool = (\<lambda>n. if n = YScalar ''true'' then Some True else if n = YScalar ''false'' then Some False else None),
     as_double = (\<lambda>n. case n of YScalar s \<Rightarrow> Some (Fin (of_nat (undecimal s))) | _ \<Rightarrow> None)\<rparr>"

definition demo_entry :: "string \<Rightarrow> yaml" where
  "demo_entry beam = YMap [(''enable'', YScalar ''true''), (''beam'', YScalar beam), (''gpu_id'', YScalar ''0''),
     (''start_freq'', YScalar ''0''), (''end_freq'', YScalar ''256000000''), (''port'', YScalar ''5555''),
     (''windows'', YSeq [YMap [(''center_freq'', YScalar ''128000000'')]])]"

definition demo_unused :: "string \<Rightarrow> yaml" where
  "demo_unused beam = YMap [(''enable'', YScalar ''false''), (''beam'', YScalar beam)]"

definition demo_file :: yaml where
  "demo_file = YMap [(''ServerID'', YScalar ''3''), (''win_channels'', YScalar ''65536''), (''integration_t'', YScalar ''0''),
     (''subbands'', YSeq [demo_entry ''A'', demo_entry ''B'', demo_unused ''A'', demo_unused ''B'',
        demo_unused ''A'', demo_unused ''B'', demo_unused ''A'', demo_unused ''B''])]"

definition demo_dirs :: dir_env where
  "demo_dirs = \<lparr>de_stamp = ''20260101_000000'', de_mkdir = (\<lambda>_. True)\<rparr>"

lemmas reader_defs = read_identity_def read_mode_def read_local_sdfits_def read_storage_def read_baseband_def
  read_window_size_def read_noise_def get_def convert_def optional_def required_def required_scalar_def check_def
  is_scalar_def is_map_def


lemma demo_get [simp]:
  "get demo_file ''sdfits_metadata'' = Inr None"
  "get demo_file ''subbands'' = Inr (Some (YSeq [demo_entry ''A'', demo_entry ''B'', demo_unused ''A'', demo_unused ''B'',
        demo_unused ''A'', demo_unused ''B'', demo_unused ''A'', demo_unused ''B'']))"
  by (simp_all add: get_def demo_file_def)

definition demo_base :: GlobalConfig where
  "demo_base = new_GlobalConfig\<lparr>cfg_ServerID := 3, cfg_Storage_node_ip := ''127.0.0.1'', cfg_win_channels := 65536, cfg_integration_t := Fin 0\<rparr>"

lemma demo_conv_simps [simp]:
  "as_string demo_conv (YScalar s) = Some s" "as_int demo_conv (YScalar s) = Some (int (undecimal s))"
  "as_double demo_conv (YScalar s) = Some (Fin (of_nat (undecimal s)))"
  "as_bool demo_conv (YScalar s) = (if s = ''true'' then Some True else if s = ''false'' then Some False else None)"
  by (simp_all add: demo_conv_def)

lemma fl_exact_fpu: "fl exact_fpu = Fin"
  by (simp add: exact_fpu_def)

lemma demo_base_fields [simp]:
  "cfg_subbands demo_base = []" "cfg_win_channels demo_base = 65536" "cfg_ServerID demo_base = 3"
  "cfg_Memory_pool_per_stream demo_base = 64" "\<not> cfg_local_sdfits_enabled demo_base" "cfg_integration_t demo_base = Fin 0"
  "cfg_observation_mode demo_base = SPECTRAL" "cfg_cal_mode demo_base = False" "cfg_subband_monitor demo_base = False"
  by (simp_all add: demo_base_def new_GlobalConfig_def)

lemma demo_fields [simp]:
  "cfg_observation_mode new_GlobalConfig = SPECTRAL" "cfg_win_bw new_GlobalConfig = Fin 256000000"
  "cfg_noise_source new_GlobalConfig = \<lparr>period_ms = Fin 1000, duty_cycle = Fin 50, transition_blank_ms = Fin 10\<rparr>"
  "cfg_subbands new_GlobalConfig = []" "cfg_Debug_mode new_GlobalConfig = False" "cfg_cal_mode new_GlobalConfig = False"
  "cfg_Memory_pool_per_stream new_GlobalConfig = 64" "cfg_subband_monitor new_GlobalConfig = False"
  "cfg_integration_t new_GlobalConfig = Fin 1" "cfg_Observation_ID new_GlobalConfig = ''''" "cfg_Observation_numeric_id new_GlobalConfig = 0"
  by (simp_all add: new_GlobalConfig_def)

lemma demo_sections:
  "read_identity demo_conv demo_file new_GlobalConfig = Inr (new_GlobalConfig\<lparr>cfg_ServerID := 3\<rparr>)"
  "read_mode demo_conv demo_file (new_GlobalConfig\<lparr>cfg_ServerID := 3\<rparr>) = Inr (new_GlobalConfig\<lparr>cfg_ServerID := 3\<rparr>)"
  "read_local_sdfits demo_conv demo_dirs demo_file (new_GlobalConfig\<lparr>cfg_ServerID := 3\<rparr>) = Inr (new_GlobalConfig\<lparr>cfg_ServerID := 3\<rparr>)"
  "read_storage demo_conv demo_file (new_GlobalConfig\<lparr>cfg_ServerID := 3\<rparr>)
     = Inr (new_GlobalConfig\<lparr>cfg_ServerID := 3, cfg_Storage_node_ip := ''127.0.0.1''\<rparr>)"
  "read_baseband demo_conv demo_dirs demo_file (new_GlobalConfig\<lparr>cfg_ServerID := 3, cfg_Storage_node_ip := ''127.0.0.1''\<rparr>)
     = Inr (new_GlobalConfig\<lparr>cfg_ServerID := 3, cfg_Storage_node_ip := ''127.0.0.1''\<rparr>)"
  by (simp_all add: reader_defs demo_file_def demo_conv_def new_GlobalConfig_def undecimal_def)

lemma demo_sizes:
  "read_window_size exact_fpu demo_conv demo_file (new_GlobalConfig\<lparr>cfg_ServerID := 3, cfg_Storage_node_ip := ''127.0.0.1''\<rparr>)
     = Inr (demo_base\<lparr>cfg_total_nfft := 65536, cfg_integration_t := Fin 1\<rparr>)"
  "read_noise demo_conv demo_file (demo_base\<lparr>cfg_total_nfft := 65536, cfg_integration_t := Fin 1\<rparr>) = Inr (demo_base\<lparr>cfg_total_nfft := 65536\<rparr>)"
  using llround_of_int [of 65536]
  by (simp_all add: reader_defs demo_file_def demo_conv_def demo_base_def new_GlobalConfig_def undecimal_def exact_fpu_def
     sampling_rate_def Max_nfft_def)

lemma demo_window:
  "\<exists>w. read_window exact_fpu demo_conv (demo_base\<lparr>cfg_total_nfft := 65536\<rparr>)
      \<lparr>sb_subband_id = k, sb_enable = True, sb_beam = b, sb_gpu_id = 0, sb_start_freq = Fin 0, sb_end_freq = Fin 256000000,
       sb_port = 5555, sb_windows = []\<rparr> 0 (YMap [(''center_freq'', YScalar ''128000000'')]) = Inr w
     \<and> w_start_freq w = Fin 0 \<and> w_end_freq w = Fin 256000000"
  using llround_of_int [of 0]
  by (simp add: read_window_def reader_defs demo_conv_def demo_base_def undecimal_def exact_fpu_def Let_def sampling_rate_def)

lemma demo_enabled:
  assumes "beam = ''A'' \<or> beam = ''B''"
  shows "\<exists>w. read_subband exact_fpu demo_conv (demo_base\<lparr>cfg_total_nfft := 65536\<rparr>) k (demo_entry beam)
       = Inr \<lparr>sb_subband_id = of_nat k, sb_enable = True, sb_beam = (if beam = ''A'' then Beam_A else Beam_B), sb_gpu_id = 0,
           sb_start_freq = Fin 0, sb_end_freq = Fin 256000000, sb_port = 5555, sb_windows = [w]\<rparr>
     \<and> w_start_freq w = Fin 0 \<and> w_end_freq w = Fin 256000000"
proof -
  obtain w where w: "read_window exact_fpu demo_conv (demo_base\<lparr>cfg_total_nfft := 65536\<rparr>)
      \<lparr>sb_subband_id = of_nat k, sb_enable = True, sb_beam = (if beam = ''A'' then Beam_A else Beam_B), sb_gpu_id = 0, sb_start_freq = Fin 0, sb_end_freq = Fin 256000000,
       sb_port = 5555, sb_windows = []\<rparr> 0 (YMap [(''center_freq'', YScalar ''128000000'')]) = Inr w"
     "w_start_freq w = Fin 0" "w_end_freq w = Fin 256000000" using demo_window by blast
  then show ?thesis using assms
    by (auto simp: read_subband_def read_beam_def reader_defs demo_entry_def undecimal_def fl_exact_fpu sampling_rate_def)
qed

lemma demo_disabled:
  "read_subband fp demo_conv cfg k (demo_unused ''A'') = Inr \<lparr>sb_subband_id = of_nat k, sb_enable = False, sb_beam = Beam_A,
     sb_gpu_id = 0, sb_start_freq = Fin 0, sb_end_freq = Fin 0, sb_port = 0, sb_windows = []\<rparr>"
  "read_subband fp demo_conv cfg k (demo_unused ''B'') = Inr \<lparr>sb_subband_id = of_nat k, sb_enable = False, sb_beam = Beam_B,
     sb_gpu_id = 0, sb_start_freq = Fin 0, sb_end_freq = Fin 0, sb_port = 0, sb_windows = []\<rparr>"
  by (simp_all add: read_subband_def read_beam_def reader_defs demo_unused_def)

lemma demo_accepted:
  "\<exists>cfg. initFromYaml exact_fpu demo_conv demo_dirs (Some demo_file) new_GlobalConfig = Some (cfg, None)
     \<and> cfg_ServerID cfg = 3 \<and> length (sb_windows (cfg_subbands cfg ! 0)) = 1 \<and> length (sb_windows (cfg_subbands cfg ! 1)) = 1
     \<and> cfg_Memory_pool_per_stream cfg = 64 \<and> \<not> cfg_local_sdfits_enabled cfg \<and> cfg_integration_t cfg = Fin 0 \<and> cfg_total_nfft cfg = 65536
     \<and> cfg_observation_mode cfg = SPECTRAL \<and> cfg_cal_mode cfg = False \<and> cfg_subband_monitor cfg = False"
proof -
  obtain v w where "read_subband exact_fpu demo_conv (demo_base\<lparr>cfg_total_nfft := 65536\<rparr>) 0 (demo_entry ''A'')
       = Inr \<lparr>sb_subband_id = of_nat 0, sb_enable = True, sb_beam = Beam_A, sb_gpu_id = 0,
           sb_start_freq = Fin 0, sb_end_freq = Fin 256000000, sb_port = 5555, sb_windows = [v]\<rparr>"
     "w_start_freq v = Fin 0" "w_end_freq v = Fin 256000000" 
     "read_subband exact_fpu demo_conv (demo_base\<lparr>cfg_total_nfft := 65536\<rparr>) 1 (demo_entry ''B'')
       = Inr \<lparr>sb_subband_id = of_nat 1, sb_enable = True, sb_beam = Beam_B, sb_gpu_id = 0,
           sb_start_freq = Fin 0, sb_end_freq = Fin 256000000, sb_port = 5555, sb_windows = [w]\<rparr>"
     "w_start_freq w = Fin 0" "w_end_freq w = Fin 256000000" 
    using demo_enabled [of "''A''" 0] demo_enabled [of "''B''" 1] by auto
  then show ?thesis
    by (simp add: initFromYaml_def read_config_def demo_sections demo_sizes demo_disabled check_def check_pair_def
        far_apart_def checkConfig_def fl_exact_fpu)
qed


section \<open>Properties\<close>

lemma digit_eq_iff:
  fixes a b :: int and x y :: nat
  assumes "x < 4" "y < 4"
  shows "a * 4 + int x = b * 4 + int y \<longleftrightarrow> a = b \<and> x = y"
proof
  assume "a * 4 + int x = b * 4 + int y"
  moreover have "(a * 4 + int x) div 4 = a" "(b * 4 + int y) div 4 = b" using assms by simp_all
  ultimately have "a = b" by simp
  then show "a = b \<and> x = y" using \<open>a * 4 + int x = b * 4 + int y\<close> by simp
qed simp

text \<open>
  C13. A configuration that is accepted is one the other components can work with: eight entries of which every even one is beam A and
  the next its beam B, enabled together and with as many windows; one to four windows in an enabled entry and none in another; every
  window inside the channels of the spectrum; an FFT length of at least 65536 that is a whole number of packets, within the limit; and a port and a server id in
  range, whatever the file, the conversions and the rounding.
\<close>

theorem accepted_layout:
  assumes "initFromYaml fp cv env file new_GlobalConfig = Some (cfg, meta)" and "k < 8"
  defines "sb \<equiv> cfg_subbands cfg ! k"
  shows "length (cfg_subbands cfg) = 8 \<and> 0 \<le> cfg_ServerID cfg \<and> cfg_ServerID cfg \<le> 7
    \<and> cfg_total_nfft cfg = 4096 * cfg_batchsize cfg \<and> 65536 \<le> cfg_total_nfft cfg \<and> cfg_total_nfft cfg \<le> Max_nfft
    \<and> sb_beam sb = (if even k then Beam_A else Beam_B)
    \<and> (even k \<longrightarrow> sb_enable (cfg_subbands cfg ! (k + 1)) = sb_enable sb \<and> length (sb_windows (cfg_subbands cfg ! (k + 1))) = length (sb_windows sb))
    \<and> (if sb_enable sb then 0 < sb_port sb \<and> sb_port sb \<le> 65535 \<and> 1 \<le> length (sb_windows sb) \<and> length (sb_windows sb) \<le> 4 else sb_windows sb = [])
    \<and> (\<forall>w \<in> set (sb_windows sb). int (w_start_idx w) + cfg_win_channels cfg \<le> cfg_total_nfft cfg)"
proof -
  note ok = initFromYaml_ok [OF assms(1)]
  note l = ok(1) [unfolded layout_ok_def]
  have "cfg_total_nfft cfg = 4096 * cfg_batchsize cfg \<and> 65536 \<le> cfg_total_nfft cfg" using checkConfig_sizes [OF ok(2)] by simp
  moreover have "pair_ok (cfg_subbands cfg ! (2 * (k div 2))) (cfg_subbands cfg ! (2 * (k div 2) + 1))" using l assms(2) by simp
  then have "sb_beam sb = (if even k then Beam_A else Beam_B)
      \<and> (even k \<longrightarrow> sb_enable (cfg_subbands cfg ! (k + 1)) = sb_enable sb \<and> length (sb_windows (cfg_subbands cfg ! (k + 1))) = length (sb_windows sb))"
    by (cases "even k") (auto simp: pair_ok_def sb_def elim!: evenE oddE)
  moreover have s: "subband_ok cfg k sb" using l assms(2) by (simp add: sb_def)
  then have "if sb_enable sb then 0 < sb_port sb \<and> sb_port sb \<le> 65535 \<and> 1 \<le> length (sb_windows sb) \<and> length (sb_windows sb) \<le> 4 else sb_windows sb = []"
    unfolding subband_ok_def by (cases "sb_enable sb") (simp_all add: Suc_le_eq)
  moreover have "\<forall>w \<in> set (sb_windows sb). int (w_start_idx w) + cfg_win_channels cfg \<le> cfg_total_nfft cfg"
  proof (cases "sb_enable sb")
    case True
    then have "\<forall>j < length (sb_windows sb). window_ok cfg sb j (sb_windows sb ! j)" using s unfolding subband_ok_def by simp
    then show ?thesis by (simp add: window_ok_def all_set_conv_all_nth)
  next
    case False
    then show ?thesis using s unfolding subband_ok_def by simp
  qed
  ultimately show ?thesis using l by (intro conjI) simp_all
qed

text \<open>
  C22. The ids in a result name its window among all servers: if results of windows of two accepted configurations carry the same subband,
  beam and window ids, then the configurations have the same server id and the windows the same place in them, and conversely.
\<close>

theorem result_ids_identify:
  assumes "initFromYaml fp cv env file new_GlobalConfig = Some (cfg, meta)" and "initFromYaml fp' cv' env' file' new_GlobalConfig = Some (cfg', meta')"
    and "k < 8" "j < length (sb_windows (cfg_subbands cfg ! k))" and "k' < 8" "j' < length (sb_windows (cfg_subbands cfg' ! k'))"
  defines "h \<equiv> w_header (sb_windows (cfg_subbands cfg ! k) ! j)" and "h' \<equiv> w_header (sb_windows (cfg_subbands cfg' ! k') ! j')"
  shows "subband_id h = subband_id h' \<and> beam_id h = beam_id h' \<and> window_id h = window_id h' \<longleftrightarrow> cfg_ServerID cfg = cfg_ServerID cfg' \<and> k = k' \<and> j = j'"
proof -
  note ok = initFromYaml_ok(1) [OF assms(1)] and ok' = initFromYaml_ok(1) [OF assms(2)]
  note i = window_ids [OF ok assms(3,4), folded h_def] and i' = window_ids [OF ok' assms(5,6), folded h'_def]
  have "subband_id h = subband_id h' \<longleftrightarrow> cfg_ServerID cfg * 4 + int (k div 2) = cfg_ServerID cfg' * 4 + int (k' div 2)"
    using i(1) i'(1) by (metis nat_int word_unat_eq_iff)
  moreover have "k div 2 < 4" "k' div 2 < 4" using assms(3,5) by simp_all
  then have "cfg_ServerID cfg * 4 + int (k div 2) = cfg_ServerID cfg' * 4 + int (k' div 2) \<longleftrightarrow> cfg_ServerID cfg = cfg_ServerID cfg' \<and> k div 2 = k' div 2"
    by (rule digit_eq_iff)
  ultimately have s: "subband_id h = subband_id h' \<longleftrightarrow> cfg_ServerID cfg = cfg_ServerID cfg' \<and> k div 2 = k' div 2" by (rule trans)
  have b: "beam_id h = beam_id h' \<longleftrightarrow> k mod 2 = k' mod 2" using i(2) i'(2) by (metis word_unat_eq_iff)
  have w: "window_id h = window_id h' \<longleftrightarrow> j = j'" using i(3) i'(3) by (metis word_unat_eq_iff)
  have "k = k' \<longleftrightarrow> k div 2 = k' div 2 \<and> k mod 2 = k' mod 2" by (metis div_mult_mod_eq)
  then show ?thesis using s b w by blast
qed

theorem accepted_layout_witness:
  "\<exists>cfg. initFromYaml exact_fpu demo_conv demo_dirs (Some demo_file) new_GlobalConfig = Some (cfg, None) \<and> length (cfg_subbands cfg) = 8
     \<and> (\<forall>w \<in> set (sb_windows (cfg_subbands cfg ! 0)). int (w_start_idx w) + cfg_win_channels cfg \<le> cfg_total_nfft cfg)"
proof -
  obtain cfg where c: "initFromYaml exact_fpu demo_conv demo_dirs (Some demo_file) new_GlobalConfig = Some (cfg, None)" using demo_accepted by blast
  have "0 < (8 :: nat)" by simp
  note l = accepted_layout [OF c this]
  show ?thesis by (rule exI [of _ cfg], intro conjI, rule c, rule conjunct1 [OF l]) (use l in blast)
qed

theorem result_ids_identify_witness:
  "\<exists>cfg. initFromYaml exact_fpu demo_conv demo_dirs (Some demo_file) new_GlobalConfig = Some (cfg, None)
     \<and> (let h = w_header (sb_windows (cfg_subbands cfg ! 0) ! 0); h' = w_header (sb_windows (cfg_subbands cfg ! 1) ! 0)
        in \<not> (subband_id h = subband_id h' \<and> beam_id h = beam_id h' \<and> window_id h = window_id h'))"
proof -
  obtain cfg where c: "initFromYaml exact_fpu demo_conv demo_dirs (Some demo_file) new_GlobalConfig = Some (cfg, None)"
      "length (sb_windows (cfg_subbands cfg ! 0)) = 1" "length (sb_windows (cfg_subbands cfg ! 1)) = 1" using demo_accepted by blast
  have "0 < length (sb_windows (cfg_subbands cfg ! 0))" "0 < length (sb_windows (cfg_subbands cfg ! 1))" using c(2,3) by simp_all
  note r = result_ids_identify [OF c(1,1) _ this(1) _ this(2), simplified]
  show ?thesis unfolding Let_def using c(1) r by (intro exI [of _ cfg] conjI) simp_all
qed

end
