(* ===== verification/Result_Time.thy ===== *)
theory Result_Time
  imports Global_Config
begin

text \<open>
  Times of results: the delay of the filter bank (\<^verbatim>\<open>include/timing.hpp\<close>) and the date conversions of
  \<^verbatim>\<open>include/time_utils.h\<close>. A \<^verbatim>\<open>long double\<close> computation rounds every operation with an argument \<open>xl\<close>;
  \<^verbatim>\<open>gmtime_r\<close> is the Gregorian calendar from 1970.
\<close>

section \<open>Delays\<close>

definition pfb_group_delay_ns :: "(real \<Rightarrow> real) \<Rightarrow> nat \<Rightarrow> nat \<Rightarrow> nat \<Rightarrow> u64 result" where
  "pfb_group_delay_ns xl num_taps fft_size sampling_rate_hz =
     (if num_taps = 0 \<or> fft_size = 0 \<or> sampling_rate_hz = 0 then Inl (Invalid_argument ''invalid PFB timing parameters'')
      else
        let delay_samples = xl (xl (real (num_taps - 1) * real fft_size) / 2)
        in Inr (of_int (llround (xl (xl (delay_samples * 1000000000) / real sampling_rate_hz)))))"

definition compensate_delay_ns :: "u64 \<Rightarrow> u64 \<Rightarrow> u64" where
  "compensate_delay_ns ts delay_ns = (if delay_ns > ts then 0 else ts - delay_ns)"

section \<open>Dates\<close>

text \<open>\<^verbatim>\<open>spectrum_time::integration_start_ns\<close> and \<^verbatim>\<open>unix_ns_to_mjd\<close>.\<close>

definition exposure_start_ns :: "(real \<Rightarrow> real) \<Rightarrow> u64 \<Rightarrow> dbl \<Rightarrow> u64" where
  "exposure_start_ns xl centre_ns exposure_sec =
     (if \<not> isfinite exposure_sec \<or> real_of_dbl exposure_sec \<le> 0 then centre_ns
      else
        let half_exposure_ns = xl (xl (real_of_dbl exposure_sec * 1000000000) / 2);
            offset_ns = of_int (llround half_exposure_ns)
        in if offset_ns > centre_ns then 0 else centre_ns - offset_ns)"

definition unix_ns_to_mjd :: "fpu \<Rightarrow> (real \<Rightarrow> real) \<Rightarrow> u64 \<Rightarrow> dbl" where
  "unix_ns_to_mjd fp xl ts =
     fl fp (xl (40587 + xl (real (unat ts) / xl (1000000000 * 86400))))"

definition leap_year :: "nat \<Rightarrow> bool" where
  "leap_year y \<longleftrightarrow> y mod 4 = 0 \<and> (y mod 100 \<noteq> 0 \<or> y mod 400 = 0)"

definition year_length :: "nat \<Rightarrow> nat" where
  "year_length y = (if leap_year y then 366 else 365)"

definition month_lengths :: "nat \<Rightarrow> nat list" where
  "month_lengths y = [31, if leap_year y then 29 else 28, 31, 30, 31, 30, 31, 31, 30, 31, 30, 31]"

lemma year_length_pos [simp]: "0 < year_length y"
  by (simp add: year_length_def)

function year_of_day :: "nat \<Rightarrow> nat \<Rightarrow> nat \<times> nat" where
  "year_of_day y d = (if d < year_length y then (y, d) else year_of_day (y + 1) (d - year_length y))"
  by pat_completeness auto
termination
  by (relation "measure snd") (auto simp: not_less intro: diff_less less_le_trans [OF year_length_pos])

declare year_of_day.simps [simp del]

fun month_of_day :: "nat list \<Rightarrow> nat \<Rightarrow> nat \<Rightarrow> nat \<times> nat" where
  "month_of_day [] m d = (m, d)"
| "month_of_day (l # ls) m d = (if d < l then (m, d) else month_of_day ls (m + 1) (d - l))"

record tm =
  tm_year :: nat
  tm_mon :: nat
  tm_mday :: nat
  tm_hour :: nat
  tm_min :: nat
  tm_sec :: nat

text \<open>\<^verbatim>\<open>tm_year\<close> counts from 1900 and \<^verbatim>\<open>tm_mon\<close> from 0.\<close>

definition gmtime_r :: "nat \<Rightarrow> tm" where
  "gmtime_r seconds =
     (let (y, yd) = year_of_day 1970 (seconds div 86400);
          (m, md) = month_of_day (month_lengths y) 0 yd;
          s = seconds mod 86400
      in \<lparr>tm_year = y - 1900, tm_mon = m, tm_mday = md + 1, tm_hour = s div 3600, tm_min = s div 60 mod 60, tm_sec = s mod 60\<rparr>)"

definition format_fits_utc :: "u64 \<Rightarrow> nat \<Rightarrow> string option" where
  "format_fits_utc ts output_size =
     (if output_size < 30 then None
      else
        let seconds = unat (ts div 1000000000); nanoseconds = unat (ts mod 1000000000); t = gmtime_r seconds;
            text = zero_pad 4 (decimal (tm_year t + 1900)) @ ''-'' @ zero_pad 2 (decimal (tm_mon t + 1)) @ ''-''
              @ zero_pad 2 (decimal (tm_mday t)) @ ''T'' @ zero_pad 2 (decimal (tm_hour t)) @ '':''
              @ zero_pad 2 (decimal (tm_min t)) @ '':'' @ zero_pad 2 (decimal (tm_sec t)) @ ''.'' @ zero_pad 9 (decimal nanoseconds)
        in if 0 < length text \<and> length text < output_size then Some text else None)"

section \<open>The calendar\<close>

definition days_before_year :: "nat \<Rightarrow> nat \<Rightarrow> nat" where
  "days_before_year y0 y = (\<Sum>k = y0..<y. year_length k)"

lemma year_of_day_spec:
  "year_of_day y d = (y', d') \<Longrightarrow> y \<le> y' \<and> d' < year_length y' \<and> d = days_before_year y y' + d' \<and> y' \<le> y + d div 365"
proof (induction y d rule: year_of_day.induct)
  case (1 y d)
  show ?case
  proof (cases "d < year_length y")
    case True
    then show ?thesis using "1.prems" by (simp add: year_of_day.simps [of y] days_before_year_def)
  next
    case False
    then have e: "year_of_day (y + 1) (d - year_length y) = (y', d')" using "1.prems" by (simp add: year_of_day.simps [of y])
    note IH = "1.IH" [OF False e]
    have "days_before_year y y' = year_length y + days_before_year (y + 1) y'"
      using IH sum.atLeast_Suc_lessThan [of y y' year_length] by (simp add: days_before_year_def)
    moreover have "(d - year_length y) div 365 + 1 \<le> d div 365"
    proof -
      have "(d - year_length y) div 365 + 1 = (d - year_length y + 365) div 365" by simp
      also have "\<dots> \<le> d div 365" using False by (intro div_le_mono) (simp add: year_length_def split: if_splits)
      finally show ?thesis .
    qed
    ultimately show ?thesis using IH False by linarith
  qed
qed

lemma month_of_day_spec:
  "month_of_day ls m d = (m', d') \<Longrightarrow> d < sum_list ls \<Longrightarrow>
     m \<le> m' \<and> m' < m + length ls \<and> d' < ls ! (m' - m) \<and> d = sum_list (take (m' - m) ls) + d'"
proof (induction ls m d rule: month_of_day.induct)
  case (2 l ls m d)
  show ?case
  proof (cases "d < l")
    case True
    then show ?thesis using 2 by simp
  next
    case False
    then have e: "month_of_day ls (m + 1) (d - l) = (m', d')" "d - l < sum_list ls" using 2 by simp_all
    note IH = "2.IH" [OF False e]
    then obtain j where j: "m' - m = Suc j" "m' - (m + 1) = j" by (metis Suc_diff_Suc add.commute plus_1_eq_Suc le_imp_less_Suc less_eq_Suc_le)
    show ?thesis using IH False unfolding j by auto
  qed
qed simp

lemma sum_month_lengths: "sum_list (month_lengths y) = year_length y"
  by (simp add: month_lengths_def year_length_def)

text \<open>The second of a date.\<close>

definition unix_seconds :: "tm \<Rightarrow> nat" where
  "unix_seconds t =
     (days_before_year 1970 (tm_year t + 1900) + sum_list (take (tm_mon t) (month_lengths (tm_year t + 1900))) + (tm_mday t - 1)) * 86400
     + tm_hour t * 3600 + tm_min t * 60 + tm_sec t"

lemma gmtime_r_spec:
  fixes seconds :: nat
  defines "t \<equiv> gmtime_r seconds"
  shows "unix_seconds t = seconds" "tm_mon t < 12" "tm_mday t \<le> 31" "tm_hour t < 24" "tm_min t < 60" "tm_sec t < 60"
    "tm_year t + 1900 \<le> 1970 + seconds div 86400 div 365" "70 \<le> tm_year t"
proof -
  obtain y yd where y: "year_of_day 1970 (seconds div 86400) = (y, yd)" by fastforce
  note ys = year_of_day_spec [OF y]
  obtain m md where m: "month_of_day (month_lengths y) 0 yd = (m, md)" by fastforce
  have "yd < sum_list (month_lengths y)" using ys by (simp add: sum_month_lengths)
  note ms = month_of_day_spec [OF m this, simplified]
  have len: "length (month_lengths y) = 12" by (simp add: month_lengths_def)
  have t: "t = \<lparr>tm_year = y - 1900, tm_mon = m, tm_mday = md + 1, tm_hour = seconds mod 86400 div 3600,
      tm_min = seconds mod 86400 div 60 mod 60, tm_sec = seconds mod 86400 mod 60\<rparr>"
    by (simp add: t_def gmtime_r_def y m Let_def)
  have "month_lengths y ! m \<in> set (month_lengths y)" using ms by (intro nth_mem) simp
  then have "month_lengths y ! m \<le> 31" by (auto simp: month_lengths_def split: if_splits)
  then show "tm_mday t \<le> 31" using ms by (simp add: t)
  show "tm_mon t < 12" using ms len by (simp add: t)
  show "tm_hour t < 24" "tm_min t < 60" "tm_sec t < 60" by (simp_all add: t less_mult_imp_div_less)
  show "tm_year t + 1900 \<le> 1970 + seconds div 86400 div 365" "70 \<le> tm_year t"
    using ys unfolding t tm.simps by linarith+
  have "s div 3600 * 3600 + s div 60 mod 60 * 60 + s mod 60 = s" for s :: nat
  proof -
    have "s div 3600 = s div 60 div 60" by (simp add: div_mult2_eq [symmetric])
    then show ?thesis using div_mult_mod_eq [of "s div 60" 60] div_mult_mod_eq [of s 60] by linarith
  qed
  from this [of "seconds mod 86400"] have "unix_seconds t = seconds div 86400 * 86400 + seconds mod 86400"
    using ys ms by (simp add: unix_seconds_def t algebra_simps)
  then show "unix_seconds t = seconds" by simp
qed

section \<open>Reading a date back\<close>

lemma length_decimal: "n < 10 ^ k \<Longrightarrow> 0 < k \<Longrightarrow> length (decimal n) \<le> k"
proof (induction n arbitrary: k rule: decimal.induct)
  case (1 n)
  show ?case
  proof (cases "n < 10")
    case True
    then show ?thesis using "1.prems" by (simp add: decimal.simps [of n])
  next
    case False
    then obtain j where j: "k = Suc j" "0 < j" using "1.prems" by (cases k; cases "k - 1") auto
    have "n div 10 < 10 ^ j" using "1.prems"(1) j(1) by (simp add: less_mult_imp_div_less mult.commute)
    then show ?thesis using "1.IH" [OF False _ j(2)] False j by (simp add: decimal.simps [of n])
  qed
qed

lemma length_zero_pad: "n < 10 ^ k \<Longrightarrow> 0 < k \<Longrightarrow> length (zero_pad k (decimal n)) = k"
  using length_decimal [of n k] by (simp add: zero_pad_def)

text \<open>The fields of a date as a reader of the FITS syntax finds them, as nanoseconds since 1970.\<close>

definition field :: "nat \<Rightarrow> nat \<Rightarrow> string \<Rightarrow> nat" where
  "field i k s = undecimal (take k (drop i s))"

definition parse_fits_utc :: "string \<Rightarrow> nat" where
  "parse_fits_utc s =
     unix_seconds \<lparr>tm_year = field 0 4 s - 1900, tm_mon = field 5 2 s - 1, tm_mday = field 8 2 s, tm_hour = field 11 2 s,
       tm_min = field 14 2 s, tm_sec = field 17 2 s\<rparr> * 1000000000 + field 20 9 s"

lemma parse_fields:
  assumes "length a = 4" "length b = 2" "length c = 2" "length d = 2" "length e = 2" "length f = 2" "length g = 9"
  defines "s \<equiv> a @ ''-'' @ b @ ''-'' @ c @ ''T'' @ d @ '':'' @ e @ '':'' @ f @ ''.'' @ g"
  shows "length s = 29" "parse_fits_utc s = unix_seconds \<lparr>tm_year = undecimal a - 1900, tm_mon = undecimal b - 1,
      tm_mday = undecimal c, tm_hour = undecimal d, tm_min = undecimal e, tm_sec = undecimal f\<rparr> * 1000000000 + undecimal g"
  using assms by (simp_all add: parse_fits_utc_def field_def s_def)

text \<open>
  C30. Every time stamp has a FITS date of 29 characters, and reading its fields back with the Gregorian
  calendar gives the same nanosecond: the date of an integration start is neither rounded nor shifted.
\<close>

theorem format_fits_utc_reads_back:
  "\<exists>s. format_fits_utc ts 32 = Some s \<and> length s = 29 \<and> parse_fits_utc s = unat ts"
proof -
  let ?n = "unat (ts div 1000000000)"
  define t where "t = gmtime_r ?n"
  note g = gmtime_r_spec [of ?n, folded t_def]
  have n: "?n = unat ts div 1000000000" "unat (ts mod 1000000000) = unat ts mod 1000000000"
    by (simp_all add: unat_div unat_mod)
  have "unat ts < 18446744073709551616" using unsigned_less [of ts] by simp
  then have "unat ts div 1000000000 div 86400 div 365 < 8000" by (simp add: less_mult_imp_div_less)
  then have y: "tm_year t + 1900 < 10 ^ 4" using g(7) n(1) by simp
  let ?p = "\<lambda>k m. zero_pad k (decimal m)"
  have l: "length (?p 4 (tm_year t + 1900)) = 4" "length (?p 2 (tm_mon t + 1)) = 2" "length (?p 2 (tm_mday t)) = 2"
    "length (?p 2 (tm_hour t)) = 2" "length (?p 2 (tm_min t)) = 2" "length (?p 2 (tm_sec t)) = 2"
    "length (?p 9 (unat (ts mod 1000000000))) = 9"
    using y g(2-6) n(2) by (simp_all add: length_zero_pad)
  have t: "t = \<lparr>tm_year = tm_year t + 1900 - 1900, tm_mon = tm_mon t + 1 - 1, tm_mday = tm_mday t, tm_hour = tm_hour t,
      tm_min = tm_min t, tm_sec = tm_sec t\<rparr>" by simp
  note f = parse_fields [OF l]
  show ?thesis
    unfolding format_fits_utc_def Let_def t_def [symmetric] using f(1) f(2) [unfolded undecimal_zero_pad, folded t] g(1) n
    by (simp only: f(1)) (simp add: div_mult_mod_eq)
qed

end
