(* ===== verification/Sdfits.thy ===== *)
theory Sdfits
  imports Result_Time
begin

text \<open>
  The single-dish FITS files of \<^verbatim>\<open>src/sdfits.cpp\<close> and \<^verbatim>\<open>include/sdfits.h\<close>. CFITSIO is a parameter: a call
  with an outcome other than \<open>0\<close> sets the status and has no effect, and by its documented convention
  a call entered with a nonzero status returns at once. A file is its keywords, the lengths of its
  vector columns and its table cells. Single-precision values are their bit patterns.
\<close>

section \<open>Files\<close>

datatype fits_value = FStr string | FDbl dbl | FInt int | FFloat u32 | FFloats "u32 list" | FDbls "dbl list" | FNull

record fitsfile =
  ff_keys :: "string \<rightharpoonup> fits_value"
  ff_veclen :: "nat \<rightharpoonup> int"
  ff_cells :: "nat \<times> int \<rightharpoonup> fits_value"

definition fits_call :: "nat \<Rightarrow> (fitsfile \<Rightarrow> fitsfile) \<Rightarrow> nat \<times> fitsfile \<Rightarrow> nat \<times> fitsfile" where
  "fits_call outcome f sf =
     (case sf of (status, file) \<Rightarrow>
        if status > 0 then (status, file) else if outcome \<noteq> 0 then (outcome, file) else (0, f file))"

fun fits_calls :: "(nat \<Rightarrow> nat) \<Rightarrow> nat \<Rightarrow> (fitsfile \<Rightarrow> fitsfile) list \<Rightarrow> nat \<times> fitsfile \<Rightarrow> nat \<times> fitsfile" where
  "fits_calls out k [] sf = sf"
| "fits_calls out k (f # fs) sf = fits_calls out (k + 1) fs (fits_call (out k) f sf)"

definition update_key :: "string \<Rightarrow> fits_value \<Rightarrow> fitsfile \<Rightarrow> fitsfile" where
  "update_key k v f = f\<lparr>ff_keys := (ff_keys f)(k \<mapsto> v)\<rparr>"

definition modify_vector_len :: "nat \<Rightarrow> int \<Rightarrow> fitsfile \<Rightarrow> fitsfile" where
  "modify_vector_len col n f = f\<lparr>ff_veclen := (ff_veclen f)(col \<mapsto> n)\<rparr>"

definition write_col :: "nat \<Rightarrow> int \<Rightarrow> fits_value \<Rightarrow> fitsfile \<Rightarrow> fitsfile" where
  "write_col col row v f = f\<lparr>ff_cells := (ff_cells f)((col, row) \<mapsto> v)\<rparr>"

text \<open>Calls that move between header units, read the clock or flush leave the contents alone.\<close>

definition no_change :: "fitsfile \<Rightarrow> fitsfile" where "no_change f = f"

section \<open>Data\<close>

record HdrInfo =
  h_telescope :: string
  h_bandwidth :: dbl
  h_freqres :: dbl
  h_date_obs :: string
  h_tsys :: dbl
  h_projid :: string
  h_frontend :: string
  h_obsfreq :: dbl
  h_scan :: dbl
  h_instrument :: string
  h_cal_mode :: string
  h_cal_freq :: dbl
  h_cal_dcyc :: dbl
  h_cal_phs :: dbl
  h_npol :: int
  h_nchan :: int
  h_chan_bw :: dbl
  h_nsubband :: int
  h_efsampfr :: dbl
  h_fpgaclk :: dbl
  h_hwexposr :: dbl
  h_filtnep :: dbl
  h_sttmjd :: dbl
  h_site_lon :: dbl
  h_site_lat :: dbl
  h_site_height :: dbl
  h_source_on :: bool

definition new_HdrInfo :: HdrInfo where
  "new_HdrInfo =
     \<lparr>h_telescope = '''', h_bandwidth = Fin 0, h_freqres = Fin 0, h_date_obs = '''', h_tsys = NaN, h_projid = '''',
      h_frontend = '''', h_obsfreq = Fin 0, h_scan = Fin 0, h_instrument = '''', h_cal_mode = '''', h_cal_freq = Fin 0,
      h_cal_dcyc = Fin 0, h_cal_phs = Fin 0, h_npol = 4, h_nchan = 0, h_chan_bw = Fin 0, h_nsubband = 0,
      h_efsampfr = Fin 0, h_fpgaclk = Fin 0, h_hwexposr = Fin 0, h_filtnep = Fin 0, h_sttmjd = Fin 0,
      h_site_lon = NaN, h_site_lat = NaN, h_site_height = NaN, h_source_on = True\<rparr>"

record sdfits_data_columns =
  dc_time :: dbl
  dc_time_counter :: u64
  dc_integ_num :: int
  dc_exposure :: u32
  dc_object :: string
  dc_azimuth :: u32
  dc_elevation :: u32
  dc_bmaj :: u32
  dc_bmin :: u32
  dc_bpa :: u32
  dc_accumid :: int
  dc_sttspec :: int
  dc_stpspec :: int
  dc_centre_freq_idx :: u32
  dc_centre_freq :: "dbl list"
  dc_ra :: dbl
  dc_dec :: dbl
  dc_data :: "u32 list"
  dc_cal_on :: int

text \<open>The pattern \<open>0\<close> is the float \<open>0.0\<close>; a null data pointer is the empty list.\<close>

definition new_data_columns :: sdfits_data_columns where
  "new_data_columns =
     \<lparr>dc_time = Fin 0, dc_time_counter = 0, dc_integ_num = 0, dc_exposure = 0, dc_object = '''', dc_azimuth = 0,
      dc_elevation = 0, dc_bmaj = 0, dc_bmin = 0, dc_bpa = 0, dc_accumid = 0, dc_sttspec = 0, dc_stpspec = 0,
      dc_centre_freq_idx = 0, dc_centre_freq = replicate 8 (Fin 0), dc_ra = NaN, dc_dec = NaN, dc_data = [], dc_cal_on = 0\<rparr>"

record sdfits =
  basefilename :: string
  sd_filename :: string
  sd_N :: int
  sd_T :: dbl
  filenum :: int
  new_file :: int
  rownum :: int
  tot_rows :: int
  rows_per_file :: int
  sd_status :: nat
  fptr :: "string option"
  multifile :: int
  sd_hdr :: HdrInfo
  data_columns :: sdfits_data_columns

definition new_sdfits :: sdfits where
  "new_sdfits = \<lparr>basefilename = '''', sd_filename = '''', sd_N = 0, sd_T = Fin 0, filenum = 0, new_file = 0, rownum = 0,
     tot_rows = 0, rows_per_file = 0, sd_status = 0, fptr = None, multifile = 0, sd_hdr = new_HdrInfo,
     data_columns = new_data_columns\<rparr>"

type_synonym fits_files = "string \<rightharpoonup> fitsfile"

text \<open>
  The outcomes of the calls of one operation, the file the template gives with the numbers of its
  \<^verbatim>\<open>DATA\<close> and \<^verbatim>\<open>SUBFREQ\<close> columns, and the text of \<^verbatim>\<open>fits_get_system_time\<close>.
\<close>

record fits_env =
  fe_out :: "nat \<Rightarrow> nat"
  fe_template :: fitsfile
  fe_data_col :: nat
  fe_subfreq_col :: nat
  fe_date :: string

section \<open>Creation\<close>

definition strip_extension :: "string \<Rightarrow> string" where
  "strip_extension s =
     (let e = ''.sdfits'' in
      if length s \<ge> length e \<and> drop (length s - length e) s = e then take (length s - length e) s else s)"

definition finite_key :: "string \<Rightarrow> dbl \<Rightarrow> (fitsfile \<Rightarrow> fitsfile) list" where
  "finite_key k x = (if isfinite x then [update_key k (FDbl x)] else [])"

text \<open>The calls between the creation of the file and the search for the column numbers.\<close>

definition keyword_calls :: "HdrInfo \<Rightarrow> string \<Rightarrow> (fitsfile \<Rightarrow> fitsfile) list" where
  "keyword_calls h date =
     [no_change, no_change, update_key ''DATE'' (FStr date), no_change,
      update_key ''TELESCOP'' (FStr (h_telescope h)), update_key ''BANDWID'' (FDbl (h_bandwidth h)),
      update_key ''DATALAY'' (FStr ''PRODFAST''), update_key ''TUNIT20'' (FStr ''count''),
      update_key ''CALSTAT'' (FStr ''UNCALIBRATED''),
      update_key ''SRCSTATE'' (FStr (if h_source_on h then ''ON'' else ''OFF'')),
      update_key ''TCAL'' FNull, update_key ''FREQTYPE'' (FStr ''RF'')]
     @ finite_key ''SITELONG'' (h_site_lon h) @ finite_key ''SITELAT'' (h_site_lat h) @ finite_key ''SITEELEV'' (h_site_height h)
     @ [update_key ''DATE-OBS'' (FStr (h_date_obs h)), update_key ''MJD-OBS'' (FDbl (h_sttmjd h)),
        (if isfinite (h_tsys h) then update_key ''TSYS'' (FDbl (h_tsys h)) else update_key ''TSYS'' FNull),
        update_key ''PROJID'' (FStr (h_projid h)), update_key ''FRONTEND'' (FStr (h_frontend h)),
        update_key ''OBSFREQ'' (FDbl (h_obsfreq h)), update_key ''SCAN'' (FDbl (h_scan h)),
        update_key ''INSTRUME'' (FStr (h_instrument h)), update_key ''CAL_MODE'' (FStr (h_cal_mode h))]
     @ (if h_cal_mode h \<noteq> ''OFF''
        then [update_key ''CAL_FREQ'' FNull, update_key ''CAL_DCYC'' FNull, update_key ''CAL_PHS'' (FDbl (h_cal_phs h))] else [])
     @ [update_key ''NPOL'' (FInt (h_npol h)), update_key ''NCHAN'' (FInt (h_nchan h)), update_key ''CHAN_BW'' (FDbl (h_chan_bw h)),
        update_key ''NSUBBAND'' (FInt (h_nsubband h)), update_key ''EFSAMPFR'' (FDbl (h_efsampfr h)),
        update_key ''FPGACLK'' (FDbl (h_fpgaclk h)), update_key ''HWEXPOSR'' (FDbl (h_hwexposr h)),
        update_key ''FILTNEP'' (FDbl (h_filtnep h)), update_key ''STTMJD'' (FDbl (h_sttmjd h))]"

definition layout_calls :: "HdrInfo \<Rightarrow> nat \<Rightarrow> nat \<Rightarrow> (fitsfile \<Rightarrow> fitsfile) list" where
  "layout_calls h data_col subfreq_col =
     [modify_vector_len data_col (h_nsubband h * h_nchan h * h_npol h), modify_vector_len subfreq_col (h_nsubband h),
      update_key (''TDIM'' @ decimal data_col)
        (FStr (''('' @ int_text (h_npol h) @ '','' @ int_text (h_nsubband h) @ '','' @ int_text (h_nchan h) @ '',1,1)'')),
      no_change]"

text \<open>
  Call \<open>0\<close> creates the file from the template; the two searches for column numbers return early on an
  error. Without one the remaining calls set the layout.
\<close>

definition sdfits_create :: "fits_env \<Rightarrow> sdfits \<Rightarrow> fits_files \<Rightarrow> nat \<times> sdfits \<times> fits_files" where
  "sdfits_create env s fs =
     (let s = s\<lparr>new_file := (if new_file s = 1 then 0 else new_file s), rownum := 1, filenum := 1\<rparr>;
          name = strip_extension (basefilename s) @ ''.sdfits'';
          s = s\<lparr>sd_filename := take 209 name\<rparr>
      in if length name \<ge> 210 then (1, s, fs)
         else if fs name \<noteq> None then (1, s, fs)
         else if sd_status s > 0 then (sd_status s, s, fs)
         else if fe_out env 0 \<noteq> 0 then (fe_out env 0, s\<lparr>sd_status := fe_out env 0\<rparr>, fs)
         else
           let s = s\<lparr>fptr := Some name\<rparr>;
               kw = keyword_calls (sd_hdr s) (fe_date env);
               (st, f) = fits_calls (fe_out env) 1 (kw @ [no_change]) (0, fe_template env);
               (st, f) = (if st \<noteq> 0 then (st, f) else fits_calls (fe_out env) (2 + length kw) [no_change] (st, f));
               (st, f) = (if st \<noteq> 0 then (st, f)
                          else fits_calls (fe_out env) (3 + length kw) (layout_calls (sd_hdr s) (fe_data_col env) (fe_subfreq_col env)) (st, f))
           in (st, s\<lparr>sd_status := st\<rparr>, fs(name \<mapsto> f)))"

section \<open>Rows\<close>

text \<open>The float \<open>1.0\<close>.\<close>

definition float_one :: u32 where "float_one = 0x3f800000"

definition row_calls :: "HdrInfo \<Rightarrow> sdfits_data_columns \<Rightarrow> dbl \<Rightarrow> int \<Rightarrow> (fitsfile \<Rightarrow> fitsfile) list" where
  "row_calls h d first_freq row =
     [write_col 1 row (FDbl (dc_time d)), write_col 2 row (FInt (sint (ucast (dc_time_counter d) :: u32))),
      write_col 3 row (FInt (dc_integ_num d)), write_col 4 row (FFloat (dc_exposure d)), write_col 5 row (FStr (dc_object d)),
      write_col 6 row (FFloat (dc_azimuth d)), write_col 7 row (FFloat (dc_elevation d)), write_col 8 row (FFloat (dc_bmaj d)),
      write_col 9 row (FFloat (dc_bmin d)), write_col 10 row (FFloat (dc_bpa d)), write_col 11 row (FInt (dc_accumid d)),
      write_col 12 row (FInt (dc_sttspec d)), write_col 13 row (FInt (dc_stpspec d)),
      write_col 14 row (FDbls (take (nat (h_nsubband h)) (dc_centre_freq d))), write_col 15 row (FFloat (dc_centre_freq_idx d)),
      write_col 16 row (FDbl first_freq), write_col 17 row (FDbl (h_chan_bw h)), write_col 18 row (FDbl (dc_ra d)),
      write_col 19 row (FDbl (dc_dec d)),
      write_col 20 row (FFloats (take (nat (h_nchan h * h_nsubband h * h_npol h)) (dc_data d))),
      write_col 21 row (FInt (dc_cal_on d))]
     @ (if row mod 8 = 0 then [no_change] else [])"

text \<open>
  Rotation is off (\<^verbatim>\<open>multifile\<close> stays \<open>0\<close>), so the file is created here only when \<^verbatim>\<open>new_file\<close> is still set; its
  calls then come first. Writing through a null file pointer is undefined; a writer in use has a file.
\<close>

definition first_frequency :: "fpu \<Rightarrow> HdrInfo \<Rightarrow> dbl" where
  "first_frequency fp h =
     dbl_sub (fl fp) (h_obsfreq h) (dbl_mul (fl fp) (dbl_mul (fl fp) (Fin (1 / 2)) (Fin (of_int (h_nchan h)))) (h_chan_bw h))"

definition sdfits_write_subint :: "fpu \<Rightarrow> (u32 \<Rightarrow> dbl) \<Rightarrow> fits_env \<Rightarrow> fits_env \<Rightarrow> sdfits \<Rightarrow> fits_files \<Rightarrow> nat \<times> sdfits \<times> fits_files" where
  "sdfits_write_subint fp dec32 cenv env s fs =
     (let (s, fs) = (if new_file s \<noteq> 0 \<or> multifile s = 1 \<and> rownum s > rows_per_file s
                     then (let s = (if new_file s = 0 then s\<lparr>sd_status := fst (fits_call (fe_out env 0) no_change (sd_status s, fe_template env))\<rparr> else s)
                           in snd (sdfits_create cenv s fs))
                     else (s, fs));
          row = rownum s;
          s = s\<lparr>data_columns := (data_columns s)\<lparr>dc_centre_freq_idx := float_one\<rparr>\<rparr>
      in case fptr s of
           None \<Rightarrow> (sd_status s, s, fs)
         | Some name \<Rightarrow>
             (case fs name of
                None \<Rightarrow> (sd_status s, s, fs)
              | Some file \<Rightarrow>
                  let (st, file) = fits_calls (fe_out env) 1
                        (row_calls (sd_hdr s) (data_columns s) (first_frequency fp (sd_hdr s)) row) (sd_status s, file);
                      s = s\<lparr>sd_status := st\<rparr>;
                      s = (if st = 0 then s\<lparr>rownum := rownum s + 1, tot_rows := tot_rows s + 1, sd_N := sd_N s + 1,
                                           sd_T := dbl_add (fl fp) (sd_T s) (dec32 (dc_exposure (data_columns s)))\<rparr> else s)
                  in (st, s, fs(name \<mapsto> file))))"

definition sdfits_close :: "fits_env \<Rightarrow> sdfits \<Rightarrow> nat \<times> sdfits" where
  "sdfits_close env s =
     (let s = s\<lparr>sd_status := 0\<rparr> in
      if fptr s = None then (0, s)
      else let st = fe_out env 0 in (st, s\<lparr>sd_status := st, fptr := None\<rparr>))"

end
