(* ===== verification/Local_Sdfits_Writer.thy ===== *)
theory Local_Sdfits_Writer
  imports Config_Reader Sdfits
begin

text \<open>
  The local SDFITS sink of \<^verbatim>\<open>src/LocalSdfitsWriter.cpp\<close> with the metadata of \<^verbatim>\<open>include/SdfitsMetadata.hpp\<close>: results
  are queued by the sending threads and written by one worker, one file for each band. The mutex makes a
  critical section one step; the worker writes a job outside of it. An exception in the worker ends the
  process, so a step that throws has no successor.
\<close>

section \<open>Metadata\<close>

text \<open>Decoding of the bit patterns of \<^verbatim>\<open>double\<close> and \<^verbatim>\<open>float\<close> header members.\<close>

record decoder =
  dec64 :: "u64 \<Rightarrow> dbl"
  dec32 :: "u32 \<Rightarrow> dbl"

definition name_key :: "yaml_conv \<Rightarrow> yaml \<Rightarrow> string \<Rightarrow> string \<Rightarrow> string result" where
  "name_key cv meta key old =
     bind_result (get meta key) (\<lambda>m.
       case m of
         None \<Rightarrow> Inr old
       | Some v \<Rightarrow>
           bind_result (convert (as_string cv) (Some v)) (\<lambda>value.
           check (value \<noteq> '''' \<and> length value < 16) (''sdfits_metadata.'' @ key @ '' must contain 1-15 characters'') (Inr value)))"

definition present :: "yaml \<Rightarrow> string \<Rightarrow> bool" where
  "present n key \<longleftrightarrow> (case get n key of Inr (Some _) \<Rightarrow> True | _ \<Rightarrow> False)"

definition outside :: "real \<Rightarrow> dbl \<Rightarrow> bool" where
  "outside limit x \<longleftrightarrow> \<not> isfinite x \<or> dbl_less (Fin limit) (dbl_abs x)"

definition configure_sdfits_metadata :: "fpu \<Rightarrow> yaml_conv \<Rightarrow> yaml option \<Rightarrow> string \<Rightarrow> bool \<Rightarrow> bool \<Rightarrow> sdfits \<Rightarrow> sdfits result" where
  "configure_sdfits_metadata fp cv meta object mode source_on s =
     check (length object < 16) ''SDFITS OBJECT exceeds 15 characters'' (
     let h = (sd_hdr s)\<lparr>h_telescope := ''NSRT'', h_instrument := ''7mm'', h_cal_mode := (if mode then ''SYNC'' else ''OFF''),
               h_bandwidth := dbl_mul (fl fp) (dbl_abs (h_chan_bw (sd_hdr s))) (Fin (of_int (h_nchan (sd_hdr s)))), h_source_on := source_on\<rparr>;
         d = (data_columns s)\<lparr>dc_object := (if object = '''' then ''UNKNOWN'' else object)\<rparr>
     in case meta of
          None \<Rightarrow> Inr (s\<lparr>sd_hdr := h, data_columns := d\<rparr>)
        | Some YNull \<Rightarrow> Inr (s\<lparr>sd_hdr := h, data_columns := d\<rparr>)
        | Some m \<Rightarrow>
            check (is_map m) ''sdfits_metadata must be a mapping'' (
            bind_result (name_key cv m ''telescope'' (h_telescope h)) (\<lambda>telescope.
            bind_result (name_key cv m ''instrument'' (h_instrument h)) (\<lambda>instrument.
            bind_result (optional (as_double cv) m ''site_lon_deg'' (h_site_lon h)) (\<lambda>lon.
            bind_result (optional (as_double cv) m ''site_lat_deg'' (h_site_lat h)) (\<lambda>lat.
            bind_result (optional (as_double cv) m ''site_height_m'' (h_site_height h)) (\<lambda>height.
            check (\<not> (present m ''site_lon_deg'' \<and> outside 180 lon)) ''site_lon_deg must be in [-180,180]'' (
            check (\<not> (present m ''site_lat_deg'' \<and> outside 90 lat)) ''site_lat_deg must be in [-90,90]'' (
            check (\<not> (present m ''site_height_m'' \<and> \<not> isfinite height)) ''site_height_m must be finite'' (
            bind_result (optional (as_double cv) m ''ra_deg'' (dc_ra d)) (\<lambda>right_ascension.
            bind_result (optional (as_double cv) m ''dec_deg'' (dc_dec d)) (\<lambda>declination.
            check (\<not> (present m ''ra_deg'' \<and> (\<not> isfinite right_ascension \<or> dbl_less right_ascension (Fin 0) \<or> dbl_le (Fin 360) right_ascension)))
              ''sdfits_metadata.ra_deg must be in [0,360)'' (
            check (\<not> (present m ''dec_deg'' \<and> outside 90 declination)) ''sdfits_metadata.dec_deg must be in [-90,90]''
              (Inr (s\<lparr>sd_hdr := h\<lparr>h_telescope := telescope, h_instrument := instrument, h_site_lon := lon, h_site_lat := lat,
                                h_site_height := height\<rparr>,
                     data_columns := d\<lparr>dc_ra := right_ascension, dc_dec := declination\<rparr>\<rparr>)))))))))))))))"

section \<open>File names\<close>

text \<open>The conversion \<^verbatim>\<open>%.2f\<close>: the exact value to the nearest hundredth, halfway cases to the even one.\<close>

definition round_even :: "real \<Rightarrow> int" where
  "round_even x =
     (let n = \<lfloor>x\<rfloor>; r = x - of_int n
      in if r < 1 / 2 then n else if r > 1 / 2 then n + 1 else if even n then n else n + 1)"

fun fixed2 :: "dbl \<Rightarrow> string" where
  "fixed2 (Fin x) =
     (let n = nat (round_even (100 * \<bar>x\<bar>))
      in (if x < 0 then ''-'' else '''') @ decimal (n div 100) @ ''.'' @ zero_pad 2 (decimal (n mod 100)))"
| "fixed2 PInf = ''inf''"
| "fixed2 MInf = ''-inf''"
| "fixed2 NaN = ''nan''"

definition stop_freq_hz :: "fpu \<Rightarrow> decoder \<Rightarrow> spectrum_header \<Rightarrow> dbl" where
  "stop_freq_hz fp dc h =
     dbl_add (fl fp) (dec64 dc (start_freq_hz h)) (dbl_mul (fl fp) (dec64 dc (channel_bw_hz h)) (Fin (of_nat (unat (n_channels h)))))"

definition band_file_name :: "fpu \<Rightarrow> decoder \<Rightarrow> string \<Rightarrow> bool \<Rightarrow> spectrum_header \<Rightarrow> string" where
  "band_file_name fp dc folder source_on h =
     folder @ ''/sb'' @ zero_pad 2 (decimal (unat (subband_id h))) @ ''_w'' @ decimal (unat (window_id h)) @ ''_''
       @ fixed2 (dbl_div (fl fp) (dec64 dc (start_freq_hz h)) (Fin 1000000)) @ ''-''
       @ fixed2 (dbl_div (fl fp) (stop_freq_hz fp dc h) (Fin 1000000)) @ ''MHz_''
       @ (if beam_id h = 0 then ''A'' else ''B'') @ ''_'' @ (if source_on then ''ON'' else ''OFF'') @ ''_''
       @ decimal (unat (n_channels h))"

section \<open>The sink\<close>

record Job =
  job_header :: spectrum_header
  job_data :: "u32 list"

record BandKey =
  k_subband_id :: u16
  k_window_id :: u16
  k_beam_id :: u8
  k_start_freq_hz :: dbl
  k_channel_bw_hz :: dbl
  k_n_channels :: u32

text \<open>A NaN differs from every value. The hash only selects a bucket.\<close>

definition dbl_eq :: "dbl \<Rightarrow> dbl \<Rightarrow> bool" where
  "dbl_eq x y \<longleftrightarrow> x = y \<and> x \<noteq> NaN"

definition band_eq :: "BandKey \<Rightarrow> BandKey \<Rightarrow> bool" where
  "band_eq a b \<longleftrightarrow> k_subband_id a = k_subband_id b \<and> k_window_id a = k_window_id b \<and> k_beam_id a = k_beam_id b
     \<and> dbl_eq (k_start_freq_hz a) (k_start_freq_hz b) \<and> dbl_eq (k_channel_bw_hz a) (k_channel_bw_hz b)
     \<and> k_n_channels a = k_n_channels b"

definition band_key :: "decoder \<Rightarrow> spectrum_header \<Rightarrow> BandKey" where
  "band_key dc h = \<lparr>k_subband_id = subband_id h, k_window_id = window_id h, k_beam_id = beam_id h,
     k_start_freq_hz = dec64 dc (start_freq_hz h), k_channel_bw_hz = dec64 dc (channel_bw_hz h), k_n_channels = n_channels h\<rparr>"

text \<open>Phases of the worker thread.\<close>

datatype worker = Not_started | Waiting | Writing Job | Finished

record LocalSdfitsWriter =
  lw_enabled :: bool
  lw_stopping :: bool
  lw_output_folder :: string
  lw_max_queue_bytes :: u64
  lw_queued_bytes :: u64
  lw_queue :: "Job list"
  lw_worker :: worker
  lw_writers :: "(BandKey \<times> sdfits) list"

definition new_LocalSdfitsWriter :: LocalSdfitsWriter where
  "new_LocalSdfitsWriter = \<lparr>lw_enabled = False, lw_stopping = False, lw_output_folder = '''', lw_max_queue_bytes = 0,
     lw_queued_bytes = 0, lw_queue = [], lw_worker = Not_started, lw_writers = []\<rparr>"

definition configure :: "dir_env \<Rightarrow> bool \<Rightarrow> string \<Rightarrow> u64 \<Rightarrow> LocalSdfitsWriter \<Rightarrow> LocalSdfitsWriter result" where
  "configure env enabled folder max_bytes w =
     (if \<not> enabled then Inr w
      else
        check (\<not> lw_enabled w) ''LocalSdfitsWriter is already configured'' (
        check (folder \<noteq> '''') ''Local SDFITS output folder is empty'' (
        check (max_bytes \<noteq> 0) ''Local SDFITS queue size must be greater than zero'' (
        create_directories env folder
          (Inr (w\<lparr>lw_output_folder := folder, lw_max_queue_bytes := max_bytes, lw_stopping := False, lw_enabled := True,
                  lw_worker := Waiting\<rparr>))))))"

text \<open>The floats of a payload.\<close>

fun floats_of :: "bytes \<Rightarrow> u32 list" where
  "floats_of (a # b # c # d # p) = of_le [a, b, c, d] # floats_of p"
| "floats_of _ = []"

definition enqueue :: "spectrum_header \<Rightarrow> bytes option \<Rightarrow> LocalSdfitsWriter \<Rightarrow> bool \<times> LocalSdfitsWriter" where
  "enqueue header source w =
     (if \<not> lw_enabled w then (True, w)
      else
        case source of
          None \<Rightarrow> (False, w)
        | Some p \<Rightarrow>
            if length p = 0 \<or> length p mod 4 \<noteq> 0 then (False, w)
            else if lw_stopping w \<or> lw_queued_bytes w + of_nat (length p) > lw_max_queue_bytes w then (False, w)
            else (True, w\<lparr>lw_queued_bytes := lw_queued_bytes w + of_nat (length p),
                           lw_queue := lw_queue w @ [\<lparr>job_header = header, job_data = floats_of p\<rparr>]\<rparr>))"

section \<open>Files of the worker\<close>

text \<open>A pointer to a writer is its position in the list of entries.\<close>

fun find_writer :: "BandKey \<Rightarrow> (BandKey \<times> sdfits) list \<Rightarrow> nat option" where
  "find_writer key [] = None"
| "find_writer key ((k, s) # ws) = (if band_eq k key then Some 0 else map_option Suc (find_writer key ws))"

definition new_band_writer :: "fpu \<Rightarrow> (real \<Rightarrow> real) \<Rightarrow> decoder \<Rightarrow> spectrum_header \<Rightarrow> string \<Rightarrow> string \<Rightarrow> sdfits" where
  "new_band_writer fp xl dc h name date =
     new_sdfits\<lparr>new_file := 1, basefilename := name,
       sd_hdr := new_HdrInfo\<lparr>h_nchan := int (unat (n_channels h)), h_date_obs := date,
         h_sttmjd := unix_ns_to_mjd fp xl (integration_start_ns h), h_hwexposr := dec32 dc (exposure h),
         h_chan_bw := dec64 dc (channel_bw_hz h),
         h_obsfreq := dbl_add (fl fp) (dec64 dc (start_freq_hz h))
           (dbl_div (fl fp) (dbl_mul (fl fp) (dec64 dc (channel_bw_hz h)) (Fin (of_nat (unat (n_channels h))))) (Fin 2)),
         h_nsubband := 1, h_npol := 4\<rparr>\<rparr>"

text \<open>\<open>None\<close> in the result is the null pointer.\<close>

definition get_or_create_writer :: "fpu \<Rightarrow> (real \<Rightarrow> real) \<Rightarrow> decoder \<Rightarrow> yaml_conv \<Rightarrow> GlobalConfig \<Rightarrow> yaml option \<Rightarrow> fits_env \<Rightarrow>
    spectrum_header \<Rightarrow> LocalSdfitsWriter \<Rightarrow> fits_files \<Rightarrow> (nat option \<times> LocalSdfitsWriter \<times> fits_files) result" where
  "get_or_create_writer fp xl dc cv cfg meta env h w fs =
     (let key = band_key dc h in
      case find_writer key (lw_writers w) of
        Some i \<Rightarrow> Inr (Some i, w, fs)
      | None \<Rightarrow>
          let name = band_file_name fp dc (lw_output_folder w) (cfg_source_on cfg) h in
          if length name \<ge> 200 then Inr (None, w, fs)
          else
            case format_fits_utc (integration_start_ns h) 32 of
              None \<Rightarrow> Inr (None, w, fs)
            | Some date \<Rightarrow>
                bind_result (configure_sdfits_metadata fp cv meta (cfg_object cfg) (spectrum_header.cal_mode h \<noteq> 0) (cfg_source_on cfg)
                    (new_band_writer fp xl dc h name date)) (\<lambda>s.
                  case sdfits_create env s fs of
                    (status, s, fs) \<Rightarrow>
                      if status \<noteq> 0 then Inr (None, w, fs)
                      else Inr (Some (length (lw_writers w)), w\<lparr>lw_writers := lw_writers w @ [(key, s)]\<rparr>, fs)))"

text \<open>The columns of a row; a null data pointer is the empty list.\<close>

definition job_columns :: "fpu \<Rightarrow> (real \<Rightarrow> real) \<Rightarrow> Job \<Rightarrow> sdfits \<Rightarrow> sdfits" where
  "job_columns fp xl j s =
     s\<lparr>data_columns := (data_columns s)\<lparr>dc_data := job_data j, dc_cal_on := int (unat (noise_state (job_header j))),
         dc_integ_num := sint (integration_id (job_header j)),
         dc_centre_freq := (dc_centre_freq (data_columns s))[0 := h_obsfreq (sd_hdr s)],
         dc_time := unix_ns_to_mjd fp xl (integration_start_ns (job_header j)), dc_exposure := exposure (job_header j)\<rparr>\<rparr>"

definition write_job :: "fpu \<Rightarrow> (real \<Rightarrow> real) \<Rightarrow> decoder \<Rightarrow> yaml_conv \<Rightarrow> GlobalConfig \<Rightarrow> yaml option \<Rightarrow> fits_env \<Rightarrow> fits_env \<Rightarrow>
    Job \<Rightarrow> LocalSdfitsWriter \<Rightarrow> fits_files \<Rightarrow> (LocalSdfitsWriter \<times> fits_files) result" where
  "write_job fp xl dc cv cfg meta cenv env j w fs =
     bind_result (get_or_create_writer fp xl dc cv cfg meta cenv (job_header j) w fs) (\<lambda>(writer, w, fs).
       case writer of
         None \<Rightarrow> Inr (w, fs)
       | Some i \<Rightarrow>
           case sdfits_write_subint fp (dec32 dc) cenv env (job_columns fp xl j (snd (lw_writers w ! i))) fs of
             (status, s, fs) \<Rightarrow>
               Inr (w\<lparr>lw_writers := (lw_writers w)[i := (fst (lw_writers w ! i), s\<lparr>data_columns := (data_columns s)\<lparr>dc_data := []\<rparr>\<rparr>)]\<rparr>, fs))"

section \<open>The worker thread\<close>

text \<open>The critical section of \<^verbatim>\<open>run\<close>, once the condition it waits for holds.\<close>

definition take_job :: "LocalSdfitsWriter \<Rightarrow> LocalSdfitsWriter option" where
  "take_job w =
     (case lw_queue w of
        [] \<Rightarrow> None
      | j # js \<Rightarrow> Some (w\<lparr>lw_queued_bytes := lw_queued_bytes w - of_nat (length (job_data j)) * 4, lw_queue := js,
                         lw_worker := Writing j\<rparr>))"

definition finish :: "(string \<Rightarrow> fits_env) \<Rightarrow> LocalSdfitsWriter \<Rightarrow> (nat \<times> sdfits) list \<times> LocalSdfitsWriter" where
  "finish env w =
     (map (\<lambda>(k, s). sdfits_close (env (sd_filename s)) s) (lw_writers w), w\<lparr>lw_writers := [], lw_worker := Finished\<rparr>)"

text \<open>The two halves of \<^verbatim>\<open>shutdown\<close>, around the join.\<close>

definition shutdown_request :: "LocalSdfitsWriter \<Rightarrow> LocalSdfitsWriter" where
  "shutdown_request w = (if \<not> lw_enabled w then w else w\<lparr>lw_stopping := True\<rparr>)"

definition shutdown_joined :: "LocalSdfitsWriter \<Rightarrow> LocalSdfitsWriter" where
  "shutdown_joined w = w\<lparr>lw_enabled := False\<rparr>"


section \<open>Executions\<close>

text \<open>
  The sink together with the files, and two histories: the jobs that were queued and those the worker has gone
  through. The threads interleave at critical sections; the outcomes of CFITSIO are arbitrary. No object
  has more than half the address space.
\<close>

record sink =
  sk_writer :: LocalSdfitsWriter
  sk_files :: fits_files
  sk_accepted :: "Job list"
  sk_written :: "Job list"

inductive sink_step :: "fpu \<Rightarrow> (real \<Rightarrow> real) \<Rightarrow> decoder \<Rightarrow> yaml_conv \<Rightarrow> GlobalConfig \<Rightarrow> yaml option \<Rightarrow> sink \<Rightarrow> sink \<Rightarrow> bool"
  for fp xl dc cv cfg meta where
  sink_enqueue: "enqueue h source (sk_writer k) = (ok, w) \<Longrightarrow> (\<And>p. source = Some p \<Longrightarrow> length p < 2 ^ 63) \<Longrightarrow>
     sink_step fp xl dc cv cfg meta k
       (k\<lparr>sk_writer := w, sk_accepted := sk_accepted k @ drop (length (lw_queue (sk_writer k))) (lw_queue w)\<rparr>)"
| sink_take: "lw_worker (sk_writer k) = Waiting \<Longrightarrow> take_job (sk_writer k) = Some w \<Longrightarrow>
     sink_step fp xl dc cv cfg meta k (k\<lparr>sk_writer := w\<rparr>)"
| sink_write: "lw_worker (sk_writer k) = Writing j \<Longrightarrow>
     write_job fp xl dc cv cfg meta cenv env j (sk_writer k) (sk_files k) = Inr (w, fs) \<Longrightarrow>
     sink_step fp xl dc cv cfg meta k
       (k\<lparr>sk_writer := w\<lparr>lw_worker := Waiting\<rparr>, sk_files := fs, sk_written := sk_written k @ [j]\<rparr>)"
| sink_finish: "lw_worker (sk_writer k) = Waiting \<Longrightarrow> lw_queue (sk_writer k) = [] \<Longrightarrow> lw_stopping (sk_writer k) \<Longrightarrow>
     sink_step fp xl dc cv cfg meta k (k\<lparr>sk_writer := snd (finish cl (sk_writer k))\<rparr>)"
| sink_request: "sink_step fp xl dc cv cfg meta k (k\<lparr>sk_writer := shutdown_request (sk_writer k)\<rparr>)"
| sink_joined: "lw_worker (sk_writer k) = Finished \<Longrightarrow>
     sink_step fp xl dc cv cfg meta k (k\<lparr>sk_writer := shutdown_joined (sk_writer k)\<rparr>)"

inductive sink_reachable :: "fpu \<Rightarrow> (real \<Rightarrow> real) \<Rightarrow> decoder \<Rightarrow> yaml_conv \<Rightarrow> GlobalConfig \<Rightarrow> yaml option \<Rightarrow> u64 \<Rightarrow> sink \<Rightarrow> bool"
  for fp xl dc cv cfg meta max_bytes where
  sink_configured: "configure env True folder max_bytes new_LocalSdfitsWriter = Inr w \<Longrightarrow>
     sink_reachable fp xl dc cv cfg meta max_bytes \<lparr>sk_writer = w, sk_files = fs, sk_accepted = [], sk_written = []\<rparr>"
| sink_next: "sink_reachable fp xl dc cv cfg meta max_bytes k \<Longrightarrow> sink_step fp xl dc cv cfg meta k k' \<Longrightarrow>
     sink_reachable fp xl dc cv cfg meta max_bytes k'"

section \<open>The queue\<close>

definition job_bytes :: "Job \<Rightarrow> nat" where
  "job_bytes j = 4 * length (job_data j)"

definition in_hand :: "LocalSdfitsWriter \<Rightarrow> Job list" where
  "in_hand w = (case lw_worker w of Writing j \<Rightarrow> [j] | _ \<Rightarrow> [])"

definition queue_inv :: "u64 \<Rightarrow> sink \<Rightarrow> bool" where
  "queue_inv max_bytes k \<longleftrightarrow>
     (let w = sk_writer k in
      lw_max_queue_bytes w = max_bytes \<and> sk_written k @ in_hand w @ lw_queue w = sk_accepted k
      \<and> unat (lw_queued_bytes w) = sum_list (map job_bytes (lw_queue w)) \<and> lw_queued_bytes w \<le> max_bytes
      \<and> (lw_worker w = Finished \<longrightarrow> lw_queue w = [] \<and> (lw_enabled w \<longrightarrow> lw_stopping w)))"

lemma length_floats_of: "length (floats_of p) = length p div 4"
  by (induction p rule: floats_of.induct) auto

lemma enqueue_cases:
  assumes "enqueue h source w = (ok, w')"
  shows "w' = w \<or> (\<exists>p. source = Some p \<and> lw_enabled w \<and> \<not> lw_stopping w \<and> length p mod 4 = 0
    \<and> lw_queued_bytes w + of_nat (length p) \<le> lw_max_queue_bytes w
    \<and> w' = w\<lparr>lw_queued_bytes := lw_queued_bytes w + of_nat (length p), lw_queue := lw_queue w @ [\<lparr>job_header = h, job_data = floats_of p\<rparr>]\<rparr>)"
proof (cases source)
  case None
  then show ?thesis using assms by (simp add: enqueue_def split: if_splits)
next
  case (Some p)
  show ?thesis
  proof (cases "\<not> lw_enabled w \<or> length p = 0 \<or> length p mod 4 \<noteq> 0 \<or> lw_stopping w \<or> lw_queued_bytes w + of_nat (length p) > lw_max_queue_bytes w")
    case True
    then show ?thesis using assms Some by (auto simp: enqueue_def split: if_splits)
  next
    case False
    then show ?thesis using assms Some by (auto simp: enqueue_def not_less split: if_splits)
  qed
qed

text \<open>What a call of \<^verbatim>\<open>get_or_create_writer\<close> does: an open file, no file, or a new one.\<close>

lemma get_or_create_cases:
  assumes "get_or_create_writer fp xl dc cv cfg meta env h w fs = Inr (r, w', fs')"
  shows "(\<exists>i. find_writer (band_key dc h) (lw_writers w) = Some i \<and> r = Some i \<and> w' = w \<and> fs' = fs)
    \<or> (find_writer (band_key dc h) (lw_writers w) = None \<and> r = None \<and> w' = w \<and> (fs' = fs \<or> (\<exists>s status s'. sdfits_create env s fs = (status, s', fs'))))
    \<or> (find_writer (band_key dc h) (lw_writers w) = None \<and> r = Some (length (lw_writers w)) \<and>
       (\<exists>s s' name date. configure_sdfits_metadata fp cv meta (cfg_object cfg) (spectrum_header.cal_mode h \<noteq> 0) (cfg_source_on cfg)
            (new_band_writer fp xl dc h name date) = Inr s
          \<and> sdfits_create env s fs = (0, s', fs') \<and> w' = w\<lparr>lw_writers := lw_writers w @ [(band_key dc h, s')]\<rparr>))"
proof (cases "find_writer (band_key dc h) (lw_writers w)")
  case None
  let ?name = "band_file_name fp dc (lw_output_folder w) (cfg_source_on cfg) h"
  show ?thesis
  proof (cases "length ?name \<ge> 200 \<or> format_fits_utc (integration_start_ns h) 32 = None")
    case True
    then show ?thesis using assms None by (auto simp: get_or_create_writer_def Let_def split: if_splits option.splits)
  next
    case False
    then obtain date where d: "format_fits_utc (integration_start_ns h) 32 = Some date" by auto
    obtain s where c: "configure_sdfits_metadata fp cv meta (cfg_object cfg) (spectrum_header.cal_mode h \<noteq> 0) (cfg_source_on cfg)
            (new_band_writer fp xl dc h ?name date) = Inr s"
      using assms None False d by (auto simp: get_or_create_writer_def Let_def bind_result_Inr_iff)
    obtain status s' fs1 where s: "sdfits_create env s fs = (status, s', fs1)" by (cases "sdfits_create env s fs")
    have r: "(if status \<noteq> 0 then Inr (None, w, fs1)
                 else Inr (Some (length (lw_writers w)), w\<lparr>lw_writers := lw_writers w @ [(band_key dc h, s')]\<rparr>, fs1)) = (Inr (r, w', fs') :: _ result)"
      using assms None False d by (simp add: get_or_create_writer_def Let_def c s)
    show ?thesis
    proof (cases "status = 0")
      case True
      then show ?thesis using None c s r by auto
    next
      case False
      then show ?thesis using None s r by auto
    qed
  qed
qed (use assms in \<open>auto simp: get_or_create_writer_def Let_def\<close>)

lemma write_job_cases:
  assumes "write_job fp xl dc cv cfg meta cenv env j w fs = Inr (w', fs')"
  shows "\<exists>r w1 fs1. get_or_create_writer fp xl dc cv cfg meta cenv (job_header j) w fs = Inr (r, w1, fs1) \<and>
    (r = None \<and> w' = w1 \<and> fs' = fs1 \<or>
     (\<exists>i status s. r = Some i \<and> sdfits_write_subint fp (dec32 dc) cenv env (job_columns fp xl j (snd (lw_writers w1 ! i))) fs1 = (status, s, fs')
        \<and> w' = w1\<lparr>lw_writers := (lw_writers w1)[i := (fst (lw_writers w1 ! i), s\<lparr>data_columns := (data_columns s)\<lparr>dc_data := []\<rparr>\<rparr>)]\<rparr>))"
proof -
  obtain r w1 fs1 where g: "get_or_create_writer fp xl dc cv cfg meta cenv (job_header j) w fs = Inr (r, w1, fs1)"
    using assms by (auto simp: write_job_def bind_result_Inr_iff)
  then show ?thesis using assms by (cases r) (auto simp: write_job_def split: prod.splits)
qed

lemma write_job_keeps:
  assumes "write_job fp xl dc cv cfg meta cenv env j w fs = Inr (w', fs')"
  shows "\<exists>ws. w' = w\<lparr>lw_writers := ws\<rparr>"
proof -
  obtain r w1 fs1 where g: "get_or_create_writer fp xl dc cv cfg meta cenv (job_header j) w fs = Inr (r, w1, fs1)"
      and w': "w' = w1 \<or> (\<exists>ws. w' = w1\<lparr>lw_writers := ws\<rparr>)" using write_job_cases [OF assms] by blast
  have self: "\<exists>ws. w = w\<lparr>lw_writers := ws\<rparr>" by (rule exI [of _ "lw_writers w"]) simp
  have "w1 = w \<or> (\<exists>ws. w1 = w\<lparr>lw_writers := ws\<rparr>)" using get_or_create_cases [OF g] by blast
  then obtain ws where "w1 = w\<lparr>lw_writers := ws\<rparr>" using self by blast
  then show ?thesis using w' by auto
qed

lemma queue_inv_step:
  assumes "sink_step fp xl dc cv cfg meta k k'" "queue_inv max_bytes k" "unat max_bytes < 2 ^ 63"
  shows "queue_inv max_bytes k'"
  using assms(1)
proof cases
  case (sink_enqueue h source ok w)
  show ?thesis
  proof (cases "w = sk_writer k")
    case True
    then show ?thesis using assms(2) sink_enqueue(1) by (simp add: queue_inv_def)
  next
    case False
    then obtain p where 2: "source = Some p" "lw_enabled (sk_writer k)" "\<not> lw_stopping (sk_writer k)" "length p mod 4 = 0"
        "lw_queued_bytes (sk_writer k) + of_nat (length p) \<le> lw_max_queue_bytes (sk_writer k)"
        "w = (sk_writer k)\<lparr>lw_queued_bytes := lw_queued_bytes (sk_writer k) + of_nat (length p),
           lw_queue := lw_queue (sk_writer k) @ [\<lparr>job_header = h, job_data = floats_of p\<rparr>]\<rparr>"
      using enqueue_cases [OF sink_enqueue(2)] by (elim disjE exE conjE) simp_all
    have small: "unat (lw_queued_bytes (sk_writer k)) < 2 ^ 63" "length p < 2 ^ 63"
      using assms(2,3) sink_enqueue(3) [OF 2(1)] by (auto simp: queue_inv_def Let_def word_le_nat_alt)
    have len: "unat (of_nat (length p) :: u64) = length p" using small(2) by (simp add: unat_of_nat)
    have "unat (lw_queued_bytes (sk_writer k) + of_nat (length p)) = unat (lw_queued_bytes (sk_writer k)) + length p"
      using small len by (subst unat_add_exact) simp_all
    moreover have "length p = 4 * (length p div 4)" using 2(4) by auto
    moreover have "lw_worker (sk_writer k) \<noteq> Finished" using assms(2) 2(2,3) by (auto simp: queue_inv_def Let_def)
    ultimately show ?thesis using assms(2) 2 sink_enqueue(1)
      by (auto simp: queue_inv_def Let_def in_hand_def job_bytes_def length_floats_of split: worker.splits)
  qed
next
  case (sink_take w)
  then obtain j js where q: "lw_queue (sk_writer k) = j # js"
      and w: "w = (sk_writer k)\<lparr>lw_queued_bytes := lw_queued_bytes (sk_writer k) - of_nat (length (job_data j)) * 4, lw_queue := js, lw_worker := Writing j\<rparr>"
    by (auto simp: take_job_def split: list.splits)
  let ?b = "lw_queued_bytes (sk_writer k)"
  have b: "unat ?b = job_bytes j + sum_list (map job_bytes js)" "unat ?b < 2 ^ 63" "?b \<le> max_bytes"
    using assms(2,3) q by (auto simp: queue_inv_def Let_def word_le_nat_alt)
  have len: "unat (of_nat (length (job_data j)) * 4 :: u64) = job_bytes j"
    using b(1,2) by (simp add: job_bytes_def unat_of_nat unat_word_ariths)
  then have d: "unat (?b - of_nat (length (job_data j)) * 4) = sum_list (map job_bytes js)"
    using b(1) by (subst unat_sub_exact) simp_all
  have "?b - of_nat (length (job_data j)) * 4 \<le> max_bytes" using d b(1,3) by (simp add: word_le_nat_alt)
  then show ?thesis using assms(2) d q sink_take(1,2) by (simp add: queue_inv_def Let_def in_hand_def w)
next
  case (sink_write j cenv env w fs)
  then show ?thesis using assms(2) write_job_keeps [OF sink_write(3)] by (auto simp: queue_inv_def Let_def in_hand_def)
qed (use assms(2) in \<open>auto simp: queue_inv_def Let_def in_hand_def finish_def shutdown_request_def shutdown_joined_def split: worker.splits\<close>)

lemma reachable_queue_inv:
  "sink_reachable fp xl dc cv cfg meta max_bytes k \<Longrightarrow> unat max_bytes < 2 ^ 63 \<Longrightarrow> queue_inv max_bytes k"
proof (induction rule: sink_reachable.induct)
  case (sink_configured env folder w fs)
  then show ?case
    by (auto simp: configure_def check_Inr_iff create_directories_Inr_iff queue_inv_def new_LocalSdfitsWriter_def in_hand_def)
qed (auto intro: queue_inv_step)


section \<open>Calls of CFITSIO\<close>

lemma fits_calls_failed: "0 < st \<Longrightarrow> fits_calls out k fs (st, f) = (st, f)"
  by (induction fs arbitrary: k) (simp_all add: fits_call_def)

lemma fits_calls_ok:
  "fits_calls out k fs (st, f) = (0, f') \<Longrightarrow> st = 0 \<and> f' = fold (\<lambda>g. g) fs f"
proof (induction fs arbitrary: k st f)
  case (Cons g fs)
  then show ?case
    by (cases "st > 0"; cases "out k = 0") (auto simp: fits_call_def fits_calls_failed)
qed simp

lemma fits_calls_keep:
  assumes "\<And>g f. g \<in> set fs \<Longrightarrow> P f \<Longrightarrow> P (g f)" "P f"
  shows "P (snd (fits_calls out k fs (st, f)))"
  using assms
proof (induction fs arbitrary: k st f)
  case (Cons g fs)
  obtain st' f' where c: "fits_call (out k) g (st, f) = (st', f')" by (cases "fits_call (out k) g (st, f)")
  have "P f'" using c Cons.prems by (auto simp: fits_call_def split: if_splits)
  then show ?case using Cons.IH [of f' "k + 1" st'] Cons.prems(1) by (simp add: c)
qed simp

text \<open>A row of a file with the values of a job; \<open>n\<close> floats of its data.\<close>

definition row_holds :: "fpu \<Rightarrow> (real \<Rightarrow> real) \<Rightarrow> fitsfile \<Rightarrow> int \<Rightarrow> Job \<Rightarrow> bool" where
  "row_holds fp xl f row j \<longleftrightarrow>
     ff_cells f (1, row) = Some (FDbl (unix_ns_to_mjd fp xl (integration_start_ns (job_header j))))
     \<and> ff_cells f (3, row) = Some (FInt (sint (integration_id (job_header j))))
     \<and> ff_cells f (4, row) = Some (FFloat (exposure (job_header j)))
     \<and> ff_cells f (20, row) = Some (FFloats (take (4 * unat (n_channels (job_header j))) (job_data j)))
     \<and> ff_cells f (21, row) = Some (FInt (int (unat (noise_state (job_header j)))))"

lemma row_calls_other:
  assumes "g \<in> set (row_calls h d x row)" "r \<noteq> row"
  shows "ff_cells (g f) (c, r) = ff_cells f (c, r)"
  using assms by (auto simp: row_calls_def write_col_def no_change_def split: if_splits)

lemma row_calls_row:
  assumes "h_nchan h = int (unat (n_channels (job_header j)))" "h_nsubband h = 1" "h_npol h = 4"
    "dc_data d = job_data j" "dc_cal_on d = int (unat (noise_state (job_header j)))"
    "dc_integ_num d = sint (integration_id (job_header j))" "dc_exposure d = exposure (job_header j)"
    "dc_time d = unix_ns_to_mjd fp xl (integration_start_ns (job_header j))"
  shows "row_holds fp xl (fold (\<lambda>g. g) (row_calls h d x row) f) row j"
  using assms by (simp add: row_holds_def row_calls_def write_col_def no_change_def mult.commute nat_mult_distrib)

text \<open>The writer of a band that is open.\<close>

definition open_writer :: "BandKey \<Rightarrow> sdfits \<Rightarrow> bool" where
  "open_writer key s \<longleftrightarrow> new_file s = 0 \<and> multifile s = 0 \<and> fptr s = Some (sd_filename s)
     \<and> h_nchan (sd_hdr s) = int (unat (k_n_channels key)) \<and> h_nsubband (sd_hdr s) = 1 \<and> h_npol (sd_hdr s) = 4"

lemma write_subint_open:
  assumes "sdfits_write_subint fp d32 cenv env (job_columns fp xl j s) fs = (status, s', fs')"
    and "open_writer key s" "key = band_key dc (job_header j)" "fs (sd_filename s) = Some f"
  shows "\<exists>f'. fs' = fs(sd_filename s \<mapsto> f') \<and> open_writer key s' \<and> sd_filename s' = sd_filename s
    \<and> (\<forall>c r. r \<noteq> rownum s \<longrightarrow> ff_cells f' (c, r) = ff_cells f (c, r))
    \<and> (if sd_status s' = 0 then rownum s' = rownum s + 1 \<and> sd_status s = 0 \<and> row_holds fp xl f' (rownum s) j
       else rownum s' = rownum s)"
proof -
  let ?s = "job_columns fp xl j s"
  let ?d = "(data_columns ?s)\<lparr>dc_centre_freq_idx := float_one\<rparr>"
  let ?calls = "row_calls (sd_hdr s) ?d (first_frequency fp (sd_hdr s)) (rownum s)"
  obtain st f' where c: "fits_calls (fe_out env) 1 ?calls (sd_status s, f) = (st, f')"
    by (cases "fits_calls (fe_out env) 1 ?calls (sd_status s, f)")
  have o: "new_file s = 0" "multifile s = 0" "fptr s = Some (sd_filename s)" using assms(2) by (simp_all add: open_writer_def)
  have js: "new_file ?s = 0" "multifile ?s = 0" "fptr ?s = Some (sd_filename s)" "sd_hdr ?s = sd_hdr s" "rownum ?s = rownum s"
    "sd_status ?s = sd_status s" "sd_filename ?s = sd_filename s"
    using o by (simp_all add: job_columns_def)
  have r: "fs' = fs(sd_filename s \<mapsto> f')" "sd_status s' = st" "sd_filename s' = sd_filename s" "open_writer key s'"
    "rownum s' = (if st = 0 then rownum s + 1 else rownum s)"
    using assms(1,2,4) c by (auto simp: sdfits_write_subint_def Let_def js open_writer_def split: if_splits)
  have other: "\<forall>c r. r \<noteq> rownum s \<longrightarrow> ff_cells f' (c, r) = ff_cells f (c, r)"
    using fits_calls_keep [where P = "\<lambda>f'. \<forall>c r. r \<noteq> rownum s \<longrightarrow> ff_cells f' (c, r) = ff_cells f (c, r)" and fs = ?calls and f = f
        and out = "fe_out env" and k = 1 and st = "sd_status s"] row_calls_other c by fastforce
  have "row_holds fp xl f' (rownum s) j \<and> sd_status s = 0" if "st = 0"
  proof -
    have f': "sd_status s = 0" "f' = fold (\<lambda>g. g) ?calls f" using fits_calls_ok [of "fe_out env" 1 ?calls "sd_status s" f f'] c that by simp_all
    have "row_holds fp xl (fold (\<lambda>g. g) ?calls f) (rownum s) j"
      by (rule row_calls_row) (use assms(2,3) in \<open>simp_all add: open_writer_def band_key_def job_columns_def\<close>)
    then show ?thesis using f' by simp
  qed
  then show ?thesis using r other by auto
qed

lemma create_ok:
  assumes "sdfits_create env s fs = (0, s', fs')" "new_file s = 1"
  shows "\<exists>name f. fs name = None \<and> fs' = fs(name \<mapsto> f) \<and> sd_filename s' = name \<and> fptr s' = Some name \<and> new_file s' = 0
    \<and> rownum s' = 1 \<and> sd_status s' = 0 \<and> multifile s' = multifile s \<and> sd_hdr s' = sd_hdr s"
  using assms by (auto simp: sdfits_create_def Let_def split: if_splits prod.splits)

lemma create_new_name:
  assumes "sdfits_create env s fs = (status, s', fs')"
  shows "fs' = fs \<or> (\<exists>name f. fs name = None \<and> fs' = fs(name \<mapsto> f))"
  using assms by (auto simp: sdfits_create_def Let_def split: if_splits prod.splits)

lemma metadata_keeps:
  "gives (configure_sdfits_metadata fp cv meta obj mode src s)
     (\<lambda>s'. h_nchan (sd_hdr s') = h_nchan (sd_hdr s) \<and> h_nsubband (sd_hdr s') = h_nsubband (sd_hdr s) \<and> h_npol (sd_hdr s') = h_npol (sd_hdr s)
        \<and> new_file s' = new_file s \<and> multifile s' = multifile s)"
  unfolding configure_sdfits_metadata_def Let_def
  by (intro gives_check; cases meta; (cases "the meta")?; simp only: option.case yaml.case option.sel;
      intro gives_check gives_bind gives_Inr; simp)

section \<open>Files of the bands\<close>

text \<open>The jobs of a band, in the order the worker took them.\<close>

definition jobs_of :: "decoder \<Rightarrow> BandKey \<Rightarrow> Job list \<Rightarrow> Job list" where
  "jobs_of dc key js = filter (\<lambda>j. band_key dc (job_header j) = key) js"

text \<open>
  What an open file holds: the jobs of its band are some that came before it could be created, those stored in its
  rows, and, only once the status of CFITSIO is bad, some that came after.
\<close>

definition band_stored :: "fpu \<Rightarrow> (real \<Rightarrow> real) \<Rightarrow> decoder \<Rightarrow> fits_files \<Rightarrow> Job list \<Rightarrow> BandKey \<Rightarrow> sdfits \<Rightarrow> bool" where
  "band_stored fp xl dc fs js key s \<longleftrightarrow>
     (\<exists>f before stored lost. fs (sd_filename s) = Some f \<and> jobs_of dc key js = before @ stored @ lost
        \<and> rownum s = int (length stored) + 1 \<and> (sd_status s = 0 \<longrightarrow> lost = [])
        \<and> (\<forall>r < length stored. row_holds fp xl f (int r + 1) (stored ! r)))"

definition files_ok :: "fpu \<Rightarrow> (real \<Rightarrow> real) \<Rightarrow> decoder \<Rightarrow> (BandKey \<times> sdfits) list \<Rightarrow> fits_files \<Rightarrow> Job list \<Rightarrow> bool" where
  "files_ok fp xl dc ws fs js \<longleftrightarrow>
     distinct (map fst ws) \<and> distinct (map (sd_filename \<circ> snd) ws)
     \<and> (\<forall>i < length ws. open_writer (fst (ws ! i)) (snd (ws ! i)) \<and> band_stored fp xl dc fs js (fst (ws ! i)) (snd (ws ! i)))"

lemma band_eq_iff: "band_eq a b \<longleftrightarrow> a = b \<and> k_start_freq_hz b \<noteq> NaN \<and> k_channel_bw_hz b \<noteq> NaN"
  by (cases a; cases b) (auto simp: band_eq_def dbl_eq_def)

lemma find_writer_Some:
  "find_writer key ws = Some i \<Longrightarrow> i < length ws \<and> fst (ws ! i) = key"
  by (induction ws arbitrary: i) (auto simp: band_eq_iff split: if_splits)

lemma find_writer_None:
  "find_writer key ws = None \<Longrightarrow> k_start_freq_hz key \<noteq> NaN \<Longrightarrow> k_channel_bw_hz key \<noteq> NaN \<Longrightarrow> key \<notin> fst ` set ws"
  by (induction ws) (force simp: band_eq_iff split: if_splits)+

lemma band_stored_other:
  assumes "band_stored fp xl dc fs js key s" "band_key dc (job_header j) \<noteq> key" "fs' (sd_filename s) = fs (sd_filename s)"
  shows "band_stored fp xl dc fs' (js @ [j]) key s"
  using assms by (simp add: band_stored_def jobs_of_def)

lemma band_stored_frame:
  assumes "band_stored fp xl dc fs js key s" "fs' = fs \<or> (\<exists>name f. fs name = None \<and> fs' = fs(name \<mapsto> f))"
  shows "fs' (sd_filename s) = fs (sd_filename s)"
  using assms by (auto simp: band_stored_def)

lemma band_stored_new:
  assumes "fs (sd_filename s) = Some f" "rownum s = 1" "sd_status s = 0"
  shows "band_stored fp xl dc fs js key s"
  unfolding band_stored_def
  by (rule exI [of _ f], rule exI [of _ "jobs_of dc key js"], rule exI [of _ "[]"], rule exI [of _ "[]"]) (simp add: assms)

text \<open>A row written, or lost, for the band of the job.\<close>

lemma band_stored_row:
  assumes s: "band_stored fp xl dc fs js key s" and o: "open_writer key s" and key: "key = band_key dc (job_header j)"
    and w: "sdfits_write_subint fp d32 cenv env (job_columns fp xl j s) fs = (status, s', fs')"
  shows "open_writer key s' \<and> sd_filename s' = sd_filename s \<and> band_stored fp xl dc fs' (js @ [j]) key s'
    \<and> (\<forall>name. name \<noteq> sd_filename s \<longrightarrow> fs' name = fs name)"
proof -
  obtain f before stored lost where b: "fs (sd_filename s) = Some f" "jobs_of dc key js = before @ stored @ lost"
      "rownum s = int (length stored) + 1" "sd_status s = 0 \<longrightarrow> lost = []"
      "\<forall>r < length stored. row_holds fp xl f (int r + 1) (stored ! r)" using s unfolding band_stored_def by (elim exE conjE) (rule that)
  obtain f' where f': "fs' = fs(sd_filename s \<mapsto> f')" "open_writer key s'" "sd_filename s' = sd_filename s"
      "\<forall>c r. r \<noteq> rownum s \<longrightarrow> ff_cells f' (c, r) = ff_cells f (c, r)"
      "if sd_status s' = 0 then rownum s' = rownum s + 1 \<and> sd_status s = 0 \<and> row_holds fp xl f' (rownum s) j else rownum s' = rownum s"
    using write_subint_open [OF w o key b(1)] by (elim exE conjE) (rule that)
  have keep: "row_holds fp xl f' (int r + 1) (stored ! r)" if "r < length stored" for r
    using b(3,5) f'(4) that by (simp add: row_holds_def)
  have jobs: "jobs_of dc key (js @ [j]) = before @ stored @ lost @ [j]" using b(2) key by (simp add: jobs_of_def)
  have "band_stored fp xl dc fs' (js @ [j]) key s'"
  proof (cases "sd_status s' = 0")
    case True
    have "row_holds fp xl f' (int r + 1) ((stored @ [j]) ! r)" if "r < length (stored @ [j])" for r
      using that keep [of r] f'(5) True b(3) by (auto simp: nth_append less_Suc_eq)
    then have "\<forall>r < length (stored @ [j]). row_holds fp xl f' (int r + 1) ((stored @ [j]) ! r)" by blast
    moreover have "jobs_of dc key (js @ [j]) = before @ (stored @ [j]) @ []" using jobs b(4) f'(5) True by simp
    moreover have "rownum s' = int (length (stored @ [j])) + 1" using f'(5) True b(3) by simp
    ultimately show ?thesis using f'(1,3) unfolding band_stored_def by (metis fun_upd_same)
  next
    case False
    then have "rownum s' = int (length stored) + 1" using f'(5) b(3) by simp
    moreover have "\<forall>r < length stored. row_holds fp xl f' (int r + 1) (stored ! r)" using keep by blast
    ultimately show ?thesis using False jobs f'(1,3) unfolding band_stored_def by (metis fun_upd_same)
  qed
  then show ?thesis using f' by simp
qed

lemma files_ok_other:
  assumes "files_ok fp xl dc ws fs js" "band_key dc (job_header j) \<notin> fst ` set ws"
  shows "files_ok fp xl dc ws fs (js @ [j])"
proof -
  have "band_key dc (job_header j) \<noteq> fst (ws ! i)" if "i < length ws" for i using assms(2) that by (metis imageI nth_mem)
  then show ?thesis using assms(1) by (auto simp: files_ok_def intro: band_stored_other)
qed

lemma files_ok_frame:
  assumes "files_ok fp xl dc ws fs js" "fs' = fs \<or> (\<exists>name f. fs name = None \<and> fs' = fs(name \<mapsto> f))"
  shows "files_ok fp xl dc ws fs' js"
proof -
  have "band_stored fp xl dc fs' js key s" if "band_stored fp xl dc fs js key s" for key s
    using band_stored_frame [OF that assms(2)] that by (simp add: band_stored_def)
  then show ?thesis using assms(1) by (simp add: files_ok_def)
qed

lemma files_ok_new:
  assumes ok: "files_ok fp xl dc ws fs js" and fs': "fs' = fs(sd_filename s \<mapsto> f)" "fs (sd_filename s) = None"
    and o: "open_writer key s" and new: "rownum s = 1" "sd_status s = 0" and key: "key \<notin> fst ` set ws"
  shows "files_ok fp xl dc (ws @ [(key, s)]) fs' js"
proof -
  have old: "files_ok fp xl dc ws fs' js" by (rule files_ok_frame [OF ok]) (use fs' in blast)
  have "fs (sd_filename (snd (ws ! i))) \<noteq> None" if "i < length ws" for i
    using ok that by (auto simp: files_ok_def band_stored_def)
  then have "sd_filename s \<notin> set (map (sd_filename \<circ> snd) ws)" using fs'(2) by (fastforce simp: in_set_conv_nth)
  moreover have "band_stored fp xl dc fs' js key s" by (rule band_stored_new [OF _ new]) (simp add: fs')
  ultimately show ?thesis using old key o by (simp add: files_ok_def nth_append less_Suc_eq)
qed

lemma files_ok_row:
  assumes ok: "files_ok fp xl dc ws fs js" and i: "i < length ws" "fst (ws ! i) = band_key dc (job_header j)"
    and w: "sdfits_write_subint fp d32 cenv env (job_columns fp xl j (snd (ws ! i))) fs = (status, s, fs')"
  shows "files_ok fp xl dc (ws[i := (fst (ws ! i), s\<lparr>data_columns := d\<rparr>)]) fs' (js @ [j])"
proof -
  let ?s = "snd (ws ! i)" and ?key = "fst (ws ! i)"
  have "open_writer ?key ?s" "band_stored fp xl dc fs js ?key ?s" using ok i(1) by (auto simp: files_ok_def)
  then have row: "open_writer ?key s" "sd_filename s = sd_filename ?s" "band_stored fp xl dc fs' (js @ [j]) ?key s"
    "\<forall>name. name \<noteq> sd_filename ?s \<longrightarrow> fs' name = fs name" using band_stored_row [OF _ _ i(2) w] by blast+
  have same: "open_writer ?key (s\<lparr>data_columns := d\<rparr>)" "band_stored fp xl dc fs' (js @ [j]) ?key (s\<lparr>data_columns := d\<rparr>)"
    using row(1,3) by (simp_all add: open_writer_def band_stored_def)
  have other: "open_writer (fst (ws ! m)) (snd (ws ! m)) \<and> band_stored fp xl dc fs' (js @ [j]) (fst (ws ! m)) (snd (ws ! m))"
    if m: "m < length ws" "m \<noteq> i" for m
  proof -
    have d: "fst (ws ! m) \<noteq> ?key" "sd_filename (snd (ws ! m)) \<noteq> sd_filename ?s"
      using ok m i(1) by (auto simp: files_ok_def distinct_conv_nth)
    then show ?thesis using ok m(1) row(4) i(2) by (auto simp: files_ok_def intro!: band_stored_other)
  qed
  have keys: "map fst (ws[i := (?key, s\<lparr>data_columns := d\<rparr>)]) = map fst ws"
    and names: "map (sd_filename \<circ> snd) (ws[i := (?key, s\<lparr>data_columns := d\<rparr>)]) = map (sd_filename \<circ> snd) ws"
    using i(1) row(2) by (simp_all add: map_update list_update_same_conv)
  show ?thesis unfolding files_ok_def keys names
    using ok same other i(1) by (auto simp: files_ok_def nth_list_update)
qed

text \<open>The file of a job after \<^verbatim>\<open>get_or_create_writer\<close>.\<close>

lemma get_or_create_ok:
  assumes g: "get_or_create_writer fp xl dc cv cfg meta env h w fs = Inr (r, w', fs')"
    and ok: "files_ok fp xl dc (lw_writers w) fs js"
    and nan: "k_start_freq_hz (band_key dc h) \<noteq> NaN" "k_channel_bw_hz (band_key dc h) \<noteq> NaN"
  shows "files_ok fp xl dc (lw_writers w') fs' js"
    "case r of None \<Rightarrow> band_key dc h \<notin> fst ` set (lw_writers w')
     | Some i \<Rightarrow> i < length (lw_writers w') \<and> fst (lw_writers w' ! i) = band_key dc h"
proof -
  from get_or_create_cases [OF g]
  have "files_ok fp xl dc (lw_writers w') fs' js \<and> (case r of None \<Rightarrow> band_key dc h \<notin> fst ` set (lw_writers w')
     | Some i \<Rightarrow> i < length (lw_writers w') \<and> fst (lw_writers w' ! i) = band_key dc h)"
  proof (elim disjE)
    assume "\<exists>i. find_writer (band_key dc h) (lw_writers w) = Some i \<and> r = Some i \<and> w' = w \<and> fs' = fs"
    then show ?thesis using ok find_writer_Some by auto
  next
    assume a: "find_writer (band_key dc h) (lw_writers w) = None \<and> r = None \<and> w' = w \<and>
      (fs' = fs \<or> (\<exists>s status s'. sdfits_create env s fs = (status, s', fs')))"
    then have "fs' = fs \<or> (\<exists>name f. fs name = None \<and> fs' = fs(name \<mapsto> f))" using create_new_name by blast
    then show ?thesis using a files_ok_frame [OF ok] find_writer_None [OF _ nan] by auto
  next
    assume a: "find_writer (band_key dc h) (lw_writers w) = None \<and> r = Some (length (lw_writers w)) \<and>
       (\<exists>s s' name date. configure_sdfits_metadata fp cv meta (cfg_object cfg) (spectrum_header.cal_mode h \<noteq> 0) (cfg_source_on cfg)
            (new_band_writer fp xl dc h name date) = Inr s
          \<and> sdfits_create env s fs = (0, s', fs') \<and> w' = w\<lparr>lw_writers := lw_writers w @ [(band_key dc h, s')]\<rparr>)"
    then obtain s s' name date where
        c: "configure_sdfits_metadata fp cv meta (cfg_object cfg) (spectrum_header.cal_mode h \<noteq> 0) (cfg_source_on cfg)
            (new_band_writer fp xl dc h name date) = Inr s"
        and s: "sdfits_create env s fs = (0, s', fs')" and w': "w' = w\<lparr>lw_writers := lw_writers w @ [(band_key dc h, s')]\<rparr>" by blast
    have m: "h_nchan (sd_hdr s) = int (unat (n_channels h))" "h_nsubband (sd_hdr s) = 1" "h_npol (sd_hdr s) = 4" "new_file s = 1" "multifile s = 0"
      using givesD [OF metadata_keeps c] by (simp_all add: new_band_writer_def new_sdfits_def)
    obtain f where f: "fs (sd_filename s') = None" "fs' = fs(sd_filename s' \<mapsto> f)" "open_writer (band_key dc h) s'" "rownum s' = 1" "sd_status s' = 0"
      using create_ok [OF s m(4)] m by (auto simp: open_writer_def band_key_def)
    have "files_ok fp xl dc (lw_writers w @ [(band_key dc h, s')]) fs' js"
      by (rule files_ok_new [OF ok f(2,1,3,4,5)]) (use a find_writer_None [OF _ nan] in blast)
    then show ?thesis using a w' by simp
  qed
  then show "files_ok fp xl dc (lw_writers w') fs' js"
    "case r of None \<Rightarrow> band_key dc h \<notin> fst ` set (lw_writers w')
     | Some i \<Rightarrow> i < length (lw_writers w') \<and> fst (lw_writers w' ! i) = band_key dc h" by blast+
qed

lemma write_job_ok:
  assumes w: "write_job fp xl dc cv cfg meta cenv env j w fs = Inr (w', fs')"
    and ok: "files_ok fp xl dc (lw_writers w) fs js"
    and nan: "k_start_freq_hz (band_key dc (job_header j)) \<noteq> NaN" "k_channel_bw_hz (band_key dc (job_header j)) \<noteq> NaN"
  shows "files_ok fp xl dc (lw_writers w') fs' (js @ [j])"
proof -
  obtain r w1 fs1 where g: "get_or_create_writer fp xl dc cv cfg meta cenv (job_header j) w fs = Inr (r, w1, fs1)"
      and r: "r = None \<and> w' = w1 \<and> fs' = fs1 \<or>
     (\<exists>i status s. r = Some i \<and> sdfits_write_subint fp (dec32 dc) cenv env (job_columns fp xl j (snd (lw_writers w1 ! i))) fs1 = (status, s, fs')
        \<and> w' = w1\<lparr>lw_writers := (lw_writers w1)[i := (fst (lw_writers w1 ! i), s\<lparr>data_columns := (data_columns s)\<lparr>dc_data := []\<rparr>\<rparr>)]\<rparr>)"
    using write_job_cases [OF w] by blast
  note ok1 = get_or_create_ok [OF g ok nan]
  from r show ?thesis
  proof (elim disjE exE conjE)
    assume "r = None" "w' = w1" "fs' = fs1"
    then show ?thesis using files_ok_other [OF ok1(1)] ok1(2) by simp
  next
    fix i status s
    assume i: "r = Some i" "sdfits_write_subint fp (dec32 dc) cenv env (job_columns fp xl j (snd (lw_writers w1 ! i))) fs1 = (status, s, fs')"
      "w' = w1\<lparr>lw_writers := (lw_writers w1)[i := (fst (lw_writers w1 ! i), s\<lparr>data_columns := (data_columns s)\<lparr>dc_data := []\<rparr>\<rparr>)]\<rparr>"
    then show ?thesis using files_ok_row [OF ok1(1) _ _ i(2)] ok1(2) by simp
  qed
qed

lemma sink_step_accepted: "sink_step fp xl dc cv cfg meta k k' \<Longrightarrow> \<exists>js. sk_accepted k' = sk_accepted k @ js"
  by (cases rule: sink_step.cases) auto

lemma files_ok_step:
  assumes "sink_step fp xl dc cv cfg meta k k'" "queue_inv max_bytes k"
    and "files_ok fp xl dc (lw_writers (sk_writer k)) (sk_files k) (sk_written k)"
    and nan: "\<forall>j \<in> set (sk_accepted k). dec64 dc (start_freq_hz (job_header j)) \<noteq> NaN \<and> dec64 dc (channel_bw_hz (job_header j)) \<noteq> NaN"
  shows "files_ok fp xl dc (lw_writers (sk_writer k')) (sk_files k') (sk_written k')"
  using assms(1)
proof cases
  case (sink_enqueue h source ok w)
  have "lw_writers w = lw_writers (sk_writer k)" using enqueue_cases [OF sink_enqueue(2)] by auto
  then show ?thesis using assms(3) sink_enqueue(1) by simp
next
  case (sink_take w)
  then show ?thesis using assms(3) by (auto simp: take_job_def split: list.splits)
next
  case (sink_write j cenv env w fs)
  have "sk_accepted k = sk_written k @ j # lw_queue (sk_writer k)" using assms(2) sink_write(2) by (simp add: queue_inv_def in_hand_def Let_def)
  then have "j \<in> set (sk_accepted k)" by simp
  then have "files_ok fp xl dc (lw_writers w) fs (sk_written k @ [j])"
    by (intro write_job_ok [OF sink_write(3) assms(3)]) (use nan in \<open>auto simp: band_key_def\<close>)
  then show ?thesis using sink_write(1) by simp
next
  case (sink_finish cl)
  then show ?thesis by (simp add: finish_def files_ok_def)
qed (use assms(3) in \<open>simp_all add: shutdown_request_def shutdown_joined_def\<close>)

lemma reachable_files_ok:
  assumes "sink_reachable fp xl dc cv cfg meta max_bytes k" "unat max_bytes < 2 ^ 63"
    and "\<forall>j \<in> set (sk_accepted k). dec64 dc (start_freq_hz (job_header j)) \<noteq> NaN \<and> dec64 dc (channel_bw_hz (job_header j)) \<noteq> NaN"
  shows "files_ok fp xl dc (lw_writers (sk_writer k)) (sk_files k) (sk_written k)"
  using assms
proof (induction rule: sink_reachable.induct)
  case (sink_configured env folder w fs)
  then show ?case
    by (auto simp: configure_def check_Inr_iff create_directories_Inr_iff files_ok_def new_LocalSdfitsWriter_def)
next
  case (sink_next k k')
  obtain js where "sk_accepted k' = sk_accepted k @ js" using sink_step_accepted [OF sink_next(2)] by blast
  then have nan: "\<forall>j \<in> set (sk_accepted k). dec64 dc (start_freq_hz (job_header j)) \<noteq> NaN \<and> dec64 dc (channel_bw_hz (job_header j)) \<noteq> NaN"
    using sink_next(5) by auto
  show ?case
    by (rule files_ok_step [OF sink_next(2) reachable_queue_inv [OF sink_next(1,4)] sink_next(3) [OF sink_next(4) nan] nan])
qed

section \<open>Properties\<close>




section \<open>An execution\<close>

text \<open>One result of one channel, queued, taken and written.\<close>

definition demo_decoder :: decoder where
  "demo_decoder = \<lparr>dec64 = (\<lambda>_. Fin 0), dec32 = (\<lambda>_. Fin 0)\<rparr>"

definition demo_fits :: fits_env where
  "demo_fits = \<lparr>fe_out = (\<lambda>_. 0), fe_template = \<lparr>ff_keys = Map.empty, ff_veclen = Map.empty, ff_cells = Map.empty\<rparr>,
     fe_data_col = 20, fe_subfreq_col = 14, fe_date = ''2026-01-01T00:00:00''\<rparr>"

definition demo_job :: Job where
  "demo_job = \<lparr>job_header = zero_header\<lparr>n_channels := 1\<rparr>, job_data = [1, 2, 3, 4]\<rparr>"

definition demo_local :: LocalSdfitsWriter where
  "demo_local = new_LocalSdfitsWriter\<lparr>lw_output_folder := ''/data'', lw_max_queue_bytes := 1024, lw_enabled := True, lw_worker := Waiting\<rparr>"

lemma fits_calls_zero: "fits_calls (\<lambda>_. 0) k gs (0, f) = (0, fold (\<lambda>g. g) gs f)"
  by (induction gs arbitrary: k f) (simp_all add: fits_call_def)

lemma demo_configure: "configure demo_dirs True ''/data'' 1024 new_LocalSdfitsWriter = Inr demo_local"
  by (simp add: configure_def check_def create_directories_def demo_dirs_def demo_local_def new_LocalSdfitsWriter_def)

lemma demo_enqueue:
  "enqueue (job_header demo_job) (Some [1, 0, 0, 0, 2, 0, 0, 0, 3, 0, 0, 0, 4, 0, 0, 0]) demo_local
     = (True, demo_local\<lparr>lw_queued_bytes := 16, lw_queue := [demo_job]\<rparr>)"
  by (simp add: enqueue_def demo_local_def new_LocalSdfitsWriter_def demo_job_def)

lemma demo_take:
  "take_job (demo_local\<lparr>lw_queued_bytes := 16, lw_queue := [demo_job]\<rparr>) = Some (demo_local\<lparr>lw_worker := Writing demo_job\<rparr>)"
  by (simp add: take_job_def demo_job_def demo_local_def new_LocalSdfitsWriter_def)

lemma demo_date: "\<exists>date. format_fits_utc 0 32 = Some date"
proof -
  have "year_of_day 1970 0 = (1970, 0)" by (subst year_of_day.simps) simp
  then have "gmtime_r 0 = \<lparr>tm_year = 70, tm_mon = 0, tm_mday = 1, tm_hour = 0, tm_min = 0, tm_sec = 0\<rparr>"
    by (simp add: gmtime_r_def month_lengths_def)
  moreover have "length (decimal 0) = 1" "length (decimal 1) = 1" "length (decimal (Suc 0)) = 1" "length (decimal 1970) = 4" by (simp_all add: decimal.simps)
  ultimately show ?thesis by (simp add: format_fits_utc_def Let_def zero_pad_def)
qed

lemma demo_metadata: "\<exists>s. configure_sdfits_metadata exact_fpu demo_conv None '''' False True (new_band_writer exact_fpu id demo_decoder h name date) = Inr s
   \<and> basefilename s = name \<and> sd_status s = 0 \<and> new_file s = 1"
  by (simp add: configure_sdfits_metadata_def check_def new_band_writer_def new_sdfits_def)

lemma demo_create:
  assumes "fs = Map.empty" "sd_status s = 0" "length (basefilename s) < 200"
  shows "\<exists>s' fs'. sdfits_create demo_fits s fs = (0, s', fs')"
  using assms by (auto simp: sdfits_create_def demo_fits_def fits_calls_zero strip_extension_def Let_def)

lemma demo_name: "length (band_file_name exact_fpu demo_decoder ''/data'' True (job_header demo_job)) < 200"
  by (simp add: band_file_name_def demo_decoder_def stop_freq_hz_def exact_fpu_def round_even_def demo_job_def zero_header_def decimal.simps zero_pad_def)

lemma demo_write:
  "\<exists>w fs. write_job exact_fpu id demo_decoder demo_conv new_GlobalConfig None demo_fits demo_fits demo_job
       (demo_local\<lparr>lw_worker := Writing demo_job\<rparr>) Map.empty = Inr (w, fs)
     \<and> length (lw_writers w) = 1"
proof -
  let ?h = "job_header demo_job" and ?name = "band_file_name exact_fpu demo_decoder ''/data'' True (job_header demo_job)"
  have h: "integration_start_ns ?h = 0" "spectrum_header.cal_mode ?h = 0" by (simp_all add: demo_job_def zero_header_def)
  have c: "cfg_source_on new_GlobalConfig" "cfg_object new_GlobalConfig = ''''" by (simp_all add: new_GlobalConfig_def)
  have l: "lw_writers demo_local = []" "lw_output_folder demo_local = ''/data''" by (simp_all add: demo_local_def new_LocalSdfitsWriter_def)
  obtain date where d: "format_fits_utc 0 32 = Some date" using demo_date by blast
  obtain s where s: "configure_sdfits_metadata exact_fpu demo_conv None '''' False True (new_band_writer exact_fpu id demo_decoder ?h ?name date) = Inr s"
      "basefilename s = ?name" "sd_status s = 0" using demo_metadata by blast
  obtain s' fs' where k: "sdfits_create demo_fits s Map.empty = (0, s', fs')" using demo_create [OF refl s(3)] demo_name s(2) by metis
  obtain st s2 fs2 where w: "sdfits_write_subint exact_fpu (dec32 demo_decoder) demo_fits demo_fits (job_columns exact_fpu id demo_job s') fs' = (st, s2, fs2)"
    by (cases "sdfits_write_subint exact_fpu (dec32 demo_decoder) demo_fits demo_fits (job_columns exact_fpu id demo_job s') fs'")
  show ?thesis using demo_name by (simp add: write_job_def get_or_create_writer_def l h c d s k w)
qed

lemma demo_reachable:
  "\<exists>k. sink_reachable exact_fpu id demo_decoder demo_conv new_GlobalConfig None 1024 k \<and> sk_accepted k = [demo_job]
     \<and> sk_written k = [demo_job] \<and> length (lw_writers (sk_writer k)) = 1"
proof -
  let ?r = "sink_reachable exact_fpu id demo_decoder demo_conv new_GlobalConfig None 1024"
  let ?k = "\<lambda>w fs a d. \<lparr>sk_writer = w, sk_files = fs, sk_accepted = a, sk_written = d\<rparr>"
  obtain w fs where w: "write_job exact_fpu id demo_decoder demo_conv new_GlobalConfig None demo_fits demo_fits demo_job
       (demo_local\<lparr>lw_worker := Writing demo_job\<rparr>) Map.empty = Inr (w, fs)" "length (lw_writers w) = 1" using demo_write by blast
  have l: "lw_queue demo_local = []" "lw_worker demo_local = Waiting" by (simp_all add: demo_local_def new_LocalSdfitsWriter_def)
  have "?r (?k demo_local Map.empty [] [])" by (rule sink_configured [OF demo_configure])
  from sink_next [OF this sink_enqueue [of "job_header demo_job" "Some [1, 0, 0, 0, 2, 0, 0, 0, 3, 0, 0, 0, 4, 0, 0, 0]"]] demo_enqueue
  have "?r (?k (demo_local\<lparr>lw_queued_bytes := 16, lw_queue := [demo_job]\<rparr>) Map.empty [demo_job] [])" by (fastforce simp: l)
  from sink_next [OF this sink_take] demo_take
  have "?r (?k (demo_local\<lparr>lw_worker := Writing demo_job\<rparr>) Map.empty [demo_job] [])" by (fastforce simp: l)
  from sink_next [OF this sink_write [where j = demo_job]] w(1)
  have "?r (?k (w\<lparr>lw_worker := Waiting\<rparr>) fs [demo_job] [demo_job])" by fastforce
  then show ?thesis using w(2) by (intro exI conjI) (assumption, simp_all)
qed



end
