(* ===== verification/Result_Sender.thy ===== *)
theory Result_Sender
  imports Gpu_Run Local_Sdfits_Writer
begin

text \<open>
  Delivery of results, \<^verbatim>\<open>send_data\<close> of \<^verbatim>\<open>include/DoPFBFFT.hpp\<close>: a thread of each GPU worker takes the slots of the result
  ring in turn, stamps the headers of the windows, hands the channels of each window to the local SDFITS sink and to
  its ZeroMQ sender, and frees the slot. Each sender keeps its own log of library calls; \<open>ptr\<close> gives the
  addresses of the senders and \<open>enc\<close> the bit pattern of a float. Debug output is left out.
\<close>

section \<open>Windows\<close>

record ResultWindow =
  rw_config :: WindowConfig
  rw_sender :: SpectrumSender
  rw_zmq :: zmq

record result_sender =
  rs_idx :: nat
  rs_windows :: "ResultWindow list"
  rs_local :: LocalSdfitsWriter
  rs_send_failures :: u64

fun map_indexed :: "nat \<Rightarrow> (nat \<Rightarrow> 'a \<Rightarrow> 'a) \<Rightarrow> 'a list \<Rightarrow> 'a list" where
  "map_indexed k f [] = []"
| "map_indexed k f (x # xs) = f k x # map_indexed (k + 1) f xs"

text \<open>The two loops before the first slot: every socket is created, then every one is polled once.\<close>

definition prepare_window :: "nat \<Rightarrow> (nat \<Rightarrow> nat) \<Rightarrow> (nat \<Rightarrow> zmq_env) \<Rightarrow> nat \<Rightarrow> ResultWindow \<Rightarrow> ResultWindow" where
  "prepare_window thread ptr envs i rw =
     (case ensure_socket thread (ptr i) (envs i) (rw_sender rw) (rw_zmq rw) of (_, s, z) \<Rightarrow> rw\<lparr>rw_sender := s, rw_zmq := z\<rparr>)"

definition poll_window :: "nat \<Rightarrow> (nat \<Rightarrow> nat) \<Rightarrow> (nat \<Rightarrow> zmq_env) \<Rightarrow> nat \<Rightarrow> ResultWindow \<Rightarrow> ResultWindow" where
  "poll_window thread ptr envs i rw =
     (case wait_until_writable thread (ptr i) (envs i) (rw_sender rw) (rw_zmq rw) of (_, s, z) \<Rightarrow> rw\<lparr>rw_sender := s, rw_zmq := z\<rparr>)"

definition start_sender :: "nat \<Rightarrow> (nat \<Rightarrow> nat) \<Rightarrow> (nat \<Rightarrow> zmq_env) \<Rightarrow> (nat \<Rightarrow> zmq_env) \<Rightarrow> result_sender \<Rightarrow> result_sender" where
  "start_sender thread ptr envs envs' rs =
     rs\<lparr>rs_idx := 0, rs_windows := map_indexed 0 (poll_window thread ptr envs') (map_indexed 0 (prepare_window thread ptr envs) (rs_windows rs))\<rparr>"

definition log_connection_events :: "(nat \<Rightarrow> monitor_frame list) \<Rightarrow> ResultWindow list \<Rightarrow> ResultWindow list" where
  "log_connection_events frames ws =
     map_indexed 0 (\<lambda>i rw. rw\<lparr>rw_sender := snd (take_connection_events (frames i) (rw_sender rw))\<rparr>) ws"

section \<open>Slots\<close>

text \<open>The time stamps of a slot: the centre of the integration and its start, less the delay of the filter bank.\<close>

definition slot_times :: "fpu \<Rightarrow> (real \<Rightarrow> real) \<Rightarrow> GlobalConfig \<Rightarrow> nat \<Rightarrow> HostRingSlot \<Rightarrow> (u64 \<times> u64) result" where
  "slot_times fp xl cfg nfft slot =
     (let fft_period_ns = of_int (llround (real_of_dbl (dbl_mul (fl fp) (fft_period fp cfg) (Fin 1000000000)))) :: u64 in
      bind_result (pfb_group_delay_ns xl num_taps nfft (nat sampling_rate)) (\<lambda>delay.
        let centre = slot_first_timestamp_ns slot + (slot_last_timestamp_ns slot - slot_first_timestamp_ns slot + fft_period_ns) div 2
        in Inr (compensate_delay_ns centre delay, compensate_delay_ns (slot_first_timestamp_ns slot) delay)))"

definition stamp :: "u64 \<times> u64 \<Rightarrow> HostRingSlot \<Rightarrow> spectrum_header \<Rightarrow> spectrum_header" where
  "stamp stamps slot h =
     h\<lparr>timestamp_ns := fst stamps, integration_start_ns := snd stamps, noise_state := slot_noise_state slot\<rparr>"

definition float4_bytes :: "(real \<Rightarrow> u32) \<Rightarrow> float4 \<Rightarrow> bytes" where
  "float4_bytes enc v = (case v of (a, b, c, d) \<Rightarrow> le_bytes 4 (enc a) @ le_bytes 4 (enc b) @ le_bytes 4 (enc c) @ le_bytes 4 (enc d))"

definition window_data :: "(real \<Rightarrow> u32) \<Rightarrow> nat \<Rightarrow> nat \<Rightarrow> HostRingSlot \<Rightarrow> bytes" where
  "window_data enc start channels slot = concat (map (float4_bytes enc) (take channels (drop start (slot_data slot))))"

definition send_result :: "nat \<Rightarrow> nat \<Rightarrow> zmq_env \<Rightarrow> spectrum_header \<Rightarrow> bytes \<Rightarrow> ResultWindow \<Rightarrow> bool \<times> ResultWindow" where
  "send_result thread this_ptr env h spec rw =
     (case send_spectrum thread this_ptr env h (Some spec) (rw_sender rw) (rw_zmq rw) of (ok, h, s, z) \<Rightarrow>
        (ok, rw\<lparr>rw_config := (rw_config rw)\<lparr>w_header := h\<lparr>integration_id := integration_id h + 1\<rparr>\<rparr>, rw_sender := s, rw_zmq := z\<rparr>))"

text \<open>The loop over the windows in spectral-line mode, from window \<open>i\<close> on.\<close>

fun send_windows :: "nat \<Rightarrow> (nat \<Rightarrow> nat) \<Rightarrow> (nat \<Rightarrow> zmq_env) \<Rightarrow> (real \<Rightarrow> u32) \<Rightarrow> nat \<Rightarrow> u64 \<times> u64 \<Rightarrow> HostRingSlot \<Rightarrow> nat \<Rightarrow>
    ResultWindow list \<Rightarrow> LocalSdfitsWriter \<Rightarrow> u64 \<Rightarrow> ResultWindow list \<times> LocalSdfitsWriter \<times> u64" where
  "send_windows thread ptr envs enc channels stamps slot i [] loc fails = ([], loc, fails)"
| "send_windows thread ptr envs enc channels stamps slot i (rw # rws) loc fails =
     (let spec = window_data enc (w_start_idx (rw_config rw)) channels slot;
          h = stamp stamps slot (w_header (rw_config rw));
          (queued, loc) = enqueue h (Some spec) loc;
          (ok, rw) = send_result thread (ptr i) (envs i) h spec rw;
          (rws, loc, fails) = send_windows thread ptr envs enc channels stamps slot (i + 1) rws loc (if ok then fails else fails + 1)
      in (rw # rws, loc, fails))"

definition send_slot :: "nat \<Rightarrow> (nat \<Rightarrow> nat) \<Rightarrow> (nat \<Rightarrow> zmq_env) \<Rightarrow> (real \<Rightarrow> u32) \<Rightarrow> fpu \<Rightarrow> (real \<Rightarrow> real) \<Rightarrow> GlobalConfig \<Rightarrow> nat \<Rightarrow>
    HostRingSlot \<Rightarrow> result_sender \<Rightarrow> result_sender result" where
  "send_slot thread ptr envs enc fp xl cfg nfft slot rs =
     bind_result (slot_times fp xl cfg nfft slot) (\<lambda>stamps.
       if observing cfg SPECTRAL then
         (case send_windows thread ptr envs enc (nat (cfg_win_channels cfg)) stamps slot 0 (rs_windows rs) (rs_local rs) (rs_send_failures rs) of
            (ws, loc, fails) \<Rightarrow> Inr (rs\<lparr>rs_windows := ws, rs_local := loc, rs_send_failures := fails\<rparr>))
       else if observing cfg CONTINUUM then
         (case rs_windows rs of
            [] \<Rightarrow> Inr rs
          | rw # rws \<Rightarrow>
              (case send_result thread (ptr 0) (envs 0) (stamp stamps slot (w_header (rw_config rw))) (le_bytes 4 (enc (slot_sumPower slot))) rw of
                 (ok, rw) \<Rightarrow> Inr (rs\<lparr>rs_windows := rw # rws, rs_send_failures := (if ok then rs_send_failures rs else rs_send_failures rs + 1)\<rparr>)))
       else Inr rs)"

text \<open>One round of the loop. A window list is never empty in a configuration that is accepted.\<close>

definition send_round :: "nat \<Rightarrow> (nat \<Rightarrow> nat) \<Rightarrow> (nat \<Rightarrow> zmq_env) \<Rightarrow> (nat \<Rightarrow> monitor_frame list) \<Rightarrow> (real \<Rightarrow> u32) \<Rightarrow> fpu \<Rightarrow> (real \<Rightarrow> real) \<Rightarrow>
    GlobalConfig \<Rightarrow> GpuPfbFft \<Rightarrow> result_sender \<Rightarrow> (GpuPfbFft \<times> result_sender) result" where
  "send_round thread ptr envs frames enc fp xl cfg g rs =
     (let rs = rs\<lparr>rs_windows := log_connection_events frames (rs_windows rs)\<rparr>;
          slot = m_hring g ! rs_idx rs
      in if \<not> slot_used slot then Inr (g, rs)
         else
           bind_result (send_slot thread ptr envs enc fp xl cfg (m_Nfft g) slot rs) (\<lambda>rs.
             Inr (g\<lparr>m_hring := (m_hring g)[rs_idx rs := slot\<lparr>slot_used := False\<rparr>]\<rparr>, rs\<lparr>rs_idx := (rs_idx rs + 1) mod NUM_SLOTS\<rparr>)))"


section \<open>The ring\<close>

text \<open>What a round of the worker does to the ring: it may rewrite the slot at the head, and it publishes it or not.\<close>

definition ring_effect :: "GpuPfbFft \<Rightarrow> GpuPfbFft \<Rightarrow> bool" where
  "ring_effect g g' \<longleftrightarrow> length (m_hring g') = length (m_hring g) \<and> m_Nfft g' = m_Nfft g
     \<and> (\<forall>k. k \<noteq> m_hhead g \<longrightarrow> m_hring g' ! k = m_hring g ! k)
     \<and> (m_hhead g' = m_hhead g \<and> slot_used (m_hring g' ! m_hhead g) = slot_used (m_hring g ! m_hhead g)
        \<or> m_hhead g' = (m_hhead g + 1) mod NUM_SLOTS \<and> slot_used (m_hring g' ! m_hhead g))"

lemma StokesAcc_ring:
  assumes "m_hhead g < length (m_hring g)"
  shows "ring_effect g (StokesAcc fp rnd cfg g)"
proof -
  define h where "h = g\<lparr>m_accumulators_reset_for_gap := False\<rparr>"
  have l: "m_hhead h < length (m_hring h)" using assms by (simp add: h_def)
  have "ring_effect g (acc_cal_on rnd cfg h)" unfolding acc_cal_on_form [OF l] Let_def
    by (auto simp: ring_effect_def h_def filled_slot_def assms)
  moreover have "ring_effect g (acc_cal_off rnd cfg h)" unfolding acc_cal_off_form [OF l] Let_def
    by (auto simp: ring_effect_def h_def filled_slot_def assms)
  moreover have "ring_effect g (acc_no_cal rnd cfg h)" unfolding acc_no_cal_form [OF l] Let_def
    by (auto simp: ring_effect_def h_def filled_slot_def assms)
  moreover have "ring_effect g (reset_for_gap cfg g)" "ring_effect g h"
    by (simp_all add: ring_effect_def h_def reset_for_gap_def Let_def)
  ultimately show ?thesis by (simp add: StokesAcc_def h_def [symmetric] Let_def)
qed

lemma subband_round_ring:
  assumes "subband_round fp rnd fft cfg qA qB g = Some (Inr g', qA', qB')" "m_hhead g < length (m_hring g)"
  shows "ring_effect g g'"
proof -
  obtain g1 where g1: "accumulate_one_block fp cfg qA qB g = Some (Inr g1, qA', qB')" "g' = StokesAcc fp rnd cfg (submit_PFB_FFT rnd fft g1)"
    using assms(1) by (auto simp: subband_round_def bind_result_Inr_iff)
  then obtain a b gap where load: "load_block fp cfg a b gap g = Inr g1"
    by (auto simp: accumulate_one_block_def split: list.splits option.splits)
  obtain ts where "pair_time (a, b, gap) = Inr ts"
    using load by (cases "pair_time (a, b, gap)") (simp_all add: load_block_def pair_time_def Let_def)
  then have "g1 = loaded fp cfg (a, b, gap) ts g" using load by (simp add: load_block_loaded)
  then have "m_hring g1 = m_hring g" "m_hhead g1 = m_hhead g" "m_Nfft g1 = m_Nfft g"
    by (simp_all add: loaded_def Let_def)
  then show ?thesis
    using StokesAcc_ring [of "submit_PFB_FFT rnd fft g1" fp rnd cfg] assms(2) unfolding g1(2)
    by (simp add: ring_effect_def submit_PFB_FFT_def Let_def)
qed


section \<open>Executions\<close>

text \<open>
  The worker, the sending thread and the other threads that use the local sink, with the slots published and the slots
  sent so far. The worker takes a round while the slot at the head of the ring is free; it touches no other slot, so
  a round of the sender, which works on a slot in use, commutes with it and is one step.
\<close>

record delivery =
  dl_gpu :: GpuPfbFft
  dl_sender :: result_sender
  dl_published :: "HostRingSlot list"
  dl_sent :: "HostRingSlot list"

inductive delivery_step :: "nat \<Rightarrow> (nat \<Rightarrow> nat) \<Rightarrow> (real \<Rightarrow> u32) \<Rightarrow> fpu \<Rightarrow> (real \<Rightarrow> real) \<Rightarrow> (complexf list \<Rightarrow> complexf list) \<Rightarrow>
    (real \<Rightarrow> real) \<Rightarrow> GlobalConfig \<Rightarrow> delivery \<Rightarrow> delivery \<Rightarrow> bool"
  for thread ptr enc fp rnd fft xl cfg where
  gpu_round: "subband_round fp rnd fft cfg qA qB (dl_gpu d) = Some (Inr g, qA', qB') \<Longrightarrow>
     \<not> slot_used (m_hring (dl_gpu d) ! m_hhead (dl_gpu d)) \<Longrightarrow>
     delivery_step thread ptr enc fp rnd fft xl cfg d
       (d\<lparr>dl_gpu := g, dl_published := dl_published d @ (if m_hhead g = m_hhead (dl_gpu d) then [] else [m_hring g ! m_hhead (dl_gpu d)])\<rparr>)"
| sender_round: "send_round thread ptr envs frames enc fp xl cfg (dl_gpu d) (dl_sender d) = Inr (g, rs) \<Longrightarrow>
     slot = m_hring (dl_gpu d) ! rs_idx (dl_sender d) \<Longrightarrow>
     delivery_step thread ptr enc fp rnd fft xl cfg d
       (d\<lparr>dl_gpu := g, dl_sender := rs, dl_sent := dl_sent d @ (if slot_used slot then [slot] else [])\<rparr>)"
| other_thread: "delivery_step thread ptr enc fp rnd fft xl cfg d (d\<lparr>dl_sender := (dl_sender d)\<lparr>rs_local := w\<rparr>\<rparr>)"

inductive delivery_run :: "nat \<Rightarrow> (nat \<Rightarrow> nat) \<Rightarrow> (real \<Rightarrow> u32) \<Rightarrow> fpu \<Rightarrow> (real \<Rightarrow> real) \<Rightarrow> (complexf list \<Rightarrow> complexf list) \<Rightarrow>
    (real \<Rightarrow> real) \<Rightarrow> GlobalConfig \<Rightarrow> GpuPfbFft \<Rightarrow> result_sender \<Rightarrow> delivery \<Rightarrow> bool"
  for thread ptr enc fp rnd fft xl cfg g0 rs0 where
  run_start: "delivery_run thread ptr enc fp rnd fft xl cfg g0 rs0 \<lparr>dl_gpu = g0, dl_sender = rs0, dl_published = [], dl_sent = []\<rparr>"
| run_step: "delivery_run thread ptr enc fp rnd fft xl cfg g0 rs0 d \<Longrightarrow> delivery_step thread ptr enc fp rnd fft xl cfg d d' \<Longrightarrow>
     delivery_run thread ptr enc fp rnd fft xl cfg g0 rs0 d'"

section \<open>Order of the slots\<close>

definition ring_inv :: "delivery \<Rightarrow> bool" where
  "ring_inv d \<longleftrightarrow>
     (let p = length (dl_published d); c = length (dl_sent d); ring = m_hring (dl_gpu d) in
      length ring = NUM_SLOTS \<and> m_hhead (dl_gpu d) = p mod NUM_SLOTS \<and> rs_idx (dl_sender d) = c mod NUM_SLOTS
      \<and> c \<le> p \<and> p \<le> c + NUM_SLOTS \<and> take c (dl_published d) = dl_sent d
      \<and> (\<forall>k. c \<le> k \<and> k < p \<longrightarrow> ring ! (k mod NUM_SLOTS) = dl_published d ! k \<and> slot_used (dl_published d ! k))
      \<and> (\<forall>k < NUM_SLOTS. slot_used (ring ! k) \<longrightarrow> (\<exists>i. c \<le> i \<and> i < p \<and> k = i mod NUM_SLOTS)))"

lemma ring_invI:
  assumes "length (m_hring (dl_gpu d)) = NUM_SLOTS" "m_hhead (dl_gpu d) = length (dl_published d) mod NUM_SLOTS"
    "rs_idx (dl_sender d) = length (dl_sent d) mod NUM_SLOTS" "length (dl_sent d) \<le> length (dl_published d)"
    "length (dl_published d) \<le> length (dl_sent d) + NUM_SLOTS" "take (length (dl_sent d)) (dl_published d) = dl_sent d"
    "\<And>k. length (dl_sent d) \<le> k \<Longrightarrow> k < length (dl_published d) \<Longrightarrow>
       m_hring (dl_gpu d) ! (k mod NUM_SLOTS) = dl_published d ! k \<and> slot_used (dl_published d ! k)"
    "\<And>k. k < NUM_SLOTS \<Longrightarrow> slot_used (m_hring (dl_gpu d) ! k) \<Longrightarrow> \<exists>i. length (dl_sent d) \<le> i \<and> i < length (dl_published d) \<and> k = i mod NUM_SLOTS"
  shows "ring_inv d"
  using assms unfolding ring_inv_def Let_def by blast

lemma NUM_SLOTS_pos [simp]: "0 < NUM_SLOTS" "NUM_SLOTS \<noteq> 0"
  by (simp_all add: NUM_SLOTS_def)

lemma next_slot_differs: "h < NUM_SLOTS \<Longrightarrow> (h + 1) mod NUM_SLOTS \<noteq> h"
  by (auto simp: NUM_SLOTS_def mod_if)

lemma ring_inv_gpu:
  assumes inv: "ring_inv d" and round: "subband_round fp rnd fft cfg qA qB (dl_gpu d) = Some (Inr g, qA', qB')"
    and free: "\<not> slot_used (m_hring (dl_gpu d) ! m_hhead (dl_gpu d))"
  shows "ring_inv (d\<lparr>dl_gpu := g, dl_published := dl_published d @ (if m_hhead g = m_hhead (dl_gpu d) then [] else [m_hring g ! m_hhead (dl_gpu d)])\<rparr>)"
proof -
  let ?p = "length (dl_published d)" and ?c = "length (dl_sent d)" and ?ring = "m_hring (dl_gpu d)" and ?N = NUM_SLOTS
  have i: "length ?ring = ?N" "m_hhead (dl_gpu d) = ?p mod ?N" "rs_idx (dl_sender d) = ?c mod ?N" "?c \<le> ?p" "?p \<le> ?c + ?N"
      "take ?c (dl_published d) = dl_sent d"
      "\<forall>k. ?c \<le> k \<and> k < ?p \<longrightarrow> ?ring ! (k mod ?N) = dl_published d ! k \<and> slot_used (dl_published d ! k)"
      "\<forall>k < ?N. slot_used (?ring ! k) \<longrightarrow> (\<exists>i. ?c \<le> i \<and> i < ?p \<and> k = i mod ?N)"
    using inv by (simp_all add: ring_inv_def Let_def)
  have e: "ring_effect (dl_gpu d) g" by (rule subband_round_ring [OF round]) (simp add: i)
  have room: "?p < ?c + ?N"
  proof (rule ccontr)
    assume "\<not> ?p < ?c + ?N"
    then have "?p = ?c + ?N" using i(5) by simp
    then show False using i(7)[rule_format, of ?c] free i(2) by simp
  qed
  have other: "k mod ?N \<noteq> ?p mod ?N" if "?c \<le> k" "k < ?p" for k
    using mod_eq_close [of k ?N ?p] that room by linarith
  have keep: "\<forall>k. ?c \<le> k \<and> k < ?p \<longrightarrow> m_hring g ! (k mod ?N) = dl_published d ! k \<and> slot_used (dl_published d ! k)"
    using i(7) other e i(2) by (simp add: ring_effect_def)
  have len: "length (m_hring g) = ?N" using e i(1) by (simp add: ring_effect_def)
  show ?thesis
  proof (cases "m_hhead g = m_hhead (dl_gpu d)")
    case True
    have nxt: "(?p mod ?N + 1) mod ?N \<noteq> ?p mod ?N" by (rule next_slot_differs) simp
    have "\<forall>k < ?N. slot_used (m_hring g ! k) \<longrightarrow> (\<exists>i. ?c \<le> i \<and> i < ?p \<and> k = i mod ?N)"
    proof (intro allI impI)
      fix k assume k: "k < ?N" "slot_used (m_hring g ! k)"
      have "slot_used (m_hring g ! (?p mod ?N)) = slot_used (?ring ! (?p mod ?N))" using e True nxt i(2) by (auto simp: ring_effect_def)
      then have "k \<noteq> ?p mod ?N" using k free i(2) by auto
      then have "slot_used (?ring ! k)" using e k(2) i(2) by (simp add: ring_effect_def)
      then show "\<exists>i. ?c \<le> i \<and> i < ?p \<and> k = i mod ?N" using i(8) k(1) by blast
    qed
    then show ?thesis using True i(2-6) keep len by (simp add: ring_inv_def Let_def)
  next
    case False
    then have head: "m_hhead g = (?p mod ?N + 1) mod ?N" "slot_used (m_hring g ! (?p mod ?N))" using e i(2) by (auto simp: ring_effect_def)
    have used: "\<exists>i. ?c \<le> i \<and> i < Suc ?p \<and> k = i mod ?N" if k: "k < ?N" "slot_used (m_hring g ! k)" for k
    proof (cases "k = ?p mod ?N")
      case True
      then show ?thesis using i(4) by (intro exI [of _ ?p]) simp
    next
      case False
      then have "slot_used (?ring ! k)" using k e i(2) by (simp add: ring_effect_def)
      then show ?thesis using i(8) k(1) less_SucI by blast
    qed
    have slots: "m_hring g ! (k mod ?N) = (dl_published d @ [m_hring g ! (?p mod ?N)]) ! k \<and> slot_used ((dl_published d @ [m_hring g ! (?p mod ?N)]) ! k)"
      if "?c \<le> k" "k < Suc ?p" for k
      using that keep head(2) by (cases "k = ?p") (simp_all add: nth_append)
    define s where "s = m_hring g ! (?p mod ?N)"
    let ?d = "d\<lparr>dl_gpu := g, dl_published := dl_published d @ (if m_hhead g = m_hhead (dl_gpu d) then [] else [m_hring g ! m_hhead (dl_gpu d)])\<rparr>"
    have sel: "dl_published ?d = dl_published d @ [s]" "dl_gpu ?d = g" "dl_sender ?d = dl_sender d" "dl_sent ?d = dl_sent d"
        "length (dl_published d @ [s]) = Suc ?p"
      using False i(2) by (simp_all add: s_def)
    have wrap: "(?p mod ?N + 1) mod ?N = Suc ?p mod ?N" by (simp add: mod_simps)
    show ?thesis
    proof (rule ring_invI, unfold sel)
      show "m_hhead g = Suc ?p mod ?N" using head(1) wrap by (rule trans)
      show "rs_idx (dl_sender d) = ?c mod ?N" by (fact i(3))
      show "?c \<le> Suc ?p" "Suc ?p \<le> ?c + ?N" using i(4) room by simp_all
      show "take ?c (dl_published d @ [s]) = dl_sent d" using i(4,6) by simp
      show "m_hring g ! (k mod ?N) = (dl_published d @ [s]) ! k \<and> slot_used ((dl_published d @ [s]) ! k)" if "?c \<le> k" "k < Suc ?p" for k
        unfolding s_def using that by (rule slots)
      show "\<exists>i. ?c \<le> i \<and> i < Suc ?p \<and> k = i mod ?N" if "k < ?N" "slot_used (m_hring g ! k)" for k
        using that by (rule used)
    qed (fact len)
  qed
qed


lemma send_slot_idx: "send_slot thread ptr envs enc fp xl cfg nfft slot rs = Inr rs' \<Longrightarrow> rs_idx rs' = rs_idx rs"
  by (auto simp: send_slot_def bind_result_Inr_iff split: if_splits prod.splits list.splits)

text \<open>A round of the sender that finds its slot in use.\<close>

lemma send_round_cases:
  assumes "send_round thread ptr envs frames enc fp xl cfg g rs = Inr (g', rs')"
  defines "slot \<equiv> m_hring g ! rs_idx rs" and "rs1 \<equiv> rs\<lparr>rs_windows := log_connection_events frames (rs_windows rs)\<rparr>"
  shows "if slot_used slot
    then \<exists>rs2. send_slot thread ptr envs enc fp xl cfg (m_Nfft g) slot rs1 = Inr rs2
      \<and> g' = g\<lparr>m_hring := (m_hring g)[rs_idx rs := slot\<lparr>slot_used := False\<rparr>]\<rparr> \<and> rs' = rs2\<lparr>rs_idx := (rs_idx rs + 1) mod NUM_SLOTS\<rparr>
    else g' = g \<and> rs' = rs1"
proof (cases "slot_used slot")
  case True
  then obtain rs2 where r: "send_slot thread ptr envs enc fp xl cfg (m_Nfft g) slot rs1 = Inr rs2"
      "g' = g\<lparr>m_hring := (m_hring g)[rs_idx rs2 := slot\<lparr>slot_used := False\<rparr>]\<rparr>" "rs' = rs2\<lparr>rs_idx := (rs_idx rs2 + 1) mod NUM_SLOTS\<rparr>"
    using assms(1) by (auto simp: send_round_def Let_def slot_def rs1_def bind_result_Inr_iff)
  moreover have "rs_idx rs2 = rs_idx rs" using send_slot_idx [OF r(1)] by (simp add: rs1_def)
  ultimately show ?thesis using True by auto
next
  case False
  then show ?thesis using assms(1) by (simp add: send_round_def Let_def slot_def rs1_def)
qed

lemma ring_inv_send:
  assumes inv: "ring_inv d" and round: "send_round thread ptr envs frames enc fp xl cfg (dl_gpu d) (dl_sender d) = Inr (g, rs)"
    and slot: "slot = m_hring (dl_gpu d) ! rs_idx (dl_sender d)"
  shows "ring_inv (d\<lparr>dl_gpu := g, dl_sender := rs, dl_sent := dl_sent d @ (if slot_used slot then [slot] else [])\<rparr>)"
    "slot_used slot \<longrightarrow> length (dl_sent d) < length (dl_published d) \<and> slot = dl_published d ! length (dl_sent d)"
proof -
  let ?p = "length (dl_published d)" and ?c = "length (dl_sent d)" and ?ring = "m_hring (dl_gpu d)" and ?N = NUM_SLOTS
  have i: "length ?ring = ?N" "m_hhead (dl_gpu d) = ?p mod ?N" "rs_idx (dl_sender d) = ?c mod ?N" "?c \<le> ?p" "?p \<le> ?c + ?N"
      "take ?c (dl_published d) = dl_sent d"
      "\<forall>k. ?c \<le> k \<and> k < ?p \<longrightarrow> ?ring ! (k mod ?N) = dl_published d ! k \<and> slot_used (dl_published d ! k)"
      "\<forall>k < ?N. slot_used (?ring ! k) \<longrightarrow> (\<exists>i. ?c \<le> i \<and> i < ?p \<and> k = i mod ?N)"
    using inv by (simp_all add: ring_inv_def Let_def)
  note r = send_round_cases [OF round, folded slot]
  have pend: "?c < ?p \<and> slot = dl_published d ! ?c" if "slot_used slot"
  proof -
    have "slot_used (?ring ! (?c mod ?N))" using that i(3) slot by simp
    then obtain j where j: "?c \<le> j" "j < ?p" "?c mod ?N = j mod ?N" using i(8)[rule_format, of "?c mod ?N"] by auto
    then have "?c = j" using mod_eq_close [OF j(3) j(1)] i(5) by linarith
    then show ?thesis using j(2) i(3,7) by (simp add: slot)
  qed
  then show "slot_used slot \<longrightarrow> ?c < ?p \<and> slot = dl_published d ! ?c" by blast
  show "ring_inv (d\<lparr>dl_gpu := g, dl_sender := rs, dl_sent := dl_sent d @ (if slot_used slot then [slot] else [])\<rparr>)"
  proof (cases "slot_used slot")
    case False
    then have "g = dl_gpu d" "rs_idx rs = rs_idx (dl_sender d)" using r by simp_all
    then show ?thesis using inv False by (simp add: ring_inv_def Let_def)
  next
    case True
    let ?d = "d\<lparr>dl_gpu := g, dl_sender := rs, dl_sent := dl_sent d @ (if slot_used slot then [slot] else [])\<rparr>"
    have g: "m_hring g = ?ring[?c mod ?N := slot\<lparr>slot_used := False\<rparr>]" "m_hhead g = ?p mod ?N" "rs_idx rs = (?c mod ?N + 1) mod ?N"
      using r True i(2,3) by auto
    have sel: "dl_published ?d = dl_published d" "dl_gpu ?d = g" "dl_sender ?d = rs" "dl_sent ?d = dl_sent d @ [slot]" "length (dl_sent d @ [slot]) = Suc ?c"
      using True by simp_all
    have c: "?c < ?p" "slot = dl_published d ! ?c" using pend [OF True] by simp_all
    have wrap: "(?c mod ?N + 1) mod ?N = Suc ?c mod ?N" by (simp add: mod_simps)
    have other: "k mod ?N \<noteq> ?c mod ?N" if "Suc ?c \<le> k" "k < ?p" for k
      using mod_eq_close [of ?c ?N k] that i(5) by fastforce
    show ?thesis
    proof (rule ring_invI, unfold sel)
      show "length (m_hring g) = ?N" using g(1) i(1) by simp
      show "m_hhead g = ?p mod ?N" by (fact g(2))
      show "rs_idx rs = Suc ?c mod ?N" using g(3) wrap by (rule trans)
      show "Suc ?c \<le> ?p" "?p \<le> Suc ?c + ?N" using c(1) i(5) by simp_all
      show "take (Suc ?c) (dl_published d) = dl_sent d @ [slot]" using take_Suc_conv_app_nth [OF c(1)] i(6) c(2) by simp
      show "m_hring g ! (k mod ?N) = dl_published d ! k \<and> slot_used (dl_published d ! k)" if "Suc ?c \<le> k" "k < ?p" for k
        using i(7)[rule_format, of k] other [OF that] that g(1) by simp
      show "\<exists>i. Suc ?c \<le> i \<and> i < ?p \<and> k = i mod ?N" if k: "k < ?N" "slot_used (m_hring g ! k)" for k
      proof -
        have k': "k \<noteq> ?c mod ?N" "slot_used (?ring ! k)" using k g(1) i(1) by (auto simp: nth_list_update split: if_splits)
        then obtain j where j: "?c \<le> j" "j < ?p" "k = j mod ?N" using i(8) k(1) by blast
        then have "j \<noteq> ?c" using k'(1) by blast
        then show ?thesis using j by (intro exI [of _ j]) simp
      qed
    qed
  qed
qed

lemma delivery_ring:
  assumes "delivery_run thread ptr enc fp rnd fft xl cfg g0 rs0 d" "length (m_hring g0) = NUM_SLOTS" "m_hhead g0 = 0" "rs_idx rs0 = 0"
    "\<forall>s \<in> set (m_hring g0). \<not> slot_used s"
  shows "ring_inv d"
  using assms(1)
proof (induction rule: delivery_run.induct)
  case run_start
  show ?case by (rule ring_invI) (use assms(2-5) nth_mem [of _ "m_hring g0"] in auto)
next
  case (run_step d d')
  from run_step(2) show ?case
  proof cases
    case (gpu_round qA qB g qA' qB')
    show ?thesis unfolding gpu_round(1) by (rule ring_inv_gpu [OF run_step(3) gpu_round(2,3)])
  next
    case (sender_round envs frames g rs slot)
    show ?thesis unfolding sender_round(1) by (rule ring_inv_send(1) [OF run_step(3) sender_round(2,3)])
  next
    case (other_thread w)
    then show ?thesis using run_step(3) by (simp add: ring_inv_def Let_def)
  qed
qed


section \<open>Messages of a window\<close>

lemma length_map_indexed [simp]: "length (map_indexed k f xs) = length xs"
  by (induction xs arbitrary: k) simp_all

lemma nth_map_indexed: "j < length xs \<Longrightarrow> map_indexed k f xs ! j = f (k + j) (xs ! j)"
  by (induction xs arbitrary: k j) (auto simp: nth_Cons split: nat.splits)

lemma send_windows_nth:
  "send_windows thread ptr envs enc channels stamps slot i ws loc fails = (ws', loc', fails') \<Longrightarrow> length ws' = length ws \<and>
     (\<forall>j < length ws. ws' ! j = snd (send_result thread (ptr (i + j)) (envs (i + j)) (stamp stamps slot (w_header (rw_config (ws ! j))))
        (window_data enc (w_start_idx (rw_config (ws ! j))) channels slot) (ws ! j)))"
proof (induction ws arbitrary: i loc fails ws' loc' fails')
  case (Cons rw ws)
  let ?data = "window_data enc (w_start_idx (rw_config rw)) channels slot" and ?h = "stamp stamps slot (w_header (rw_config rw))"
  obtain q loc1 where e: "enqueue ?h (Some ?data) loc = (q, loc1)" by (cases "enqueue ?h (Some ?data) loc")
  obtain ok rw1 where s: "send_result thread (ptr i) (envs i) ?h ?data rw = (ok, rw1)" by (cases "send_result thread (ptr i) (envs i) ?h ?data rw")
  obtain ws1 loc2 f2 where r: "send_windows thread ptr envs enc channels stamps slot (i + 1) ws loc1 (if ok then fails else fails + 1) = (ws1, loc2, f2)"
    by (metis prod_cases3)
  have "ws' = rw1 # ws1" using Cons.prems e s r by simp
  then show ?case using Cons.IH [OF r] s by (auto simp: nth_Cons split: nat.splits)
qed simp

text \<open>The header of a window after \<open>n\<close> results: only the members set for each result differ.\<close>

definition header_after :: "spectrum_header \<Rightarrow> nat \<Rightarrow> spectrum_header \<Rightarrow> bool" where
  "header_after h0 n h \<longleftrightarrow>
     h\<lparr>timestamp_ns := 0, integration_start_ns := 0, noise_state := 0, pkt_id := 0, total_pkt := 0\<rparr>
     = h0\<lparr>timestamp_ns := 0, integration_start_ns := 0, noise_state := 0, pkt_id := 0, total_pkt := 0, integration_id := integration_id h0 + of_nat n\<rparr>"

text \<open>The message of result number \<open>k\<close>.\<close>

definition result_header :: "u64 \<times> u64 \<Rightarrow> HostRingSlot \<Rightarrow> WindowConfig \<Rightarrow> nat \<Rightarrow> spectrum_header" where
  "result_header stamps slot w k =
     (stamp stamps slot (w_header w))\<lparr>integration_id := integration_id (w_header w) + of_nat k, pkt_id := 0, total_pkt := 1\<rparr>"

lemma header_after_stamp:
  assumes "header_after (w_header w) k h"
  shows "(stamp stamps slot h)\<lparr>pkt_id := 0, total_pkt := 1\<rparr> = result_header stamps slot w k"
  using assms by (cases h; cases "w_header w") (simp add: header_after_def stamp_def result_header_def)

lemma header_after_next:
  assumes "header_after h0 n h"
  shows "header_after h0 (Suc n) ((stamp stamps slot h)\<lparr>pkt_id := a, total_pkt := b, integration_id := integration_id h + 1\<rparr>)"
  using assms by (cases h; cases h0) (auto simp: header_after_def stamp_def)

lemma header_after_0: "header_after h 0 h"
  by (simp add: header_after_def)

definition result_message :: "(real \<Rightarrow> u32) \<Rightarrow> fpu \<Rightarrow> (real \<Rightarrow> real) \<Rightarrow> GlobalConfig \<Rightarrow> nat \<Rightarrow> WindowConfig \<Rightarrow> nat \<Rightarrow> HostRingSlot \<Rightarrow> bytes" where
  "result_message enc fp xl cfg nfft w k slot =
     build_message (w_server_id w) (of_nat k) (result_header (projr (slot_times fp xl cfg nfft slot)) slot w k)
       (window_data enc (w_start_idx w) (nat (cfg_win_channels cfg)) slot)"

definition window_inv :: "nat \<Rightarrow> (real \<Rightarrow> u32) \<Rightarrow> fpu \<Rightarrow> (real \<Rightarrow> real) \<Rightarrow> GlobalConfig \<Rightarrow> nat \<Rightarrow> WindowConfig \<Rightarrow> nat \<Rightarrow> HostRingSlot list \<Rightarrow> ResultWindow \<Rightarrow> bool" where
  "window_inv thread enc fp xl cfg nfft w c sent rw \<longleftrightarrow>
     s_socket (rw_sender rw) = Some c \<and> s_owner_thread (rw_sender rw) = thread \<and> s_next_sequence (rw_sender rw) = of_nat (length sent)
     \<and> s_server_id (rw_sender rw) = w_server_id w \<and> w_start_idx (rw_config rw) = w_start_idx w
     \<and> header_after (w_header w) (length sent) (w_header (rw_config rw))
     \<and> (\<exists>ok. sent_messages (rw_zmq rw) = map (\<lambda>k. (c, result_message enc fp xl cfg nfft w k (sent ! k))) (filter ok [0..<length sent]))"

lemma length_window_data: "length (window_data enc start channels slot) \<le> 16 * channels"
proof -
  have "length (concat (map (float4_bytes enc) xs)) = 16 * length xs" for xs
    by (induction xs) (auto simp: float4_bytes_def split: prod.splits)
  then show ?thesis by (simp add: window_data_def)
qed

lemma send_spectrum_header:
  assumes "s_socket s = Some c" "s_owner_thread s = thread" "length x \<le> UINT32_MAX - 103"
    and "send_spectrum thread this_ptr env h (Some x) s z = (b, h', s', z')"
  shows "h' = h\<lparr>pkt_id := 0, total_pkt := 1\<rparr>"
  using assms unfolding send_spectrum_def wait_until_writable_def ensure_socket_def Let_def
  by (auto split: if_splits)

lemma window_inv_send:
  assumes inv: "window_inv thread enc fp xl cfg nfft w c sent rw" and size: "16 * nat (cfg_win_channels cfg) \<le> UINT32_MAX - 103"
    and st: "slot_times fp xl cfg nfft slot = Inr stamps"
  shows "window_inv thread enc fp xl cfg nfft w c (sent @ [slot]) (snd (send_result thread p env (stamp stamps slot (w_header (rw_config rw)))
      (window_data enc (w_start_idx (rw_config rw)) (nat (cfg_win_channels cfg)) slot) rw))"
proof -
  let ?n = "length sent"
  define x where "x = window_data enc (w_start_idx w) (nat (cfg_win_channels cfg)) slot"
  define h where "h = stamp stamps slot (w_header (rw_config rw))"
  have i: "s_socket (rw_sender rw) = Some c" "s_owner_thread (rw_sender rw) = thread" "s_next_sequence (rw_sender rw) = of_nat ?n"
      "s_server_id (rw_sender rw) = w_server_id w" "w_start_idx (rw_config rw) = w_start_idx w"
      "header_after (w_header w) ?n (w_header (rw_config rw))" using inv by (simp_all add: window_inv_def)
  obtain ok where m: "sent_messages (rw_zmq rw) = map (\<lambda>k. (c, result_message enc fp xl cfg nfft w k (sent ! k))) (filter ok [0..<?n])"
    using inv by (auto simp: window_inv_def)
  have len: "length x \<le> UINT32_MAX - 103" using size length_window_data [of enc "w_start_idx w" "nat (cfg_win_channels cfg)" slot] by (simp add: x_def)
  obtain b h' s' z' where s: "send_spectrum thread p env h (Some x) (rw_sender rw) (rw_zmq rw) = (b, h', s', z')" by (metis prod_cases4)
  note f = send_spectrum_ready [OF i(1,2) len s] and hd = send_spectrum_header [OF i(1,2) len s]
  have msg: "message_of (rw_sender rw) 0 h x = result_message enc fp xl cfg nfft w ?n slot"
    using header_after_stamp [OF i(6), of stamps slot] by (simp add: message_of_def result_message_def i(3,4) st h_def x_def)
  have "sent_messages z' = map (\<lambda>k. (c, result_message enc fp xl cfg nfft w k ((sent @ [slot]) ! k))) (filter (\<lambda>k. if k = ?n then b else ok k) [0..<length (sent @ [slot])])"
  proof -
    have "filter (\<lambda>k. if k = ?n then b else ok k) [0..<?n] = filter ok [0..<?n]" by (rule filter_cong) auto
    moreover have "map (\<lambda>k. (c, result_message enc fp xl cfg nfft w k ((sent @ [slot]) ! k))) (filter ok [0..<?n]) = sent_messages (rw_zmq rw)"
      unfolding m by (rule map_cong) (auto simp: nth_append)
    ultimately show ?thesis using f(5) msg by simp
  qed
  then have ok: "\<exists>ok. sent_messages z' = map (\<lambda>k. (c, result_message enc fp xl cfg nfft w k ((sent @ [slot]) ! k))) (filter ok [0..<length (sent @ [slot])])"
    by (rule exI [of _ "\<lambda>k. if k = ?n then b else ok k"])
  have res: "snd (send_result thread p env h x rw)
      = rw\<lparr>rw_config := (rw_config rw)\<lparr>w_header := h'\<lparr>integration_id := integration_id h' + 1\<rparr>\<rparr>, rw_sender := s', rw_zmq := z'\<rparr>"
    by (simp add: send_result_def s)
  have "header_after (w_header w) (Suc ?n) (h'\<lparr>integration_id := integration_id h' + 1\<rparr>)"
    using header_after_next [OF i(6), where stamps = stamps and slot = slot and a = 0 and b = 1] by (simp add: hd h_def stamp_def)
  then show ?thesis unfolding i(5) x_def [symmetric] h_def [symmetric] res
    using f(1-4) i(3-5) ok by (simp add: window_inv_def)
qed

lemma window_inv_events:
  assumes "window_inv thread enc fp xl cfg nfft w c sent rw"
  shows "window_inv thread enc fp xl cfg nfft w c sent (rw\<lparr>rw_sender := snd (take_connection_events fs (rw_sender rw))\<rparr>)"
  using assms by (auto simp: window_inv_def take_connection_events_def split: prod.splits)

lemma window_inv_round:
  assumes round: "send_round thread ptr envs frames enc fp xl cfg g rs = Inr (g', rs')"
    and mode: "observing cfg SPECTRAL" and size: "16 * nat (cfg_win_channels cfg) \<le> UINT32_MAX - 103"
    and inv: "j < length (rs_windows rs)" "window_inv thread enc fp xl cfg (m_Nfft g) w c sent (rs_windows rs ! j)"
  defines "slot \<equiv> m_hring g ! rs_idx rs"
  shows "j < length (rs_windows rs') \<and> window_inv thread enc fp xl cfg (m_Nfft g) w c (sent @ (if slot_used slot then [slot] else [])) (rs_windows rs' ! j)"
proof -
  define rs1 where "rs1 = rs\<lparr>rs_windows := log_connection_events frames (rs_windows rs)\<rparr>"
  have i1: "j < length (rs_windows rs1)" "window_inv thread enc fp xl cfg (m_Nfft g) w c sent (rs_windows rs1 ! j)"
    using inv window_inv_events [OF inv(2)] by (simp_all add: rs1_def log_connection_events_def nth_map_indexed)
  note r = send_round_cases [OF round, folded slot_def rs1_def]
  show ?thesis
  proof (cases "slot_used slot")
    case False
    then show ?thesis using r i1 by simp
  next
    case True
    then obtain rs2 where s: "send_slot thread ptr envs enc fp xl cfg (m_Nfft g) slot rs1 = Inr rs2" "rs_windows rs' = rs_windows rs2"
      using r by auto
    then obtain stamps where st: "slot_times fp xl cfg (m_Nfft g) slot = Inr stamps"
      by (auto simp: send_slot_def bind_result_Inr_iff)
    obtain ws loc f where ws: "send_windows thread ptr envs enc (nat (cfg_win_channels cfg)) stamps slot 0 (rs_windows rs1) (rs_local rs1) (rs_send_failures rs1) = (ws, loc, f)"
      by (metis prod_cases3)
    have "rs_windows rs2 = ws" using s(1) mode by (auto simp: send_slot_def st ws)
    then show ?thesis using send_windows_nth [OF ws] i1 s(2) True window_inv_send [OF i1(2) size st] by simp
  qed
qed

text \<open>The windows when the loop starts, for the windows of a subband.\<close>

definition new_windows :: "WindowConfig list \<Rightarrow> ResultWindow list" where
  "new_windows ws = map (\<lambda>w. \<lparr>rw_config = w, rw_sender = new_SpectrumSender\<lparr>s_endpoint := w_endpoint w, s_server_id := w_server_id w\<rparr>,
     rw_zmq = \<lparr>open_sockets = [], done_calls = [], sent_messages = []\<rparr>\<rparr>) ws"

lemma ensure_socket_keeps:
  assumes "ensure_socket thread p env s z = (b, s', z')" "s_socket s = None \<or> s_owner_thread s = thread"
  shows "s_next_sequence s' = s_next_sequence s" "s_server_id s' = s_server_id s" "sent_messages z' = sent_messages z"
    "s_socket s' = None \<or> s_owner_thread s' = thread"
  using assms unfolding ensure_socket_def Let_def
  by (auto simp: zmq_socket_def zmq_close_def dest: zmq_calls_frame split: if_splits option.splits prod.splits bool.splits)

lemma poll_keeps:
  assumes "wait_until_writable thread p env s z = (b, s', z')" "s_socket s = None \<or> s_owner_thread s = thread"
  shows "s_next_sequence s' = s_next_sequence s" "s_server_id s' = s_server_id s" "sent_messages z' = sent_messages z"
    "s_socket s' = None \<or> s_owner_thread s' = thread"
proof -
  obtain b1 s1 z1 where e: "ensure_socket thread p env s z = (b1, s1, z1)" by (cases "ensure_socket thread p env s z")
  have "s_next_sequence s' = s_next_sequence s1 \<and> s_server_id s' = s_server_id s1 \<and> sent_messages z' = sent_messages z1
    \<and> s_socket s' = s_socket s1 \<and> s_owner_thread s' = s_owner_thread s1"
    using assms(1) by (auto simp: wait_until_writable_def e split: if_splits bool.splits)
  then show "s_next_sequence s' = s_next_sequence s" "s_server_id s' = s_server_id s" "sent_messages z' = sent_messages z"
    "s_socket s' = None \<or> s_owner_thread s' = thread" using ensure_socket_keeps [OF e assms(2)] by simp_all
qed

lemma start_window:
  assumes "j < length ws" "rs0 = start_sender thread ptr envs envs' rs" "rs_windows rs = new_windows ws"
    and "s_socket (rw_sender (rs_windows rs0 ! j)) = Some c"
  shows "j < length (rs_windows rs0)" "window_inv thread enc fp xl cfg nfft (ws ! j) c [] (rs_windows rs0 ! j)"
proof -
  let ?rw = "rs_windows rs ! j"
  have rw: "rw_config ?rw = ws ! j" "s_socket (rw_sender ?rw) = None" "s_next_sequence (rw_sender ?rw) = 0" "s_server_id (rw_sender ?rw) = w_server_id (ws ! j)"
      "sent_messages (rw_zmq ?rw) = []" and len: "j < length (rs_windows rs)"
    using assms(1,3) by (simp_all add: new_windows_def new_SpectrumSender_def)
  obtain b1 s1 z1 where e: "ensure_socket thread (ptr j) (envs j) (rw_sender ?rw) (rw_zmq ?rw) = (b1, s1, z1)" by (metis prod_cases3)
  obtain b2 s2 z2 where p: "wait_until_writable thread (ptr j) (envs' j) s1 z1 = (b2, s2, z2)" by (metis prod_cases3)
  have k: "s_next_sequence s1 = 0" "s_server_id s1 = w_server_id (ws ! j)" "sent_messages z1 = []" "s_socket s1 = None \<or> s_owner_thread s1 = thread"
    using ensure_socket_keeps [OF e] rw by simp_all
  have w: "rs_windows rs0 ! j = ?rw\<lparr>rw_sender := s2, rw_zmq := z2\<rparr>"
    using len e p by (simp add: assms(2) start_sender_def nth_map_indexed prepare_window_def poll_window_def)
  show "j < length (rs_windows rs0)" using len by (simp add: assms(2) start_sender_def)
  show "window_inv thread enc fp xl cfg nfft (ws ! j) c [] (rs_windows rs0 ! j)"
    using poll_keeps [OF p k(4)] k assms(4) rw(1) header_after_0 by (simp add: window_inv_def w)
qed

lemma new_GpuPfbFft_ring:
  assumes "new_GpuPfbFft fp cfg taps = Inr g"
  shows "length (m_hring g) = NUM_SLOTS" "m_hhead g = 0" "\<forall>s \<in> set (m_hring g). \<not> slot_used s"
  using assms by (auto simp: new_GpuPfbFft_def Let_def new_slot_def split: if_splits)

lemma delivery_windows:
  assumes run: "delivery_run thread ptr enc fp rnd fft xl cfg g0 rs0 d" and mode: "observing cfg SPECTRAL"
    and size: "16 * nat (cfg_win_channels cfg) \<le> UINT32_MAX - 103" and ring: "ring_inv \<lparr>dl_gpu = g0, dl_sender = rs0, dl_published = [], dl_sent = []\<rparr>"
    and init: "j < length (rs_windows rs0)" "window_inv thread enc fp xl cfg (m_Nfft g0) w c [] (rs_windows rs0 ! j)"
  shows "ring_inv d \<and> m_Nfft (dl_gpu d) = m_Nfft g0 \<and> j < length (rs_windows (dl_sender d))
    \<and> window_inv thread enc fp xl cfg (m_Nfft g0) w c (dl_sent d) (rs_windows (dl_sender d) ! j)"
  using run
proof (induction rule: delivery_run.induct)
  case run_start
  show ?case using ring init by simp
next
  case (run_step d d')
  have i: "ring_inv d" "m_Nfft (dl_gpu d) = m_Nfft g0" "j < length (rs_windows (dl_sender d))"
    "window_inv thread enc fp xl cfg (m_Nfft (dl_gpu d)) w c (dl_sent d) (rs_windows (dl_sender d) ! j)" using run_step(3) by simp_all
  from run_step(2) show ?case
  proof cases
    case (gpu_round qA qB g qA' qB')
    have "m_hhead (dl_gpu d) < length (m_hring (dl_gpu d))" using i(1) by (simp add: ring_inv_def Let_def)
    then have "m_Nfft g = m_Nfft (dl_gpu d)" using subband_round_ring [OF gpu_round(2)] by (simp add: ring_effect_def)
    then show ?thesis using ring_inv_gpu [OF i(1) gpu_round(2,3)] i(2-4) unfolding gpu_round(1) by simp
  next
    case (sender_round envs frames g rs slot)
    have n: "m_Nfft g = m_Nfft (dl_gpu d)" using send_round_cases [OF sender_round(2)] by (auto split: if_splits)
    show ?thesis using ring_inv_send(1) [OF i(1) sender_round(2,3)] window_inv_round [OF sender_round(2) mode size i(3,4)] n i(2)
      unfolding sender_round(1) sender_round(3) by simp
  next
    case (other_thread u)
    then show ?thesis using i by (simp add: ring_inv_def Let_def)
  qed
qed

section \<open>Properties\<close>

text \<open>
  C11. Results leave in the order they were integrated: as long as the worker finds a free slot, whatever the interleaving of the worker, the sending
  thread and the users of the local sink, the slots sent are the first of the slots published, each once and with the content
  it had when it was published. The messages that a window's prepared sender has handed to ZeroMQ are those of a subset of these slots, in
  order: message number \<open>k\<close> carries the header of the window with integration number \<open>k\<close> and the time stamps of slot \<open>k\<close>, and the
  window's channels of slot \<open>k\<close>.
\<close>

theorem results_delivered_in_order:
  assumes "new_GpuPfbFft fp cfg taps = Inr g0" and "rs0 = start_sender thread ptr envs envs' rs" "rs_windows rs = new_windows ws"
    and "delivery_run thread ptr enc fp rnd fft xl cfg g0 rs0 d"
    and "cfg_observation_mode cfg = SPECTRAL" "cfg_win_channels cfg \<le> Max_nfft"
    and "j < length ws" "s_socket (rw_sender (rs_windows rs0 ! j)) = Some c"
  shows "(\<exists>rest. dl_published d = dl_sent d @ rest \<and> length rest \<le> NUM_SLOTS)
    \<and> (\<exists>ok. sent_messages (rw_zmq (rs_windows (dl_sender d) ! j)) =
         map (\<lambda>k. (c, result_message enc fp xl cfg (m_Nfft g0) (ws ! j) k (dl_published d ! k))) (filter ok [0..<length (dl_sent d)]))"
proof -
  note g = new_GpuPfbFft_ring [OF assms(1)] and w = start_window [OF assms(7,2,3,8)]
  have idx: "rs_idx rs0 = 0" by (simp add: assms(2) start_sender_def)
  have ring: "ring_inv \<lparr>dl_gpu = g0, dl_sender = rs0, dl_published = [], dl_sent = []\<rparr>"
    by (rule delivery_ring [OF run_start g(1,2) idx g(3)])
  have size: "16 * nat (cfg_win_channels cfg) \<le> UINT32_MAX - 103" using assms(6) by (simp add: Max_nfft_def UINT32_MAX_def)
  have inv: "ring_inv d" "window_inv thread enc fp xl cfg (m_Nfft g0) (ws ! j) c (dl_sent d) (rs_windows (dl_sender d) ! j)"
    using delivery_windows [OF assms(4) _ size ring w(1) w(2)] assms(5) by (simp_all add: observing_def)
  have pre: "take (length (dl_sent d)) (dl_published d) = dl_sent d" "length (dl_published d) \<le> length (dl_sent d) + NUM_SLOTS"
    using inv(1) by (simp_all add: ring_inv_def Let_def)
  have "dl_published d = dl_sent d @ drop (length (dl_sent d)) (dl_published d)" using pre(1) by (metis append_take_drop_id)
  moreover obtain ok where "sent_messages (rw_zmq (rs_windows (dl_sender d) ! j)) =
      map (\<lambda>k. (c, result_message enc fp xl cfg (m_Nfft g0) (ws ! j) k (dl_sent d ! k))) (filter ok [0..<length (dl_sent d)])"
    using inv(2) by (auto simp: window_inv_def)
  moreover have "dl_sent d ! k = dl_published d ! k" if "k < length (dl_sent d)" for k
    using that pre(1) by (metis nth_take)
  ultimately show ?thesis using pre(2) by (auto intro!: exI [of _ "drop (length (dl_sent d)) (dl_published d)"] exI [of _ ok])
qed


section \<open>A run\<close>

text \<open>The worker of the demonstration publishes a slot, and the sender takes it.\<close>

lemma first_publication:
  assumes "delivery_run thread ptr enc fp rnd fft xl cfg g0 rs0 d" "dl_published d = []" "dl_sent d = []"
    and g0: "length (m_hring g0) = NUM_SLOTS" "m_hhead g0 = 0" "rs_idx rs0 = 0" "\<forall>s \<in> set (m_hring g0). \<not> slot_used s"
    and "subband_run fp rnd fft cfg qA qB (dl_gpu d) \<noteq> []" "dl_sender d = rs0"
  shows "\<exists>d'. delivery_run thread ptr enc fp rnd fft xl cfg g0 rs0 d' \<and> length (dl_published d') = 1 \<and> dl_sent d' = [] \<and> dl_sender d' = rs0"
  using assms(1-3,8,9)
proof (induction fp rnd fft cfg qA qB "dl_gpu d" arbitrary: d rule: subband_run.induct)
  case (1 fp rnd fft cfg qA qB)
  have ring: "ring_inv d" by (rule delivery_ring [OF 1(2) g0])
  have "m_hhead (dl_gpu d) < NUM_SLOTS" using ring by (simp add: ring_inv_def Let_def)
  then have free: "\<not> slot_used (m_hring (dl_gpu d) ! m_hhead (dl_gpu d))"
    using ring 1(3,4) by (auto simp: ring_inv_def Let_def)
  obtain g qA' qB' where r: "subband_round fp rnd fft cfg qA qB (dl_gpu d) = Some (Inr g, qA', qB')"
    using 1(5) by (subst (asm) subband_run.simps) (auto split: option.splits sum.splits)
  let ?d = "d\<lparr>dl_gpu := g, dl_published := dl_published d @ (if m_hhead g = m_hhead (dl_gpu d) then [] else [m_hring g ! m_hhead (dl_gpu d)])\<rparr>"
  have s: "delivery_run thread ptr enc fp rnd fft xl cfg g0 rs0 ?d" by (rule run_step [OF 1(2) gpu_round [OF r free]])
  show ?case
  proof (cases "m_hhead g = m_hhead (dl_gpu d)")
    case False
    then show ?thesis using s 1(3,4,6) by (intro exI [of _ ?d]) simp
  next
    case True
    have "subband_run fp rnd fft cfg qA' qB' g \<noteq> []" using 1(5) r True by (subst (asm) subband_run.simps) simp
    then show ?thesis using 1(1) [OF r refl, of ?d] True s 1(3,4,6) by simp
  qed
qed

lemma delivery_Nfft:
  assumes "delivery_run thread ptr enc fp rnd fft xl cfg g0 rs0 d" "length (m_hring g0) = NUM_SLOTS" "m_hhead g0 = 0" "rs_idx rs0 = 0"
    "\<forall>s \<in> set (m_hring g0). \<not> slot_used s"
  shows "m_Nfft (dl_gpu d) = m_Nfft g0"
  using assms(1)
proof (induction rule: delivery_run.induct)
  case (run_step d d')
  have "ring_inv d" by (rule delivery_ring [OF run_step(1) assms(2-5)])
  then have h: "m_hhead (dl_gpu d) < length (m_hring (dl_gpu d))" by (simp add: ring_inv_def Let_def)
  from run_step(2) show ?case
  proof cases
    case (gpu_round qA qB g qA' qB')
    then show ?thesis using subband_round_ring [OF gpu_round(2) h] run_step(3) by (simp add: ring_effect_def)
  next
    case (sender_round envs frames g rs slot)
    then show ?thesis using send_round_cases [OF sender_round(2)] run_step(3) by (auto split: if_splits)
  qed (use run_step(3) in simp)
qed simp

definition demo_window_config :: WindowConfig where
  "demo_window_config = \<lparr>w_start_freq = Fin 0, w_end_freq = Fin 256000000, w_start_idx = 0, w_center_freq = Fin 128000000, w_BW = Fin 256000000,
     w_endpoint = ''tcp://10.0.0.1:5000'', w_server_id = 3, w_header = zero_header, w_port = 5000\<rparr>"

definition demo_result_sender :: result_sender where
  "demo_result_sender = \<lparr>rs_idx = 0, rs_windows = new_windows [demo_window_config], rs_local = new_LocalSdfitsWriter, rs_send_failures = 0\<rparr>"

definition demo_started :: result_sender where
  "demo_started = start_sender 7 (\<lambda>_. 0) (\<lambda>_. demo_zmq_env) (\<lambda>_. demo_zmq_env) demo_result_sender"

lemma demo_started_socket: "s_socket (rw_sender (rs_windows demo_started ! 0)) = Some 1" "rs_idx demo_started = 0"
  by (simp_all add: demo_started_def start_sender_def demo_result_sender_def new_windows_def prepare_window_def poll_window_def
      wait_until_writable_def ensure_socket_def new_SpectrumSender_def demo_zmq_env_def socket_options_def demo_window_config_def zmq_socket_def Let_def)

lemma send_slot_total:
  assumes "slot_times fp xl cfg nfft slot = Inr st"
  shows "\<exists>rs'. send_slot thread ptr envs enc fp xl cfg nfft slot rs = Inr rs'"
  using assms by (auto simp: send_slot_def split: prod.splits list.splits)

lemma send_round_succeeds:
  assumes "0 < m_Nfft g"
  shows "\<exists>g' rs'. send_round thread ptr envs frames enc fp xl cfg g rs = Inr (g', rs')"
proof -
  have p: "\<exists>dly. pfb_group_delay_ns xl num_taps (m_Nfft g) (nat sampling_rate) = Inr dly"
    using assms by (simp add: pfb_group_delay_ns_def num_taps_def sampling_rate_def Let_def)
  let ?slot = "m_hring g ! rs_idx rs" and ?rs = "rs\<lparr>rs_windows := log_connection_events frames (rs_windows rs)\<rparr>"
  obtain st where "slot_times fp xl cfg (m_Nfft g) ?slot = Inr st" using p by (auto simp: slot_times_def Let_def)
  then obtain rs2 where "send_slot thread ptr envs enc fp xl cfg (m_Nfft g) ?slot ?rs = Inr rs2"
    using send_slot_total [where rs = ?rs] by blast
  then show ?thesis by (simp add: send_round_def Let_def)
qed

lemma demo_delivery:
  "\<exists>g d. new_GpuPfbFft exact_fpu demo_gpu_cfg [] = Inr g
     \<and> delivery_run 7 (\<lambda>_. 0) (\<lambda>_. 0) exact_fpu (\<lambda>x. x) (\<lambda>x. x) (\<lambda>x. x) demo_gpu_cfg g demo_started d
     \<and> length (dl_published d) = 1 \<and> length (dl_sent d) = 1"
proof -
  let ?run = "delivery_run 7 (\<lambda>_. 0) (\<lambda>_. 0) exact_fpu (\<lambda>x. x) (\<lambda>x. x) (\<lambda>x. x) demo_gpu_cfg"
  obtain g s where g: "new_GpuPfbFft exact_fpu demo_gpu_cfg [] = Inr g" "m_Nfft g = 65536"
      and s: "s \<in> set (subband_run exact_fpu (\<lambda>x. x) (\<lambda>x. x) demo_gpu_cfg demo_queue demo_queue g)" using demo_slot by blast
  note ring = new_GpuPfbFft_ring [OF g(1)]
  have ne: "subband_run exact_fpu (\<lambda>x. x) (\<lambda>x. x) demo_gpu_cfg demo_queue demo_queue
      (dl_gpu \<lparr>dl_gpu = g, dl_sender = demo_started, dl_published = [], dl_sent = []\<rparr>) \<noteq> []" using s by auto
  obtain d where d: "?run g demo_started d" "length (dl_published d) = 1" "dl_sent d = []" "dl_sender d = demo_started"
    using first_publication [OF run_start _ _ ring(1,2) demo_started_socket(2) ring(3) ne, of 7 "\<lambda>_. 0" "\<lambda>_. 0" "\<lambda>x. x"] by auto
  have inv: "ring_inv d" by (rule delivery_ring [OF d(1) ring(1,2) demo_started_socket(2) ring(3)])
  have used: "slot_used (m_hring (dl_gpu d) ! rs_idx (dl_sender d))" using inv d(2,3) by (simp add: ring_inv_def Let_def)
  have n: "m_Nfft (dl_gpu d) = m_Nfft g" using d(1)
    by (rule delivery_Nfft [OF _ ring(1,2) demo_started_socket(2) ring(3)])
  obtain g' rs' where r: "send_round 7 (\<lambda>_. 0) (\<lambda>_. demo_zmq_env) (\<lambda>_. []) (\<lambda>_. 0) exact_fpu (\<lambda>x. x) demo_gpu_cfg (dl_gpu d) (dl_sender d) = Inr (g', rs')"
    using send_round_succeeds [of "dl_gpu d"] n g(2) by fastforce
  show ?thesis using run_step [OF d(1) sender_round [OF r refl]] used d(2,3) g(1)
    by (intro exI [of _ g] exI conjI) (assumption | simp)+
qed

theorem results_delivered_in_order_witness:
  "\<exists>g d. new_GpuPfbFft exact_fpu demo_gpu_cfg [] = Inr g \<and> length (dl_sent d) = 1 \<and> dl_published d = dl_sent d
     \<and> delivery_run 7 (\<lambda>_. 0) (\<lambda>_. 0) exact_fpu (\<lambda>x. x) (\<lambda>x. x) (\<lambda>x. x) demo_gpu_cfg g demo_started d"
proof -
  obtain g d where d: "new_GpuPfbFft exact_fpu demo_gpu_cfg [] = Inr g"
      "delivery_run 7 (\<lambda>_. 0) (\<lambda>_. 0) exact_fpu (\<lambda>x. x) (\<lambda>x. x) (\<lambda>x. x) demo_gpu_cfg g demo_started d"
      "length (dl_published d) = 1" "length (dl_sent d) = 1" using demo_delivery by blast
  have c: "cfg_observation_mode demo_gpu_cfg = SPECTRAL" "cfg_win_channels demo_gpu_cfg \<le> Max_nfft"
    by (simp_all add: demo_gpu_cfg_def new_GlobalConfig_def Max_nfft_def)
  have w: "rs_windows demo_result_sender = new_windows [demo_window_config]" by (simp add: demo_result_sender_def)
  obtain rest where "dl_published d = dl_sent d @ rest"
    using results_delivered_in_order [OF d(1) demo_started_def w d(2) c, of 0 1] demo_started_socket(1) by auto
  then have "dl_published d = dl_sent d" using d(3,4) by simp
  then show ?thesis using d by blast
qed

end
