(* ===== verification/Dpdk_Setup.thy ===== *)
theory Dpdk_Setup
  imports Packet_Receiver Global_Config
begin

text \<open>
  Start of the receive side, the setup part of \<^verbatim>\<open>src/dpdk.cpp\<close>: assignment of worker lcores to receive queues, the flow rules of a port
  and the launch of the workers. DPDK is a parameter: the outcome of each call is an input, and a rule
  that was created is an entry of the port's rule list. \<^verbatim>\<open>rte_exit\<close> and \<^verbatim>\<open>std::exit\<close> are error values.
\<close>

section \<open>Flow rules\<close>

datatype flow_pattern = Udp_dst u16 u16 | Any_ether

datatype flow_action = To_queue u16 | Drop_packet

record flow_rule =
  fr_ingress :: bool
  fr_priority :: nat
  fr_pattern :: flow_pattern
  fr_action :: flow_action

text \<open>The first argument of \<open>Udp_dst\<close> is the value to compare with, the second the mask.\<close>

definition create_udp_dst_flow :: "bool \<Rightarrow> u16 \<Rightarrow> u16 \<Rightarrow> flow_rule option" where
  "create_udp_dst_flow ok dst_port queue_id =
     (if ok then Some \<lparr>fr_ingress = True, fr_priority = 0, fr_pattern = Udp_dst dst_port 0xFFFF, fr_action = To_queue queue_id\<rparr> else None)"

definition create_catch_all_drop :: "bool \<Rightarrow> flow_rule option" where
  "create_catch_all_drop ok =
     (if ok then Some \<lparr>fr_ingress = True, fr_priority = 2, fr_pattern = Any_ether, fr_action = Drop_packet\<rparr> else None)"

section \<open>Ports\<close>

record port_state =
  ps_isolated :: bool
  ps_queues :: "nat list"
  ps_started :: bool
  ps_rules :: "flow_rule list"

definition new_port :: port_state where
  "new_port = \<lparr>ps_isolated = False, ps_queues = [], ps_started = False, ps_rules = []\<rparr>"

record port_env =
  pe_isolate :: bool
  pe_configure :: int
  pe_queue :: "nat \<Rightarrow> int"
  pe_start :: int
  pe_flow :: "nat \<Rightarrow> bool"
  pe_drop :: bool

fun setup_queues :: "port_env \<Rightarrow> nat \<Rightarrow> nat \<Rightarrow> port_state \<Rightarrow> int \<times> port_state" where
  "setup_queues env q 0 s = (0, s)"
| "setup_queues env q (Suc n) s =
     (if pe_queue env q < 0 then (pe_queue env q, s) else setup_queues env (q + 1) n (s\<lparr>ps_queues := ps_queues s @ [q]\<rparr>))"

fun create_flows :: "port_env \<Rightarrow> nat \<Rightarrow> nat \<Rightarrow> port_state \<Rightarrow> int \<times> port_state" where
  "create_flows env i 0 s = (0, s)"
| "create_flows env i (Suc n) s =
     (case create_udp_dst_flow (pe_flow env i) (60000 + of_nat i) (of_nat i) of
        None \<Rightarrow> (- 1, s)
      | Some r \<Rightarrow> create_flows env (i + 1) n (s\<lparr>ps_rules := ps_rules s @ [r]\<rparr>))"

definition port_init :: "port_env \<Rightarrow> nat \<Rightarrow> int \<times> port_state" where
  "port_init env nb_rx_queues =
     (let s = new_port\<lparr>ps_isolated := pe_isolate env\<rparr> in
      if pe_configure env < 0 then (pe_configure env, s)
      else
        case setup_queues env 0 nb_rx_queues s of (r, s) \<Rightarrow>
          if r < 0 then (r, s)
          else if pe_start env < 0 then (pe_start env, s)
          else
            case create_flows env 0 nb_rx_queues (s\<lparr>ps_started := True\<rparr>) of (r, s) \<Rightarrow>
              if r < 0 then (r, s)
              else if ps_isolated s then (0, s)
              else
                case create_catch_all_drop (pe_drop env) of
                  None \<Rightarrow> (- 1, s)
                | Some d \<Rightarrow> (0, s\<lparr>ps_rules := ps_rules s @ [d]\<rparr>))"

section \<open>Worker lcores\<close>

record lcore_param =
  lp_port_id :: u16
  lp_queue_id :: u16
  lp_lcore_id :: u16
  lp_dest_port :: u16
  lp_ring_id :: u16

text \<open>
  The machine as EAL shows it: the enabled lcores in the order of \<^verbatim>\<open>RTE_LCORE_FOREACH\<close>, the main lcore, the number of
  Ethernet devices, and the NUMA nodes of devices (negative when unknown) and lcores.
\<close>

record eal =
  ea_lcores :: "nat list"
  ea_main :: nat
  ea_ports :: nat
  ea_port_socket :: "nat \<Rightarrow> int"
  ea_lcore_socket :: "nat \<Rightarrow> nat"

definition get_port_by_name :: "(nat \<Rightarrow> string option) \<Rightarrow> nat \<Rightarrow> string \<Rightarrow> int" where
  "get_port_by_name names nb_ports name =
     (case find (\<lambda>p. names p = Some name) [0..<nb_ports] of None \<Rightarrow> - 1 | Some p \<Rightarrow> int p)"

definition pick_lcore :: "eal \<Rightarrow> nat list \<Rightarrow> nat list \<Rightarrow> nat \<Rightarrow> nat option" where
  "pick_lcore e workers assigned port =
     (case find (\<lambda>lc. lc \<notin> set assigned \<and> 0 \<le> ea_port_socket e port \<and> int (ea_lcore_socket e lc) = ea_port_socket e port) workers of
        Some lc \<Rightarrow> Some lc
      | None \<Rightarrow> find (\<lambda>lc. lc \<notin> set assigned) workers)"

text \<open>The loop over the queues of a port, from queue \<open>q\<close>, with \<open>n\<close> queues left; the lcores assigned so far and the next ring id are carried along.\<close>

fun assign_queues :: "eal \<Rightarrow> nat list \<Rightarrow> nat \<Rightarrow> u16 \<Rightarrow> nat \<Rightarrow> nat \<Rightarrow> nat list \<times> nat \<times> lcore_param list \<Rightarrow>
    (nat list \<times> nat \<times> lcore_param list) result" where
  "assign_queues e workers port start q 0 st = Inr st"
| "assign_queues e workers port start q (Suc n) (assigned, ring, ps) =
     (case pick_lcore e workers assigned port of
        None \<Rightarrow> Inl (Runtime_error (''Not enough lcores for port '' @ decimal port @ '', queue '' @ decimal q))
      | Some lc \<Rightarrow>
          assign_queues e workers port start (q + 1) n (assigned @ [lc], ring + 1,
            ps @ [\<lparr>lp_port_id = of_nat port, lp_queue_id = of_nat q, lp_lcore_id = of_nat lc, lp_dest_port = start + of_nat q, lp_ring_id = of_nat ring\<rparr>]))"

fun assign_ports :: "eal \<Rightarrow> nat list \<Rightarrow> u16 \<Rightarrow> nat \<Rightarrow> nat list \<Rightarrow> nat list \<times> nat \<times> lcore_param list \<Rightarrow>
    (nat list \<times> nat \<times> lcore_param list) result" where
  "assign_ports e workers start n [] st = Inr st"
| "assign_ports e workers start n (port # ports) st =
     (if port \<ge> ea_ports e then Inl (Runtime_error (''Invalid port_id: '' @ decimal port))
      else bind_result (assign_queues e workers port start 0 n st) (assign_ports e workers start n ports))"

definition worker_lcores :: "eal \<Rightarrow> nat list" where
  "worker_lcores e = filter (\<lambda>lc. lc \<noteq> ea_main e) (ea_lcores e)"

definition generate_lcore_params :: "eal \<Rightarrow> nat list \<Rightarrow> nat \<Rightarrow> u16 \<Rightarrow> lcore_param list result" where
  "generate_lcore_params e port_ids queues_per_port start_dest_port =
     (let workers = worker_lcores e; required = length port_ids * queues_per_port in
      if length workers < required
      then Inl (Runtime_error (''Not enough DPDK worker lcores: need '' @ decimal required @ '', found '' @ decimal (length workers)))
      else bind_result (assign_ports e workers start_dest_port queues_per_port port_ids ([], 0, [])) (\<lambda>(_, _, ps). Inr ps))"

section \<open>The lcore mapping\<close>

definition CPU_SETSIZE :: nat where "CPU_SETSIZE = 1024"

fun lcore_mapping :: "nat \<Rightarrow> nat \<Rightarrow> nat list \<Rightarrow> string" where
  "lcore_mapping max_lcore k [] = ''''"
| "lcore_mapping max_lcore k (cpu # cpus) =
     (if k \<ge> max_lcore then ''''
      else (if k \<noteq> 0 then '','' else '''') @ decimal k @ ''@'' @ decimal cpu @ lcore_mapping max_lcore (k + 1) cpus)"

text \<open>
  The argument \<open>setaffinity\<close> gives the affinity of the thread after the request to run on a set of CPUs, whether or not it was granted;
  \<open>None\<close> when it cannot be read.
\<close>

definition build_eal_lcore_mapping :: "nat \<Rightarrow> int \<Rightarrow> (nat set \<Rightarrow> nat set option) \<Rightarrow> string result" where
  "build_eal_lcore_mapping max_lcore online setaffinity =
     (if online \<le> 0 then Inl (Runtime_error ''Cannot determine the number of online CPUs'')
      else
        case setaffinity {..<nat (min online (int CPU_SETSIZE))} of
          None \<Rightarrow> Inl (Runtime_error ''Cannot read process CPU affinity'')
        | Some affinity \<Rightarrow>
            let cpus = filter (\<lambda>cpu. cpu \<in> affinity) [0..<CPU_SETSIZE] in
            if cpus = [] \<or> max_lcore = 0 then Inl (Runtime_error ''Process CPU affinity contains no usable CPUs'')
            else Inr (lcore_mapping max_lcore 0 cpus))"

section \<open>Launch\<close>

datatype worker_loop = Recv2mem | Lcore_drop

text \<open>The loop over the parameters; \<open>launch\<close> is the result of \<^verbatim>\<open>rte_eal_remote_launch\<close>, \<open>0\<close> for success.\<close>

fun launch_workers :: "(nat \<Rightarrow> int) \<Rightarrow> GlobalConfig \<Rightarrow> nat \<Rightarrow> lcore_param list \<Rightarrow> (worker_loop \<times> lcore_param) list result" where
  "launch_workers launch cfg i [] = Inr []"
| "launch_workers launch cfg i (p # ps) =
     (if launch i \<noteq> 0 then Inl (Runtime_error ''Failed to launch DPDK worker'')
      else bind_result (launch_workers launch cfg (i + 1) ps) (\<lambda>ws.
        Inr ((if sb_enable (cfg_subbands cfg ! (i div 2)) then Recv2mem else Lcore_drop, p) # ws)))"

record dpdk_env =
  dk_max_lcore :: nat
  dk_online :: int
  dk_setaffinity :: "nat set \<Rightarrow> nat set option"
  dk_init :: "string list \<Rightarrow> eal option"
  dk_mempool :: bool
  dk_port :: "nat \<Rightarrow> port_env"
  dk_launch :: "nat \<Rightarrow> int"

text \<open>The result is what runs when \<^verbatim>\<open>rte_eal_mp_wait_lcore\<close> is reached: the launched workers and the two ports.\<close>

definition dpdk :: "dpdk_env \<Rightarrow> GlobalConfig \<Rightarrow> ((worker_loop \<times> lcore_param) list \<times> port_state list) result" where
  "dpdk env cfg =
     bind_result (build_eal_lcore_mapping (dk_max_lcore env) (dk_online env) (dk_setaffinity env)) (\<lambda>mapping.
       case dk_init env [''7mm_recv'', ''--lcores'', mapping, ''-n'', ''4''] of
         None \<Rightarrow> Inl (Runtime_error ''Error with EAL init'')
       | Some e \<Rightarrow>
           bind_result (generate_lcore_params e [0, 1] 8 60000) (\<lambda>ps.
             if \<not> dk_mempool env then Inl (Runtime_error ''Cannot create mbuf pool'')
             else
               case port_init (dk_port env 0) 8 of (r0, p0) \<Rightarrow>
                 if r0 \<noteq> 0 then Inl (Runtime_error ''Cannot init port 0'')
                 else
                   case port_init (dk_port env 1) 8 of (r1, p1) \<Rightarrow>
                     if r1 \<noteq> 0 then Inl (Runtime_error ''Cannot init port 0'')
                     else bind_result (launch_workers (dk_launch env) cfg 0 ps) (\<lambda>ws. Inr (ws, [p0, p1]))))"

section \<open>Assignment\<close>

lemma pick_lcore_Some:
  assumes "pick_lcore e workers assigned port = Some lc"
  shows "lc \<in> set workers \<and> lc \<notin> set assigned"
  using assms by (auto simp: pick_lcore_def find_Some_iff split: option.splits)

lemma pick_lcore_exists:
  assumes "length assigned < length workers" "distinct workers"
  shows "\<exists>lc. pick_lcore e workers assigned port = Some lc"
proof -
  have "card (set assigned) < card (set workers)" using assms card_length [of assigned] by (simp add: distinct_card)
  then have "\<not> set workers \<subseteq> set assigned" by (meson List.finite_set card_mono not_le)
  then have "find (\<lambda>lc. lc \<notin> set assigned) workers \<noteq> None" by (auto simp: find_None_iff)
  then show ?thesis by (auto simp: pick_lcore_def split: option.splits)
qed

text \<open>The entry for queue \<open>q\<close> of a port.\<close>

definition entry_ok :: "u16 \<Rightarrow> nat \<Rightarrow> nat \<Rightarrow> nat \<Rightarrow> nat \<Rightarrow> lcore_param \<Rightarrow> bool" where
  "entry_ok start port q ring lc p \<longleftrightarrow>
     p = \<lparr>lp_port_id = of_nat port, lp_queue_id = of_nat q, lp_lcore_id = of_nat lc, lp_dest_port = start + of_nat q, lp_ring_id = of_nat ring\<rparr>"

lemma assign_queues_ok:
  assumes "length assigned + n \<le> length workers" "distinct workers" "set assigned \<subseteq> set workers" "distinct assigned"
  shows "\<exists>lcs qs. assign_queues e workers port start q n (assigned, ring, ps) = Inr (assigned @ lcs, ring + n, ps @ qs)
    \<and> length lcs = n \<and> length qs = n \<and> distinct (assigned @ lcs) \<and> set (assigned @ lcs) \<subseteq> set workers
    \<and> (\<forall>k < n. entry_ok start port (q + k) (ring + k) (lcs ! k) (qs ! k))"
  using assms
proof (induction n arbitrary: q assigned ring ps)
  case (Suc n)
  obtain lc where lc: "pick_lcore e workers assigned port = Some lc" using pick_lcore_exists [of assigned workers e port] Suc.prems by auto
  let ?p = "\<lparr>lp_port_id = of_nat port, lp_queue_id = of_nat q, lp_lcore_id = of_nat lc, lp_dest_port = start + of_nat q, lp_ring_id = of_nat ring\<rparr>"
  have pre: "length (assigned @ [lc]) + n \<le> length workers" "set (assigned @ [lc]) \<subseteq> set workers" "distinct (assigned @ [lc])"
    using Suc.prems pick_lcore_Some [OF lc] by auto
  obtain lcs qs where r: "assign_queues e workers port start (q + 1) n (assigned @ [lc], ring + 1, ps @ [?p])
        = Inr ((assigned @ [lc]) @ lcs, ring + 1 + n, (ps @ [?p]) @ qs)"
      "length lcs = n" "length qs = n" "distinct ((assigned @ [lc]) @ lcs)" "set ((assigned @ [lc]) @ lcs) \<subseteq> set workers"
      "\<forall>k < n. entry_ok start port (q + 1 + k) (ring + 1 + k) (lcs ! k) (qs ! k)"
    using Suc.IH [OF pre(1) Suc.prems(2) pre(2,3)] by blast
  have "entry_ok start port (q + k) (ring + k) ((lc # lcs) ! k) ((?p # qs) ! k)" if "k < Suc n" for k
    using that r(6) by (cases k) (auto simp: entry_ok_def)
  then show ?case using r(1-5) lc by (intro exI [of _ "lc # lcs"] exI [of _ "?p # qs"]) simp
qed simp

lemma assign_ports_ok:
  assumes "length assigned + length ports * n \<le> length workers" "distinct workers" "set assigned \<subseteq> set workers" "distinct assigned"
    and "\<forall>p \<in> set ports. p < ea_ports e"
  shows "\<exists>lcs qs. assign_ports e workers start n ports (assigned, ring, ps) = Inr (assigned @ lcs, ring + length ports * n, ps @ qs)
    \<and> length lcs = length ports * n \<and> length qs = length ports * n \<and> distinct (assigned @ lcs) \<and> set (assigned @ lcs) \<subseteq> set workers
    \<and> (\<forall>k < length ports * n. entry_ok start (ports ! (k div n)) (k mod n) (ring + k) (lcs ! k) (qs ! k))"
  using assms
proof (induction ports arbitrary: assigned ring ps)
  case (Cons port ports)
  have pre: "length assigned + n \<le> length workers" using Cons.prems(1) by simp
  obtain lcs qs where q: "assign_queues e workers port start 0 n (assigned, ring, ps) = Inr (assigned @ lcs, ring + n, ps @ qs)"
      "length lcs = n" "length qs = n" "distinct (assigned @ lcs)" "set (assigned @ lcs) \<subseteq> set workers"
      "\<forall>k < n. entry_ok start port (0 + k) (ring + k) (lcs ! k) (qs ! k)"
    using assign_queues_ok [OF pre Cons.prems(2-4), of e port start 0 ring ps] by blast
  have ports: "\<forall>p \<in> set ports. p < ea_ports e" using Cons.prems(5) by simp
  have pre': "length (assigned @ lcs) + length ports * n \<le> length workers" using Cons.prems(1) q(2) by simp
  obtain lcs' qs' where r: "assign_ports e workers start n ports (assigned @ lcs, ring + n, ps @ qs)
        = Inr ((assigned @ lcs) @ lcs', ring + n + length ports * n, (ps @ qs) @ qs')"
      "length lcs' = length ports * n" "length qs' = length ports * n" "distinct ((assigned @ lcs) @ lcs')"
      "set ((assigned @ lcs) @ lcs') \<subseteq> set workers"
      "\<forall>k < length ports * n. entry_ok start (ports ! (k div n)) (k mod n) (ring + n + k) (lcs' ! k) (qs' ! k)"
    using Cons.IH [OF pre' Cons.prems(2) q(5,4) ports, of "ring + n" "ps @ qs"] by blast
  have "entry_ok start ((port # ports) ! (k div n)) (k mod n) (ring + k) ((lcs @ lcs') ! k) ((qs @ qs') ! k)" if "k < length (port # ports) * n" for k
  proof (cases "k < n")
    case True
    then show ?thesis using q(2,3,6) by (simp add: nth_append)
  next
    case False
    have "0 < n" using that by (cases n) simp_all
    then have n: "k - n < length ports * n" "k div n = Suc ((k - n) div n)" "k mod n = (k - n) mod n"
      using False that by (auto simp: le_div_geq le_mod_geq)
    then show ?thesis using r(6)[rule_format, OF n(1)] False q(2,3) n(2,3) by (simp add: nth_append)
  qed
  then show ?case using q(1-3) r(1-5) Cons.prems(5)
    by (intro exI [of _ "lcs @ lcs'"] exI [of _ "qs @ qs'"]) (simp add: add.assoc)
qed simp


lemma generate_ok:
  assumes "length port_ids * n \<le> length (worker_lcores e)" "distinct (ea_lcores e)" "\<forall>p \<in> set port_ids. p < ea_ports e"
  shows "\<exists>lcs ps. generate_lcore_params e port_ids n start = Inr ps \<and> length ps = length port_ids * n \<and> length lcs = length port_ids * n
    \<and> distinct lcs \<and> set lcs \<subseteq> set (ea_lcores e) - {ea_main e}
    \<and> (\<forall>k < length port_ids * n. entry_ok start (port_ids ! (k div n)) (k mod n) k (lcs ! k) (ps ! k))"
proof -
  have d: "distinct (worker_lcores e)" "set (worker_lcores e) = set (ea_lcores e) - {ea_main e}"
    using assms(2) by (auto simp: worker_lcores_def)
  show ?thesis
    using assign_ports_ok [of "[]" port_ids n "worker_lcores e" e start 0 "[]"] assms(1,3) d
    by (auto simp: generate_lcore_params_def Let_def)
qed

lemma assign_ports_valid: "assign_ports e workers start n ports st = Inr r \<Longrightarrow> \<forall>p \<in> set ports. p < ea_ports e"
  by (induction ports arbitrary: st) (auto simp: bind_result_Inr_iff not_le split: if_splits)

lemma generate_Inr_iff:
  assumes "distinct (ea_lcores e)"
  shows "(\<exists>ps. generate_lcore_params e port_ids n start = Inr ps)
    \<longleftrightarrow> length port_ids * n \<le> length (worker_lcores e) \<and> (\<forall>p \<in> set port_ids. p < ea_ports e)"
proof
  assume "\<exists>ps. generate_lcore_params e port_ids n start = Inr ps"
  then show "length port_ids * n \<le> length (worker_lcores e) \<and> (\<forall>p \<in> set port_ids. p < ea_ports e)"
    by (auto simp: generate_lcore_params_def Let_def bind_result_Inr_iff dest: assign_ports_valid split: if_splits)
next
  assume "length port_ids * n \<le> length (worker_lcores e) \<and> (\<forall>p \<in> set port_ids. p < ea_ports e)"
  then show "\<exists>ps. generate_lcore_params e port_ids n start = Inr ps" using generate_ok [OF _ assms] by blast
qed

section \<open>Ports and launches\<close>

definition udp_rule :: "nat \<Rightarrow> flow_rule" where
  "udp_rule i = \<lparr>fr_ingress = True, fr_priority = 0, fr_pattern = Udp_dst (60000 + of_nat i) 0xFFFF, fr_action = To_queue (of_nat i)\<rparr>"

definition drop_rule :: flow_rule where
  "drop_rule = \<lparr>fr_ingress = True, fr_priority = 2, fr_pattern = Any_ether, fr_action = Drop_packet\<rparr>"

lemma setup_queues_keeps: "setup_queues env q n s = (r, s') \<Longrightarrow> ps_rules s' = ps_rules s \<and> ps_isolated s' = ps_isolated s"
  by (induction env q n s arbitrary: r s' rule: setup_queues.induct) (auto split: if_splits)

lemma create_flows_rules:
  "create_flows env i n s = (r, s') \<Longrightarrow> 0 \<le> r \<Longrightarrow> ps_rules s' = ps_rules s @ map udp_rule [i..<i + n] \<and> ps_isolated s' = ps_isolated s"
proof (induction n arbitrary: i s)
  case (Suc n)
  have up: "[i..<i + Suc n] = i # [i + 1..<i + 1 + n]" by (simp add: upt_conv_Cons)
  show ?case using Suc unfolding up by (auto simp: create_udp_dst_flow_def udp_rule_def split: if_splits)
qed simp

lemma port_init_rules:
  assumes "port_init env n = (0, s)"
  shows "ps_rules s = map udp_rule [0..<n] @ (if ps_isolated s then [] else [drop_rule])"
  using assms setup_queues_keeps create_flows_rules
  by (fastforce simp: port_init_def Let_def new_port_def create_catch_all_drop_def drop_rule_def split: if_splits prod.splits option.splits)

lemma launch_workers_nth:
  "launch_workers launch cfg i ps = Inr ws \<Longrightarrow> length ws = length ps
    \<and> (\<forall>k < length ps. ws ! k = (if sb_enable (cfg_subbands cfg ! ((i + k) div 2)) then Recv2mem else Lcore_drop, ps ! k))"
proof (induction ps arbitrary: i ws)
  case (Cons p ps)
  then obtain ws' where w: "launch_workers launch cfg (i + 1) ps = Inr ws'"
      "ws = (if sb_enable (cfg_subbands cfg ! (i div 2)) then Recv2mem else Lcore_drop, p) # ws'"
    by (auto simp: bind_result_Inr_iff split: if_splits)
  show ?case using Cons.IH [OF w(1)] by (auto simp: w(2) nth_Cons split: nat.splits)
qed simp

lemma dpdk_started:
  assumes "dpdk env cfg = Inr (ws, ports)"
  shows "\<exists>mapping e ps p0 p1. dk_init env [''7mm_recv'', ''--lcores'', mapping, ''-n'', ''4''] = Some e \<and> generate_lcore_params e [0, 1] 8 60000 = Inr ps
    \<and> port_init (dk_port env 0) 8 = (0, p0) \<and> port_init (dk_port env 1) 8 = (0, p1) \<and> ports = [p0, p1]
    \<and> launch_workers (dk_launch env) cfg 0 ps = Inr ws"
proof -
  obtain r0 p0 r1 p1 where p: "port_init (dk_port env 0) 8 = (r0, p0)" "port_init (dk_port env 1) 8 = (r1, p1)" by (metis surj_pair)
  obtain mapping e ps where "dk_init env [''7mm_recv'', ''--lcores'', mapping, ''-n'', ''4''] = Some e" "generate_lcore_params e [0, 1] 8 60000 = Inr ps"
      "r0 = 0 \<and> r1 = 0 \<and> launch_workers (dk_launch env) cfg 0 ps = Inr ws \<and> ports = [p0, p1]"
    using assms by (auto simp: dpdk_def bind_result_Inr_iff p [unfolded One_nat_def] split: option.splits if_splits)
  then show ?thesis using p by blast
qed

section \<open>Packets\<close>

text \<open>A packet at a port: its UDP destination, \<open>None\<close> when it is not UDP over IPv4.\<close>

definition rule_matches :: "flow_rule \<Rightarrow> u16 option \<Rightarrow> bool" where
  "rule_matches r pkt \<longleftrightarrow> fr_ingress r \<and>
     (case fr_pattern r of
        Any_ether \<Rightarrow> True
      | Udp_dst value msk \<Rightarrow> (case pkt of None \<Rightarrow> False | Some dst \<Rightarrow> dst AND msk = value AND msk))"

text \<open>
  The documented behaviour of a device: a packet that matches rules gets the action of the matching rule with the lowest
  priority number, when there is one.
\<close>

definition follows_rules :: "(flow_rule list \<Rightarrow> u16 option \<Rightarrow> flow_action) \<Rightarrow> bool" where
  "follows_rules steer \<longleftrightarrow>
     (\<forall>rules pkt r. r \<in> set rules \<and> rule_matches r pkt
        \<and> (\<forall>r' \<in> set rules. rule_matches r' pkt \<longrightarrow> r' = r \<or> fr_priority r < fr_priority r')
        \<longrightarrow> steer rules pkt = fr_action r)"

lemma udp_rule_matches:
  assumes "i < 8" "j < 8"
  shows "rule_matches (udp_rule i) (Some (60000 + of_nat j)) \<longleftrightarrow> i = j"
proof -
  have "(0xFFFF :: u16) = - 1" by simp
  then have m: "x AND 0xFFFF = x" for x :: u16 by (metis and.right_neutral)
  have "(of_nat i = (of_nat j :: u16)) \<longleftrightarrow> i = j" using assms by (simp add: word_eq_unat unat_of_nat)
  then show ?thesis by (auto simp: rule_matches_def udp_rule_def m)
qed

lemma steer_to_queue:
  assumes "follows_rules steer" "port_init env 8 = (0, s)" "q < 8"
  shows "steer (ps_rules s) (Some (60000 + of_nat q)) = To_queue (of_nat q)"
proof -
  note rules = port_init_rules [OF assms(2)]
  have "steer (ps_rules s) (Some (60000 + of_nat q)) = fr_action (udp_rule q)"
  proof (rule assms(1)[unfolded follows_rules_def, rule_format], intro conjI ballI impI)
    show "udp_rule q \<in> set (ps_rules s)" using assms(3) by (simp add: rules)
    show "rule_matches (udp_rule q) (Some (60000 + of_nat q))" using udp_rule_matches assms(3) by simp
  next
    fix r assume r: "r \<in> set (ps_rules s)" "rule_matches r (Some (60000 + of_nat q))"
    then show "r = udp_rule q \<or> fr_priority (udp_rule q) < fr_priority r"
      using udp_rule_matches [OF _ assms(3)] by (auto simp: rules udp_rule_def drop_rule_def split: if_splits)
  qed
  then show ?thesis by (simp add: udp_rule_def)
qed

text \<open>The workers that a started program runs, and their queues.\<close>

lemma workers_launched:
  assumes "dpdk env cfg = Inr (ws, ports)" "\<forall>args e. dk_init env args = Some e \<longrightarrow> distinct (ea_lcores e)" "k < 16"
  shows "length ws = 16" "lp_port_id (snd (ws ! k)) = of_nat ([0, 1] ! (k div 8))" "lp_queue_id (snd (ws ! k)) = of_nat (k mod 8)"
    "lp_dest_port (snd (ws ! k)) = 60000 + of_nat (k mod 8)" "lp_ring_id (snd (ws ! k)) = of_nat k"
    "fst (ws ! k) = (if sb_enable (cfg_subbands cfg ! (k div 2)) then Recv2mem else Lcore_drop)"
proof -
  obtain mapping e ps where s: "dk_init env [''7mm_recv'', ''--lcores'', mapping, ''-n'', ''4''] = Some e" "generate_lcore_params e [0, 1] 8 60000 = Inr ps"
      "launch_workers (dk_launch env) cfg 0 ps = Inr ws"
    using dpdk_started [OF assms(1)] by blast
  have d: "distinct (ea_lcores e)" using assms(2) s(1) by blast
  have "length [0, 1 :: nat] * 8 \<le> length (worker_lcores e)" "\<forall>p \<in> set [0, 1]. p < ea_ports e" using generate_Inr_iff [OF d] s(2) by blast+
  from generate_ok [OF this(1) d this(2), of 60000] s(2)
  have g: "length ps = 16" "\<forall>k < 16. lp_port_id (ps ! k) = of_nat ([0, 1] ! (k div 8)) \<and> lp_queue_id (ps ! k) = of_nat (k mod 8)
      \<and> lp_dest_port (ps ! k) = 60000 + of_nat (k mod 8) \<and> lp_ring_id (ps ! k) = of_nat k"
    by (auto simp: entry_ok_def)
  have w: "length ws = 16" "\<forall>k < 16. ws ! k = (if sb_enable (cfg_subbands cfg ! (k div 2)) then Recv2mem else Lcore_drop, ps ! k)"
    using launch_workers_nth [OF s(3)] g(1) by simp_all
  then show "length ws = 16" "lp_port_id (snd (ws ! k)) = of_nat ([0, 1] ! (k div 8))" "lp_queue_id (snd (ws ! k)) = of_nat (k mod 8)"
    "lp_dest_port (snd (ws ! k)) = 60000 + of_nat (k mod 8)" "lp_ring_id (snd (ws ! k)) = of_nat k"
    "fst (ws ! k) = (if sb_enable (cfg_subbands cfg ! (k div 2)) then Recv2mem else Lcore_drop)"
    using g assms(3) by simp_all
qed

section \<open>Properties\<close>

text \<open>
  The assignment of workers to receive queues succeeds exactly when there is a worker lcore for every queue and every port exists, and then gives one entry for each queue, port by port:
  the entry of queue \<open>q\<close> on the \<open>p\<close>-th port carries ring id \<open>p * n + q\<close> and destination port \<open>start + q\<close>, and all entries run on different lcores, none of them the main lcore.
\<close>

theorem workers_assigned:
  assumes "distinct (ea_lcores e)"
  shows "((\<exists>ps. generate_lcore_params e port_ids n start = Inr ps) \<longleftrightarrow>
      length port_ids * n \<le> length (worker_lcores e) \<and> (\<forall>p \<in> set port_ids. p < ea_ports e))
    \<and> (\<forall>ps. generate_lcore_params e port_ids n start = Inr ps \<longrightarrow>
      (\<exists>lcs. length ps = length port_ids * n \<and> length lcs = length port_ids * n \<and> distinct lcs \<and> set lcs \<subseteq> set (ea_lcores e) - {ea_main e}
        \<and> (\<forall>k < length port_ids * n. ps ! k = \<lparr>lp_port_id = of_nat (port_ids ! (k div n)), lp_queue_id = of_nat (k mod n),
             lp_lcore_id = of_nat (lcs ! k), lp_dest_port = start + of_nat (k mod n), lp_ring_id = of_nat k\<rparr>)))"
proof (intro conjI allI impI)
  fix ps assume g: "generate_lcore_params e port_ids n start = Inr ps"
  then have "length port_ids * n \<le> length (worker_lcores e)" "\<forall>p \<in> set port_ids. p < ea_ports e" using generate_Inr_iff [OF assms] by blast+
  from generate_ok [OF this(1) assms this(2), of start] g
  show "\<exists>lcs. length ps = length port_ids * n \<and> length lcs = length port_ids * n \<and> distinct lcs \<and> set lcs \<subseteq> set (ea_lcores e) - {ea_main e}
        \<and> (\<forall>k < length port_ids * n. ps ! k = \<lparr>lp_port_id = of_nat (port_ids ! (k div n)), lp_queue_id = of_nat (k mod n),
             lp_lcore_id = of_nat (lcs ! k), lp_dest_port = start + of_nat (k mod n), lp_ring_id = of_nat k\<rparr>)"
    by (auto simp: entry_ok_def)
qed (rule generate_Inr_iff [OF assms])

definition demo_eal :: eal where
  "demo_eal = \<lparr>ea_lcores = [0..<17], ea_main = 0, ea_ports = 2, ea_port_socket = (\<lambda>p. int p), ea_lcore_socket = (\<lambda>lc. lc mod 2)\<rparr>"

lemma demo_eal_workers: "length (worker_lcores demo_eal) = 16"
  by (simp add: worker_lcores_def demo_eal_def upt_rec)

theorem workers_assigned_witness:
  "distinct (ea_lcores demo_eal) \<and> (\<exists>ps. generate_lcore_params demo_eal [0, 1] 8 60000 = Inr ps \<and> length ps = 16)"
proof -
  have d: "distinct (ea_lcores demo_eal)" by (simp add: demo_eal_def)
  note w = workers_assigned [OF d, of "[0, 1]" 8 60000]
  have "length [0, 1 :: nat] * 8 \<le> length (worker_lcores demo_eal) \<and> (\<forall>p \<in> set [0, 1]. p < ea_ports demo_eal)"
    using demo_eal_workers by (simp add: demo_eal_def)
  then obtain ps where ps: "generate_lcore_params demo_eal [0, 1] 8 60000 = Inr ps" using w by blast
  moreover have "length ps = 16" using w ps by auto
  ultimately show ?thesis using d by blast
qed

text \<open>
  C14. Once \<^verbatim>\<open>dpdk\<close> has started, every sample stream has exactly one worker and its packets reach it: a packet for UDP port \<open>60000 + q\<close> that arrives at
  port \<open>p\<close> is steered to queue \<open>q\<close>, and of the sixteen workers exactly the one with ring id \<open>8 * p + q\<close> polls this queue of this port; it accepts this destination port, and it receives
  into memory when the subband of the stream is enabled and discards the packets otherwise.
\<close>

theorem packets_reach_their_stream:
  assumes "dpdk env cfg = Inr (ws, ports)" and "follows_rules steer"
    and "\<forall>args e. dk_init env args = Some e \<longrightarrow> distinct (ea_lcores e)"
    and "p < 2" "q < 8"
  shows "length ws = 16 \<and> steer (ps_rules (ports ! p)) (Some (60000 + of_nat q)) = To_queue (of_nat q)
    \<and> (\<forall>k < 16. lp_port_id (snd (ws ! k)) = of_nat p \<and> lp_queue_id (snd (ws ! k)) = of_nat q \<longleftrightarrow> k = 8 * p + q)
    \<and> lp_ring_id (snd (ws ! (8 * p + q))) = of_nat (8 * p + q) \<and> lp_dest_port (snd (ws ! (8 * p + q))) = 60000 + of_nat q
    \<and> fst (ws ! (8 * p + q)) = (if sb_enable (cfg_subbands cfg ! ((8 * p + q) div 2)) then Recv2mem else Lcore_drop)"
proof -
  obtain p0 p1 where s: "port_init (dk_port env 0) 8 = (0, p0)" "port_init (dk_port env 1) 8 = (0, p1)" "ports = [p0, p1]"
    using dpdk_started [OF assms(1)] by blast
  note w = workers_launched [OF assms(1,3)]
  have steer: "steer (ps_rules (ports ! p)) (Some (60000 + of_nat q)) = To_queue (of_nat q)"
    using steer_to_queue [OF assms(2) s(1) assms(5)] steer_to_queue [OF assms(2) s(2) assms(5)] assms(4) s(3) by (auto simp: less_Suc_eq numeral_2_eq_2)
  have key: "of_nat ([0, 1] ! (k div 8)) = (of_nat p :: u16) \<and> (of_nat (k mod 8) :: u16) = of_nat q \<longleftrightarrow> k = 8 * p + q" if "k < 16" for k
  proof -
    have "k div 8 < 2" using that by auto
    then have "[0, 1] ! (k div 8) = k div 8" by (auto simp: less_Suc_eq numeral_2_eq_2)
    moreover have "(of_nat (k div 8) = (of_nat p :: u16)) \<longleftrightarrow> k div 8 = p" using \<open>k div 8 < 2\<close> assms(4) by (simp add: word_eq_unat unat_of_nat)
    moreover have "(of_nat (k mod 8) = (of_nat q :: u16)) \<longleftrightarrow> k mod 8 = q" using assms(5) by (simp add: word_eq_unat unat_of_nat)
    moreover have "k = 8 * p + q \<longleftrightarrow> k div 8 = p \<and> k mod 8 = q"
    proof
      assume "k = 8 * p + q"
      then show "k div 8 = p \<and> k mod 8 = q" using assms(5) by simp
    next
      assume "k div 8 = p \<and> k mod 8 = q"
      then show "k = 8 * p + q" by (metis mult_div_mod_eq)
    qed
    ultimately show ?thesis by simp
  qed
  have "8 * p + q < 16" "(8 * p + q) mod 8 = q" using assms(4,5) by auto
  then show ?thesis using w(1) [of 0] w(2-6) steer key by simp
qed

text \<open>A machine on which every call succeeds.\<close>

definition demo_dpdk :: dpdk_env where
  "demo_dpdk = \<lparr>dk_max_lcore = 128, dk_online = 17, dk_setaffinity = Some, dk_init = (\<lambda>_. Some demo_eal), dk_mempool = True,
     dk_port = (\<lambda>_. \<lparr>pe_isolate = True, pe_configure = 0, pe_queue = (\<lambda>_. 0), pe_start = 0, pe_flow = (\<lambda>_. True), pe_drop = True\<rparr>), dk_launch = (\<lambda>_. 0)\<rparr>"

text \<open>A device that follows its rules: the first of the matching rules with the least priority number.\<close>

definition demo_steer :: "flow_rule list \<Rightarrow> u16 option \<Rightarrow> flow_action" where
  "demo_steer rules pkt =
     (let ms = filter (\<lambda>r. rule_matches r pkt) rules
      in case find (\<lambda>r. \<forall>r' \<in> set ms. fr_priority r \<le> fr_priority r') ms of None \<Rightarrow> Drop_packet | Some r \<Rightarrow> fr_action r)"

lemma find_SomeD: "find P xs = Some x \<Longrightarrow> x \<in> set xs \<and> P x"
  by (auto simp: find_Some_iff)

lemma demo_steer_follows: "follows_rules demo_steer"
  unfolding follows_rules_def
proof (intro allI impI, elim conjE)
  fix rules pkt r
  assume r: "r \<in> set rules" "rule_matches r pkt" "\<forall>r' \<in> set rules. rule_matches r' pkt \<longrightarrow> r' = r \<or> fr_priority r < fr_priority r'"
  let ?ms = "filter (\<lambda>r. rule_matches r pkt) rules"
  have "find (\<lambda>r. \<forall>r' \<in> set ?ms. fr_priority r \<le> fr_priority r') ?ms \<noteq> None" 
  proof
    assume "find (\<lambda>r. \<forall>r' \<in> set ?ms. fr_priority r \<le> fr_priority r') ?ms = None"
    then have "\<not> (\<forall>r' \<in> set ?ms. fr_priority r \<le> fr_priority r')" using r(1,2) by (simp add: find_None_iff)
    then show False using r(3) by fastforce
  qed
  then obtain s where s: "find (\<lambda>r. \<forall>r' \<in> set ?ms. fr_priority r \<le> fr_priority r') ?ms = Some s" by blast
  then have "s \<in> set ?ms \<and> (\<forall>r' \<in> set ?ms. fr_priority s \<le> fr_priority r')" by (rule find_SomeD)
  then have "s = r" using r by (auto simp: not_less [symmetric])
  then show "demo_steer rules pkt = fr_action r" using s by (simp add: demo_steer_def)
qed

lemma launch_workers_total: "\<exists>ws. launch_workers (\<lambda>_. 0) cfg i ps = Inr ws"
proof (induction ps arbitrary: i)
  case (Cons p ps)
  obtain ws where "launch_workers (\<lambda>_. 0) cfg (i + 1) ps = Inr ws" using Cons.IH by blast
  then show ?case by simp
qed simp

lemma demo_dpdk_starts: "\<exists>ws ports. dpdk demo_dpdk cfg = Inr (ws, ports)"
proof -
  have d: "distinct (ea_lcores demo_eal)" by (simp add: demo_eal_def)
  have "length [0, 1 :: nat] * 8 \<le> length (worker_lcores demo_eal) \<and> (\<forall>p \<in> set [0, 1]. p < ea_ports demo_eal)"
    using demo_eal_workers by (simp add: demo_eal_def)
  then obtain ps where g: "generate_lcore_params demo_eal [0, 1] 8 60000 = Inr ps" using generate_Inr_iff [OF d] by blast
  obtain ws where w: "launch_workers (\<lambda>_. 0) cfg 0 ps = Inr ws" using launch_workers_total by blast
  have q: "setup_queues env q n s = (0, s\<lparr>ps_queues := ps_queues s @ [q..<q + n]\<rparr>)" if "\<forall>k. pe_queue env k = 0" for env q n s
    using that by (induction n arbitrary: q s) (simp_all add: upt_conv_Cons)
  have f: "\<exists>s'. create_flows env i n s = (0, s') \<and> ps_isolated s' = ps_isolated s" if "\<forall>k. pe_flow env k" for env i n s
    using that
  proof (induction n arbitrary: i s)
    case (Suc n)
    show ?case using Suc.IH [OF Suc.prems, of "i + 1" "s\<lparr>ps_rules := ps_rules s @ [udp_rule i]\<rparr>"] Suc.prems
      by (simp add: create_udp_dst_flow_def udp_rule_def)
  qed simp
  have p: "\<exists>s. port_init (dk_port demo_dpdk k) 8 = (0, s)" for k
  proof -
    let ?env = "dk_port demo_dpdk k"
    obtain s where "create_flows ?env 0 8 (new_port\<lparr>ps_isolated := True, ps_queues := [0..<8], ps_started := True\<rparr>) = (0, s)" "ps_isolated s"
      using f [of ?env 0 8 "new_port\<lparr>ps_isolated := True, ps_queues := [0..<8], ps_started := True\<rparr>"] by (auto simp: demo_dpdk_def)
    then show ?thesis using q [of ?env 0 8] by (simp add: port_init_def demo_dpdk_def new_port_def)
  qed
  obtain s0 s1 where s: "port_init (dk_port demo_dpdk 0) 8 = (0, s0)" "port_init (dk_port demo_dpdk (Suc 0)) 8 = (0, s1)" using p by blast
  have m: "\<exists>m. build_eal_lcore_mapping (dk_max_lcore demo_dpdk) (dk_online demo_dpdk) (dk_setaffinity demo_dpdk) = Inr m"
  proof -
    have "0 \<in> set (filter (\<lambda>cpu. cpu \<in> {..<17}) [0..<CPU_SETSIZE])" by (simp add: CPU_SETSIZE_def)
    then have "filter (\<lambda>cpu. cpu < 17) [0..<CPU_SETSIZE] \<noteq> []" by fastforce
    then show ?thesis by (simp add: build_eal_lcore_mapping_def demo_dpdk_def CPU_SETSIZE_def Let_def)
  qed
  then obtain m where "build_eal_lcore_mapping (dk_max_lcore demo_dpdk) (dk_online demo_dpdk) (dk_setaffinity demo_dpdk) = Inr m" by blast
  moreover have "dk_init demo_dpdk a = Some demo_eal" "dk_mempool demo_dpdk" "dk_launch demo_dpdk = (\<lambda>_. 0)" for a by (simp_all add: demo_dpdk_def)
  ultimately show ?thesis using g w s by (simp add: dpdk_def)
qed

theorem packets_reach_their_stream_witness:
  "\<exists>ws ports. dpdk demo_dpdk new_GlobalConfig = Inr (ws, ports) \<and> follows_rules demo_steer \<and> length ws = 16
     \<and> demo_steer (ps_rules (ports ! 1)) (Some 60003) = To_queue 3"
proof -
  obtain ws ports where d: "dpdk demo_dpdk new_GlobalConfig = Inr (ws, ports)" using demo_dpdk_starts by blast
  have e: "\<forall>args e. dk_init demo_dpdk args = Some e \<longrightarrow> distinct (ea_lcores e)" by (simp add: demo_dpdk_def demo_eal_def)
  show ?thesis using packets_reach_their_stream [OF d demo_steer_follows e, of 1 3] d demo_steer_follows by auto
qed

end
