(* ===== verification/Startup.thy ===== *)
theory Startup
  imports Local_Sdfits_Writer Dpdk_Setup
begin

text \<open>
  Start of the program: \<^verbatim>\<open>src/main.cu\<close> and the layout of the packet memory, the receive streams and the worker threads in \<^verbatim>\<open>init\<close>
  of \<^verbatim>\<open>src/init.cu\<close>. The result of a start is the system that runs; a failure is the exit code of the process. Packet positions
  count packets of 8192 bytes from the start of the pool.
\<close>

section \<open>Sizes\<close>

definition sizeof_Packet :: nat where "sizeof_Packet = 8192"

definition calc_pool_size :: "GlobalConfig \<Rightarrow> u64" where
  "calc_pool_size cfg =
     (let max_memory = cfg_Memory_pool_per_stream cfg * 1024 * 1024 * 1024;
          batch_bytes = of_nat sizeof_Packet * of_int (cfg_batchsize cfg)
      in max (max_memory div batch_bytes) 3)"

section \<open>Streams and threads\<close>

record StreamContext =
  sc_enable :: bool
  sc_subband_id :: int
  sc_pool_index :: int
  sc_queue_capacity :: u64
  sc_pool :: "u64 list"

datatype worker_thread = Baseband_thread nat | Subband_thread nat

record started =
  in_total_threads :: nat
  in_QUEUE_CAPACITY :: u64
  in_streams :: "StreamContext list"
  in_enabled_streams :: nat
  in_total_packets :: u64
  in_total_bytes :: u64
  in_threads :: "(worker_thread \<times> nat) list"

definition subband_enabled :: "GlobalConfig \<Rightarrow> nat \<Rightarrow> bool" where
  "subband_enabled cfg k = sb_enable (cfg_subbands cfg ! k)"

text \<open>The loop over the streams: from stream \<open>s\<close> with \<open>n\<close> left and \<open>k\<close> enabled so far.\<close>

fun map_streams :: "GlobalConfig \<Rightarrow> u64 \<Rightarrow> nat \<Rightarrow> nat \<Rightarrow> nat \<Rightarrow> StreamContext list \<times> nat" where
  "map_streams cfg cap s 0 k = ([], k)"
| "map_streams cfg cap s (Suc n) k =
     (let st = \<lparr>sc_enable = False, sc_subband_id = int (s div 2), sc_pool_index = - 1, sc_queue_capacity = cap, sc_pool = []\<rparr> in
      if subband_enabled cfg (s div 2)
      then (case map_streams cfg cap (s + 1) n (k + 1) of (sts, k') \<Rightarrow> (st\<lparr>sc_enable := True, sc_pool_index := int k\<rparr> # sts, k'))
      else (case map_streams cfg cap (s + 1) n k of (sts, k') \<Rightarrow> (st # sts, k')))"

definition fill_pool :: "u64 \<Rightarrow> int \<Rightarrow> StreamContext \<Rightarrow> StreamContext" where
  "fill_pool pool_capacity batch st =
     (if \<not> sc_enable st then st
      else st\<lparr>sc_pool := map (\<lambda>b. (of_int (sc_pool_index st) * pool_capacity + of_nat b) * of_int batch) [0..<unat pool_capacity]\<rparr>)"

text \<open>
  The argument \<open>alloc\<close> is the allocation of a number of bytes: \<open>None\<close> when it succeeds, otherwise the text of the error. A failed
  \<^verbatim>\<open>mlock\<close> is only reported.
\<close>

definition init :: "(u64 \<Rightarrow> string option) \<Rightarrow> GlobalConfig \<Rightarrow> started result" where
  "init alloc cfg =
     (let enabled_subbands = length (filter sb_enable (cfg_subbands cfg));
          total_threads = (if cfg_observation_mode cfg = BASEBAND then enabled_subbands * 2 else enabled_subbands);
          cap = calc_pool_size cfg - 2;
          (streams, enabled) = map_streams cfg cap 0 max_streams 0;
          pool_capacity = cap + 2;
          total_packets = of_nat enabled * pool_capacity * of_int (cfg_batchsize cfg);
          total_bytes = total_packets * of_nat sizeof_Packet
      in case alloc total_bytes of
         Some err \<Rightarrow> Inl (Runtime_error (if cfg_observation_mode cfg = BASEBAND then ''aligned_alloc failed'' else err))
       | None \<Rightarrow> Inr \<lparr>in_total_threads = total_threads, in_QUEUE_CAPACITY = cap,
           in_streams = map (fill_pool pool_capacity (cfg_batchsize cfg)) streams, in_enabled_streams = enabled,
           in_total_packets = total_packets, in_total_bytes = total_bytes,
           in_threads =
             (if cfg_observation_mode cfg = BASEBAND
              then map (\<lambda>i. (Baseband_thread i, max_streams + 1 + i)) (filter (\<lambda>i. subband_enabled cfg (i div 2)) [0..<max_streams])
              else map (\<lambda>i. (Subband_thread i, max_streams + 1 + i)) (filter (subband_enabled cfg) [0..<length (cfg_subbands cfg)]))\<rparr>)"

section \<open>The program\<close>

definition monitor_path :: "int \<Rightarrow> nat \<Rightarrow> string" where
  "monitor_path server stream = ''/dev/shm/server_'' @ int_text server @ ''_stream_'' @ decimal stream @ ''.bin''"

text \<open>The files under \<^verbatim>\<open>/dev/shm\<close> that can be removed are.\<close>

definition remove_stale_monitor_files :: "(string \<Rightarrow> bool) \<Rightarrow> GlobalConfig \<Rightarrow> string set \<Rightarrow> string set" where
  "remove_stale_monitor_files removable cfg shm =
     shm - set (filter removable (map (monitor_path (cfg_ServerID cfg)) [0..<max_streams]))"

definition baseband_nfft :: "GlobalConfig \<Rightarrow> GlobalConfig" where
  "baseband_nfft cfg =
     (if cfg_observation_mode cfg \<noteq> BASEBAND then cfg
      else if cfg_Baseband_bits cfg = 8 then cfg\<lparr>cfg_total_nfft := 8192 * 256\<rparr>
      else if cfg_Baseband_bits cfg = 4 then cfg\<lparr>cfg_total_nfft := 8192 * 256\<rparr>
      else cfg\<lparr>cfg_total_nfft := 8192 * 512\<rparr>)"

record running =
  run_cfg :: GlobalConfig
  run_meta :: "yaml option"
  run_local :: LocalSdfitsWriter
  run_files :: "string set"
  run_init :: started
  run_workers :: "(worker_loop \<times> lcore_param) list"
  run_ports :: "port_state list"

text \<open>
  The wait for the worker threads ends when each of the \<open>in_total_threads\<close> has counted itself; the threads it waits for are those
  of \<open>in_threads\<close>. \<open>Inl\<close> is an exit code.
\<close>

definition main :: "fpu \<Rightarrow> yaml_conv \<Rightarrow> dir_env \<Rightarrow> yaml option \<Rightarrow> (string \<Rightarrow> bool) \<Rightarrow> string set \<Rightarrow> (u64 \<Rightarrow> string option) \<Rightarrow> dpdk_env \<Rightarrow> int + running" where
  "main fp cv env file removable shm alloc dk =
     (case initFromYaml fp cv env file new_GlobalConfig of
        None \<Rightarrow> Inl 1
      | Some (cfg, meta) \<Rightarrow>
          (case configure env (cfg_local_sdfits_enabled cfg) (cfg_local_sdfits_folder cfg) (cfg_local_sdfits_queue_bytes cfg) new_LocalSdfitsWriter of
             Inl _ \<Rightarrow> Inl 1
           | Inr lw \<Rightarrow>
               let shm = remove_stale_monitor_files removable cfg shm; cfg = baseband_nfft cfg in
               (case init alloc cfg of
                  Inl _ \<Rightarrow> Inl 1
                | Inr st \<Rightarrow>
                    (case dpdk dk cfg of
                       Inl _ \<Rightarrow> Inl 1
                     | Inr (ws, ports) \<Rightarrow>
                         Inr \<lparr>run_cfg = cfg, run_meta = meta, run_local = lw, run_files = shm, run_init = st, run_workers = ws, run_ports = ports\<rparr>))))"

section \<open>Streams\<close>

text \<open>The number of enabled streams before stream \<open>s\<close>.\<close>

definition enabled_before :: "GlobalConfig \<Rightarrow> nat \<Rightarrow> nat" where
  "enabled_before cfg s = length (filter (\<lambda>i. subband_enabled cfg (i div 2)) [0..<s])"

lemma enabled_before_Suc: "enabled_before cfg (Suc s) = enabled_before cfg s + (if subband_enabled cfg (s div 2) then 1 else 0)"
  by (simp add: enabled_before_def)

lemma enabled_before_mono: "s \<le> t \<Longrightarrow> enabled_before cfg s \<le> enabled_before cfg t"
  by (induction t) (auto simp: enabled_before_Suc le_Suc_eq)

lemma map_streams_nth:
  "map_streams cfg cap s n (enabled_before cfg s) = (sts, k) \<Longrightarrow> k = enabled_before cfg (s + n) \<and> length sts = n
    \<and> (\<forall>j < n. sts ! j = \<lparr>sc_enable = subband_enabled cfg ((s + j) div 2), sc_subband_id = int ((s + j) div 2),
         sc_pool_index = (if subband_enabled cfg ((s + j) div 2) then int (enabled_before cfg (s + j)) else - 1), sc_queue_capacity = cap, sc_pool = []\<rparr>)"
proof (induction n arbitrary: s sts k)
  case (Suc n)
  obtain sts' k' where r: "map_streams cfg cap (s + 1) n (enabled_before cfg (s + 1)) = (sts', k')" by fastforce
  have "sts = \<lparr>sc_enable = subband_enabled cfg (s div 2), sc_subband_id = int (s div 2),
      sc_pool_index = (if subband_enabled cfg (s div 2) then int (enabled_before cfg s) else - 1), sc_queue_capacity = cap, sc_pool = []\<rparr> # sts' \<and> k = k'"
    using Suc.prems r by (auto simp: Let_def enabled_before_Suc split: if_splits)
  then show ?case using Suc.IH [OF r] by (auto simp: nth_Cons split: nat.splits)
qed simp

lemma pair_count:
  "length (filter (\<lambda>i. P (i div 2)) [0..<2 * n]) = 2 * length (filter P [0..<n])"
  by (induction n) (simp_all add: mult_2)

lemma filter_nth_length: "length (filter P xs) = length (filter (\<lambda>i. P (xs ! i)) [0..<length xs])"
proof -
  have "length (filter P (map ((!) xs) [0..<length xs])) = length (filter (\<lambda>i. P (xs ! i)) [0..<length xs])" by (simp add: filter_map o_def)
  then show ?thesis by (simp add: map_nth)
qed


lemma enabled_streams_count:
  assumes "length (cfg_subbands cfg) = 8"
  shows "enabled_before cfg max_streams = 2 * length (filter sb_enable (cfg_subbands cfg))"
proof -
  have "length (filter sb_enable (cfg_subbands cfg)) = length (filter (subband_enabled cfg) [0..<8])"
    using filter_nth_length [of sb_enable "cfg_subbands cfg"] assms by (simp add: subband_enabled_def [abs_def])
  moreover have "max_streams = 2 * 8" by (simp add: max_streams_def)
  ultimately show ?thesis using pair_count [of "subband_enabled cfg" 8] unfolding enabled_before_def by metis
qed

lemma init_streams:
  assumes "init alloc cfg = Inr st"
  shows "length (in_streams st) = max_streams" "in_enabled_streams st = enabled_before cfg max_streams"
    "\<And>s. s < max_streams \<Longrightarrow> in_streams st ! s = fill_pool (in_QUEUE_CAPACITY st + 2) (cfg_batchsize cfg)
       \<lparr>sc_enable = subband_enabled cfg (s div 2), sc_subband_id = int (s div 2),
        sc_pool_index = (if subband_enabled cfg (s div 2) then int (enabled_before cfg s) else - 1), sc_queue_capacity = in_QUEUE_CAPACITY st, sc_pool = []\<rparr>"
    "in_QUEUE_CAPACITY st = calc_pool_size cfg - 2"
    "in_total_packets st = of_nat (in_enabled_streams st) * (in_QUEUE_CAPACITY st + 2) * of_int (cfg_batchsize cfg)"
proof -
  obtain sts k where m: "map_streams cfg (calc_pool_size cfg - 2) 0 max_streams 0 = (sts, k)" by fastforce
  have z: "enabled_before cfg 0 = 0" by (simp add: enabled_before_def)
  note n = map_streams_nth [of cfg "calc_pool_size cfg - 2" 0 max_streams sts k, unfolded z, OF m]
  have i: "in_streams st = map (fill_pool (calc_pool_size cfg - 2 + 2) (cfg_batchsize cfg)) sts" "in_enabled_streams st = k"
      "in_QUEUE_CAPACITY st = calc_pool_size cfg - 2"
      "in_total_packets st = of_nat k * (calc_pool_size cfg - 2 + 2) * of_int (cfg_batchsize cfg)"
    using assms m by (auto simp: init_def Let_def split: option.splits)
  show "length (in_streams st) = max_streams" "in_enabled_streams st = enabled_before cfg max_streams"
      "in_QUEUE_CAPACITY st = calc_pool_size cfg - 2"
      "in_total_packets st = of_nat (in_enabled_streams st) * (in_QUEUE_CAPACITY st + 2) * of_int (cfg_batchsize cfg)"
    using n i by simp_all
  show "in_streams st ! s = fill_pool (in_QUEUE_CAPACITY st + 2) (cfg_batchsize cfg)
       \<lparr>sc_enable = subband_enabled cfg (s div 2), sc_subband_id = int (s div 2),
        sc_pool_index = (if subband_enabled cfg (s div 2) then int (enabled_before cfg s) else - 1), sc_queue_capacity = in_QUEUE_CAPACITY st, sc_pool = []\<rparr>"
    if "s < max_streams" for s using n i that by simp
qed

text \<open>The sizes do not overflow for a memory of at most 2 to the 20 GiB a stream.\<close>

lemma pool_size_bounds:
  assumes "unat (cfg_Memory_pool_per_stream cfg) \<le> 2 ^ 20" "16 \<le> cfg_batchsize cfg" "cfg_batchsize cfg \<le> 4096"
  shows "3 \<le> unat (calc_pool_size cfg)" "unat (calc_pool_size cfg) * nat (cfg_batchsize cfg) \<le> 2 ^ 37"
proof -
  let ?m = "unat (cfg_Memory_pool_per_stream cfg)" and ?b = "nat (cfg_batchsize cfg)"
  have b: "(of_int (cfg_batchsize cfg) :: u64) = of_nat ?b" using assms(2) by simp
  have ub: "unat (of_nat ?b :: u64) = ?b" using assms(3) by (simp add: unat_of_nat)
  have bb: "unat (of_nat sizeof_Packet * of_int (cfg_batchsize cfg) :: u64) = 8192 * ?b"
    unfolding b using assms(3) ub by (subst unat_mult_exact) (simp_all add: sizeof_Packet_def unat_of_nat)
  have mm: "unat (cfg_Memory_pool_per_stream cfg * 1024 * 1024 * 1024) = ?m * 2 ^ 30"
  proof -
    have "cfg_Memory_pool_per_stream cfg * 1024 * 1024 * 1024 = cfg_Memory_pool_per_stream cfg * (1073741824 :: u64)" by simp
    moreover have "unat (cfg_Memory_pool_per_stream cfg * (1073741824 :: u64)) = ?m * unat (1073741824 :: u64)"
      by (rule unat_mult_exact) (use assms(1) in simp)
    ultimately show ?thesis by (simp add: mult.commute)
  qed
  have q: "unat (cfg_Memory_pool_per_stream cfg * 1024 * 1024 * 1024 div (of_nat sizeof_Packet * of_int (cfg_batchsize cfg))) = ?m * 2 ^ 30 div (8192 * ?b)"
    by (simp only: unat_div mm bb)
  have c: "unat (calc_pool_size cfg) = max (?m * 2 ^ 30 div (8192 * ?b)) 3"
    unfolding calc_pool_size_def Let_def using q by (simp add: max_def word_le_nat_alt)
  then show "3 \<le> unat (calc_pool_size cfg)" by simp
  have "?m * 2 ^ 30 div (8192 * ?b) * (8192 * ?b) \<le> ?m * 2 ^ 30" by (rule div_times_less_eq_dividend)
  also have "\<dots> \<le> 2 ^ 20 * 2 ^ 30" using assms(1) by (rule mult_le_mono1)
  finally have "?m * 2 ^ 30 div (8192 * ?b) * ?b \<le> 2 ^ 37" by (simp add: mult.commute)
  moreover have "3 * ?b \<le> 2 ^ 37" using assms(3) by simp
  ultimately show "unat (calc_pool_size cfg) * ?b \<le> 2 ^ 37" unfolding c by (simp add: max_def mult.commute)
qed

text \<open>Packet numbers of a batch, as natural numbers.\<close>

lemma pool_offset:
  assumes st: "init alloc cfg = Inr st" and mem: "unat (cfg_Memory_pool_per_stream cfg) \<le> 2 ^ 20"
    and batch: "16 \<le> cfg_batchsize cfg" "cfg_batchsize cfg \<le> 4096" and s: "s < max_streams" "sc_enable (in_streams st ! s)"
  defines "n \<equiv> unat (in_QUEUE_CAPACITY st) + 2" and "z \<equiv> nat (cfg_batchsize cfg)"
  shows "length (sc_pool (in_streams st ! s)) = n"
    "b < n \<Longrightarrow> unat (sc_pool (in_streams st ! s) ! b) = (enabled_before cfg s * n + b) * z"
    "subband_enabled cfg (s div 2)" "unat (in_total_packets st) = enabled_before cfg max_streams * n * z"
proof -
  note i = init_streams [OF st]
  have bounds: "3 \<le> unat (calc_pool_size cfg)" "unat (calc_pool_size cfg) * z \<le> 2 ^ 37" using pool_size_bounds [OF mem batch] by (simp_all add: z_def)
  have "unat (calc_pool_size cfg - 2) = unat (calc_pool_size cfg) - 2" using bounds(1) by (subst unat_sub_exact) simp_all
  then have n: "n = unat (calc_pool_size cfg)" and cap: "in_QUEUE_CAPACITY st + 2 = calc_pool_size cfg" using bounds(1) by (simp_all add: n_def i(4))
  have zz: "(of_int (cfg_batchsize cfg) :: u64) = of_nat z" "unat (of_nat z :: u64) = z"
  proof -
    show "(of_int (cfg_batchsize cfg) :: u64) = of_nat z" using batch by (simp add: z_def)
    have "z \<le> 4096" using batch by (simp add: z_def)
    then show "unat (of_nat z :: u64) = z" by (simp only: unat_of_nat) simp
  qed
  have fill: "sc_enable (fill_pool c x y) = sc_enable y" for c x y by (simp add: fill_pool_def)
  show en: "subband_enabled cfg (s div 2)" using s i(3) [OF s(1)] by (simp add: fill)
  have pool: "sc_pool (in_streams st ! s) = map (\<lambda>b. (of_nat (enabled_before cfg s) * calc_pool_size cfg + of_nat b) * of_nat z) [0..<n]"
    using i(3) [OF s(1)] en by (simp add: fill_pool_def cap n zz(1))
  then show "length (sc_pool (in_streams st ! s)) = n" by simp
  have few: "enabled_before cfg t \<le> 16" if "t \<le> max_streams" for t
    using that length_filter_le [of _ "[0..<t]"] by (simp add: enabled_before_def max_streams_def order_trans [OF length_filter_le])
  have nb: "n * z \<le> 2 ^ 37" "n \<le> 2 ^ 37"
  proof -
    show nz: "n * z \<le> 2 ^ 37" using bounds(2) n by simp
    have "1 \<le> z" using batch(1) unfolding z_def by linarith
    then have "n \<le> n * z" by simp
    then show "n \<le> 2 ^ 37" using nz by (rule order_trans)
  qed
  have un: "unat (of_nat k :: u64) = k" if "k \<le> 2 ^ 50" for k using that by (simp add: unat_of_nat)
  show "unat (sc_pool (in_streams st ! s) ! b) = (enabled_before cfg s * n + b) * z" if b: "b < n"
  proof -
    let ?k = "enabled_before cfg s"
    have k: "?k \<le> 16" using few s(1) by simp
    have "?k * n \<le> 16 * 2 ^ 37" using k nb(2) by (rule mult_le_mono)
    then have 1: "unat (of_nat ?k * calc_pool_size cfg + of_nat b :: u64) = ?k * n + b"
      using k b nb(2) by (simp add: unat_add_exact unat_mult_exact un n)
    have "(?k * n + b) * z \<le> (16 * n + n) * z" using k b by (intro mult_le_mono1 add_mono mult_le_mono1) simp_all
    also have "\<dots> \<le> 17 * 2 ^ 37" using nb(1) by (simp add: algebra_simps)
    finally have "(?k * n + b) * z < 2 ^ 64" by simp
    then show ?thesis using b 1 zz(2) by (simp add: pool unat_mult_exact)
  qed
  show "unat (in_total_packets st) = enabled_before cfg max_streams * n * z"
  proof -
    let ?k = "enabled_before cfg max_streams"
    have k: "?k \<le> 16" using few by simp
    have "?k * n \<le> 16 * 2 ^ 37" using k nb(2) by (rule mult_le_mono)
    then have 1: "unat (of_nat ?k * calc_pool_size cfg :: u64) = ?k * n" using k by (simp add: unat_mult_exact un n)
    have "?k * (n * z) \<le> 16 * 2 ^ 37" using k nb(1) by (rule mult_le_mono)
    then have "?k * n * z < 2 ^ 64" by (simp add: mult.assoc)
    then show ?thesis using 1 zz by (simp add: i(2,5) cap unat_mult_exact)
  qed
qed


text \<open>The configuration that \<^verbatim>\<open>init\<close> runs with.\<close>

lemma baseband_nfft_keeps:
  "cfg_subbands (baseband_nfft cfg) = cfg_subbands cfg" "cfg_observation_mode (baseband_nfft cfg) = cfg_observation_mode cfg"
  "cfg_Memory_pool_per_stream (baseband_nfft cfg) = cfg_Memory_pool_per_stream cfg"
  by (simp_all add: baseband_nfft_def)

lemma baseband_nfft_batch:
  assumes "initFromYaml fp cv env file new_GlobalConfig = Some (cfg, meta)"
  shows "16 \<le> cfg_batchsize (baseband_nfft cfg)" "cfg_batchsize (baseband_nfft cfg) \<le> 4096" "length (cfg_subbands cfg) = 8"
proof -
  note ok = initFromYaml_ok [OF assms]
  have "16 \<le> cfg_batchsize cfg" "cfg_total_nfft cfg = 4096 * cfg_batchsize cfg" using checkConfig_sizes [OF ok(2)] by simp_all
  moreover have "cfg_total_nfft cfg \<le> 65536 * 256" "length (cfg_subbands cfg) = 8" using ok(1) by (simp_all add: layout_ok_def Max_nfft_def)
  ultimately have "cfg_batchsize cfg \<le> 4096" "16 \<le> cfg_batchsize cfg" and "length (cfg_subbands cfg) = 8" by simp_all
  moreover have "cfg_batchsize (baseband_nfft cfg) \<in> {cfg_batchsize cfg, 512, 1024}" by (simp add: baseband_nfft_def cfg_batchsize_def)
  ultimately show "16 \<le> cfg_batchsize (baseband_nfft cfg)" "cfg_batchsize (baseband_nfft cfg) \<le> 4096" "length (cfg_subbands cfg) = 8"
    by auto
qed

lemma init_threads:
  assumes "init alloc cfg = Inr st"
  shows "in_threads st = (if cfg_observation_mode cfg = BASEBAND
      then map (\<lambda>i. (Baseband_thread i, max_streams + 1 + i)) (filter (\<lambda>i. subband_enabled cfg (i div 2)) [0..<max_streams])
      else map (\<lambda>i. (Subband_thread i, max_streams + 1 + i)) (filter (subband_enabled cfg) [0..<length (cfg_subbands cfg)]))"
    "in_total_threads st = (if cfg_observation_mode cfg = BASEBAND then length (filter sb_enable (cfg_subbands cfg)) * 2 else length (filter sb_enable (cfg_subbands cfg)))"
  using assms unfolding init_def Let_def by (auto split: option.splits prod.splits)

lemma mult_add_div: "y < n \<Longrightarrow> (x * n + y) div n = x" for x y n :: nat
  by simp

lemma threads_counted:
  assumes "init alloc cfg = Inr st" "length (cfg_subbands cfg) = 8"
  shows "length (in_threads st) = in_total_threads st"
proof -
  have "length (filter sb_enable (cfg_subbands cfg)) = length (filter (subband_enabled cfg) [0..<length (cfg_subbands cfg)])"
    using filter_nth_length [of sb_enable "cfg_subbands cfg"] by (simp add: subband_enabled_def [abs_def])
  then show ?thesis using init_threads [OF assms(1)] enabled_streams_count [OF assms(2)] by (simp add: enabled_before_def)
qed

section \<open>Properties\<close>

text \<open>
  The batches of all streams lie in the packet memory without overlap: for an accepted configuration with at most 2 to the 20 GiB a stream, every enabled stream gets two batches more than its queue can hold, each batch of packets
  lies within the allocated memory, and two batches of the same or of different streams share no packet.
\<close>

theorem packet_memory_disjoint:
  assumes "initFromYaml fp cv env file new_GlobalConfig = Some (cfg, meta)" and "init alloc (baseband_nfft cfg) = Inr st"
    and "unat (cfg_Memory_pool_per_stream cfg) \<le> 2 ^ 20"
    and "s < max_streams" "sc_enable (in_streams st ! s)" "b < length (sc_pool (in_streams st ! s))"
    and "s' < max_streams" "sc_enable (in_streams st ! s')" "b' < length (sc_pool (in_streams st ! s'))"
  shows "length (sc_pool (in_streams st ! s)) = unat (in_QUEUE_CAPACITY st) + 2
    \<and> unat (sc_pool (in_streams st ! s) ! b) + nat (cfg_batchsize (baseband_nfft cfg)) \<le> unat (in_total_packets st)
    \<and> ((s, b) \<noteq> (s', b') \<longrightarrow>
         unat (sc_pool (in_streams st ! s) ! b) + nat (cfg_batchsize (baseband_nfft cfg)) \<le> unat (sc_pool (in_streams st ! s') ! b')
         \<or> unat (sc_pool (in_streams st ! s') ! b') + nat (cfg_batchsize (baseband_nfft cfg)) \<le> unat (sc_pool (in_streams st ! s) ! b))"
proof -
  let ?cfg = "baseband_nfft cfg" and ?n = "unat (in_QUEUE_CAPACITY st) + 2" and ?z = "nat (cfg_batchsize (baseband_nfft cfg))"
  note batch = baseband_nfft_batch [OF assms(1)]
  have mem: "unat (cfg_Memory_pool_per_stream ?cfg) \<le> 2 ^ 20" using assms(3) by (simp add: baseband_nfft_keeps)
  note o = pool_offset [OF assms(2) mem batch(1,2)]
  have len: "length (sc_pool (in_streams st ! s)) = ?n" "length (sc_pool (in_streams st ! s')) = ?n" using o(1) assms(4,5,7,8) by simp_all
  have b: "b < ?n" "b' < ?n" using assms(6,9) unfolding len by simp_all
  let ?e = "enabled_before ?cfg"
  have off: "unat (sc_pool (in_streams st ! s) ! b) = (?e s * ?n + b) * ?z" "unat (sc_pool (in_streams st ! s') ! b') = (?e s' * ?n + b') * ?z"
    using o(2) [OF assms(4,5) b(1)] o(2) [OF assms(7,8) b(2)] by simp_all
  have en: "subband_enabled ?cfg (s div 2)" "subband_enabled ?cfg (s' div 2)" using o(3) assms(4,5,7,8) by simp_all
  have last: "(?e s * ?n + b) * ?z + ?z \<le> ?e max_streams * ?n * ?z"
  proof -
    have "?e s + 1 \<le> ?e max_streams" using enabled_before_mono [of "Suc s" max_streams ?cfg] assms(4) en(1) by (simp add: enabled_before_Suc)
    then have "(?e s + 1) * ?n \<le> ?e max_streams * ?n" by (rule mult_le_mono1)
    then have "?e s * ?n + b + 1 \<le> ?e max_streams * ?n" using b(1) by simp
    then have "(?e s * ?n + b + 1) * ?z \<le> ?e max_streams * ?n * ?z" by (rule mult_le_mono1)
    then show ?thesis by (simp add: algebra_simps)
  qed
  have step: "?e t < ?e t'" if "t < t'" "subband_enabled ?cfg (t div 2)" for t t'
    using enabled_before_mono [of "Suc t" t' ?cfg] that by (simp add: enabled_before_Suc)
  have apart: "x * ?z + ?z \<le> y * ?z" if "x < y" for x y :: nat
  proof -
    have "(x + 1) * ?z \<le> y * ?z" using that by (intro mult_le_mono1) simp
    then show ?thesis by simp
  qed
  have "?e s * ?n + b \<noteq> ?e s' * ?n + b'" if "(s, b) \<noteq> (s', b')"
  proof
    assume eq: "?e s * ?n + b = ?e s' * ?n + b'"
    have "(?e s * ?n + b) div ?n = ?e s" "(?e s' * ?n + b') div ?n = ?e s'" using b by (simp_all only: mult_add_div)
    then have e: "?e s = ?e s'" using eq by simp
    then have "b = b'" using eq by simp
    moreover have "s = s'" using step [of s s'] step [of s' s] en e by (cases s s' rule: linorder_cases) simp_all
    ultimately show False using that by simp
  qed
  then have "(s, b) \<noteq> (s', b') \<longrightarrow> (?e s * ?n + b) * ?z + ?z \<le> (?e s' * ?n + b') * ?z \<or> (?e s' * ?n + b') * ?z + ?z \<le> (?e s * ?n + b) * ?z"
    using apart by (meson linorder_neqE_nat)
  then show ?thesis unfolding off len(1) o(4) [OF assms(4,5)] using last by blast
qed

text \<open>
  C23. A program that has started is complete: it waits for exactly as many worker threads as it has started, so the wait before reception ends; for each of the sixteen sample streams one receive worker runs, which
  stores packets exactly when the stream is enabled; and an enabled stream has its consumer thread, the recorder of the stream in baseband mode and the worker of its subband otherwise.
\<close>

theorem started_program_complete:
  assumes "main fp cv env file removable shm alloc dk = Inr r"
    and "\<forall>args e. dk_init dk args = Some e \<longrightarrow> distinct (ea_lcores e)" and "s < max_streams"
  shows "length (in_threads (run_init r)) = in_total_threads (run_init r)
    \<and> length (run_workers r) = max_streams \<and> lp_ring_id (snd (run_workers r ! s)) = of_nat s
    \<and> (fst (run_workers r ! s) = Recv2mem \<longleftrightarrow> sc_enable (in_streams (run_init r) ! s))
    \<and> ((if cfg_observation_mode (run_cfg r) = BASEBAND then Baseband_thread s else Subband_thread (s div 2)) \<in> fst ` set (in_threads (run_init r))
       \<longleftrightarrow> sc_enable (in_streams (run_init r) ! s))"
proof -
  obtain cfg meta lw where c: "initFromYaml fp cv env file new_GlobalConfig = Some (cfg, meta)" "init alloc (baseband_nfft cfg) = Inr (run_init r)"
      "dpdk dk (baseband_nfft cfg) = Inr (run_workers r, run_ports r)" "run_cfg r = baseband_nfft cfg"
    using assms(1) by (auto simp: main_def Let_def split: option.splits sum.splits prod.splits)
  let ?cfg = "baseband_nfft cfg" and ?st = "run_init r"
  have eight: "length (cfg_subbands ?cfg) = 8" using baseband_nfft_batch(3) [OF c(1)] by (simp add: baseband_nfft_keeps)
  have w: "length (run_workers r) = 16" "lp_ring_id (snd (run_workers r ! s)) = of_nat s"
      "fst (run_workers r ! s) = (if subband_enabled ?cfg (s div 2) then Recv2mem else Lcore_drop)"
    using workers_launched [OF c(3) assms(2), of s] assms(3) by (simp_all add: max_streams_def subband_enabled_def)
  have en: "sc_enable (in_streams ?st ! s) = subband_enabled ?cfg (s div 2)" using init_streams(3) [OF c(2) assms(3)] by (simp add: fill_pool_def)
  have half: "s div 2 < 8" using assms(3) by (auto simp: max_streams_def)
  have t: "fst ` set (in_threads ?st) = (if cfg_observation_mode ?cfg = BASEBAND then Baseband_thread ` {i. i < max_streams \<and> subband_enabled ?cfg (i div 2)}
      else Subband_thread ` {i. i < 8 \<and> subband_enabled ?cfg i})"
    unfolding init_threads(1) [OF c(2)] eight by (auto simp: image_iff)
  show ?thesis using threads_counted [OF c(2) eight] w en half assms(3) unfolding t c(4) by (auto simp: max_streams_def)
qed


section \<open>A start\<close>

lemma init_total: "alloc = (\<lambda>_. None) \<Longrightarrow> \<exists>st. init alloc cfg = Inr st"
  by (auto simp: init_def Let_def split: prod.splits)

lemma demo_program:
  "\<exists>cfg st. initFromYaml exact_fpu demo_conv demo_dirs (Some demo_file) new_GlobalConfig = Some (cfg, None) \<and> init (\<lambda>_. None) (baseband_nfft cfg) = Inr st
     \<and> unat (cfg_Memory_pool_per_stream cfg) \<le> 2 ^ 20 \<and> \<not> cfg_local_sdfits_enabled cfg \<and> sc_enable (in_streams st ! 0) \<and> sc_enable (in_streams st ! 3)
     \<and> cfg_integration_t cfg = Fin 0 \<and> cfg_total_nfft cfg = 65536 \<and> cfg_observation_mode cfg = SPECTRAL \<and> cfg_cal_mode cfg = False \<and> cfg_subband_monitor cfg = False
     \<and> cfg_Memory_pool_per_stream cfg = 64"
proof -
  obtain cfg where c: "initFromYaml exact_fpu demo_conv demo_dirs (Some demo_file) new_GlobalConfig = Some (cfg, None)"
      "length (sb_windows (cfg_subbands cfg ! 0)) = 1" "length (sb_windows (cfg_subbands cfg ! 1)) = 1" "cfg_Memory_pool_per_stream cfg = 64" "\<not> cfg_local_sdfits_enabled cfg"
      "cfg_integration_t cfg = Fin 0 \<and> cfg_total_nfft cfg = 65536 \<and> cfg_observation_mode cfg = SPECTRAL \<and> cfg_cal_mode cfg = False \<and> cfg_subband_monitor cfg = False"
    using demo_accepted by blast
  obtain st where st: "init (\<lambda>_. None) (baseband_nfft cfg) = Inr st" using init_total by blast
  have enabled: "sb_enable (cfg_subbands cfg ! k)" if "k < 8" "length (sb_windows (cfg_subbands cfg ! k)) = 1" for k
  proof -
    have "subband_ok cfg k (cfg_subbands cfg ! k)" using initFromYaml_ok(1) [OF c(1)] that(1) by (simp add: layout_ok_def)
    then show ?thesis using that(2) unfolding subband_ok_def by (cases "sb_enable (cfg_subbands cfg ! k)") simp_all
  qed
  have "sb_enable (cfg_subbands cfg ! 0)" "sb_enable (cfg_subbands cfg ! 1)" by (rule enabled; use c(2,3) in simp)+
  then have "sc_enable (in_streams st ! 0)" "sc_enable (in_streams st ! 3)"
    using init_streams(3) [OF st, of 0] init_streams(3) [OF st, of 3] by (simp_all add: max_streams_def fill_pool_def subband_enabled_def baseband_nfft_keeps)
  then show ?thesis using c st by auto
qed

theorem packet_memory_disjoint_witness:
  "\<exists>cfg st. initFromYaml exact_fpu demo_conv demo_dirs (Some demo_file) new_GlobalConfig = Some (cfg, None) \<and> init (\<lambda>_. None) (baseband_nfft cfg) = Inr st
     \<and> unat (sc_pool (in_streams st ! 3) ! 1) + nat (cfg_batchsize (baseband_nfft cfg)) \<le> unat (in_total_packets st)"
proof -
  obtain cfg st where c: "initFromYaml exact_fpu demo_conv demo_dirs (Some demo_file) new_GlobalConfig = Some (cfg, None)" "init (\<lambda>_. None) (baseband_nfft cfg) = Inr st"
      "unat (cfg_Memory_pool_per_stream cfg) \<le> 2 ^ 20" "sc_enable (in_streams st ! 0)" "sc_enable (in_streams st ! 3)" using demo_program by blast
  have s: "3 < max_streams" "0 < max_streams" by (simp_all add: max_streams_def)
  have mem: "unat (cfg_Memory_pool_per_stream (baseband_nfft cfg)) \<le> 2 ^ 20" using c(3) by (simp add: baseband_nfft_keeps)
  note o = pool_offset(1) [OF c(2) mem baseband_nfft_batch(1,2) [OF c(1)]]
  have b: "1 < length (sc_pool (in_streams st ! 3))" "0 < length (sc_pool (in_streams st ! 0))" using o [OF s(1) c(5)] o [OF s(2) c(4)] by simp_all
  show ?thesis using packet_memory_disjoint [OF c(1-3) s(1) c(5) b(1) s(2) c(4) b(2)] c(1,2) by blast
qed

theorem started_program_complete_witness:
  "\<exists>r. main exact_fpu demo_conv demo_dirs (Some demo_file) (\<lambda>_. True) {} (\<lambda>_. None) demo_dpdk = Inr r \<and> length (run_workers r) = 16
     \<and> length (in_threads (run_init r)) = in_total_threads (run_init r)"
proof -
  obtain cfg st where c: "initFromYaml exact_fpu demo_conv demo_dirs (Some demo_file) new_GlobalConfig = Some (cfg, None)" "init (\<lambda>_. None) (baseband_nfft cfg) = Inr st"
      "\<not> cfg_local_sdfits_enabled cfg" using demo_program by blast
  obtain ws ports where d: "dpdk demo_dpdk (baseband_nfft cfg) = Inr (ws, ports)" using demo_dpdk_starts by blast
  obtain r where r: "main exact_fpu demo_conv demo_dirs (Some demo_file) (\<lambda>_. True) {} (\<lambda>_. None) demo_dpdk = Inr r"
    using c d by (simp add: main_def configure_def Let_def)
  have e: "\<forall>args e. dk_init demo_dpdk args = Some e \<longrightarrow> distinct (ea_lcores e)" by (simp add: demo_dpdk_def demo_eal_def)
  have "0 < max_streams" "max_streams = 16" by (simp_all add: max_streams_def)
  then show ?thesis using started_program_complete [OF r e] r by metis
qed

end
