(* ===== verification/Pfb_Window.thy ===== *)
theory Pfb_Window
  imports Global_Config
begin

text \<open>
  The prototype filter of the polyphase filter bank, \<^verbatim>\<open>genPfbWin\<close> of \<^verbatim>\<open>src/init.cu\<close>: a sinc function under a Hann window, scaled to
  unit gain. The mathematical library is an argument, as are the roundings to \<^verbatim>\<open>double\<close> and \<^verbatim>\<open>float\<close>.
\<close>

section \<open>The filter\<close>

record libm =
  lm_sin :: "real \<Rightarrow> dbl"
  lm_cos :: "real \<Rightarrow> dbl"
  lm_pi :: real

definition dbl_fun :: "(real \<Rightarrow> dbl) \<Rightarrow> dbl \<Rightarrow> dbl" where
  "dbl_fun f x = (case x of Fin a \<Rightarrow> f a | _ \<Rightarrow> NaN)"

definition to_float :: "(real \<Rightarrow> dbl) \<Rightarrow> dbl \<Rightarrow> dbl" where
  "to_float fl32 x = (case x of Fin a \<Rightarrow> fl32 a | _ \<Rightarrow> x)"

definition sinc_value :: "fpu \<Rightarrow> libm \<Rightarrow> dbl \<Rightarrow> dbl" where
  "sinc_value fp lm arg =
     (if dbl_less (dbl_abs arg) (Fin (1 / 10 ^ 12)) then Fin 1 else dbl_div (fl fp) (dbl_fun (lm_sin lm) arg) arg)"

definition hann_value :: "fpu \<Rightarrow> libm \<Rightarrow> int \<Rightarrow> nat \<Rightarrow> dbl" where
  "hann_value fp lm N i =
     dbl_sub (fl fp) (Fin (1 / 2)) (dbl_mul (fl fp) (Fin (1 / 2))
       (dbl_fun (lm_cos lm) (dbl_div (fl fp) (dbl_mul (fl fp) (dbl_mul (fl fp) (Fin 2) (Fin (lm_pi lm))) (Fin (of_nat i))) (Fin (of_int (N - 1))))))"

definition tap_value :: "fpu \<Rightarrow> libm \<Rightarrow> int \<Rightarrow> int \<Rightarrow> nat \<Rightarrow> dbl" where
  "tap_value fp lm N P i =
     (let center = dbl_mul (fl fp) (Fin (of_int (N - 1))) (Fin (1 / 2));
          x = dbl_sub (fl fp) (Fin (of_nat i)) center;
          arg = dbl_div (fl fp) (dbl_mul (fl fp) (dbl_mul (fl fp) (Fin (lm_pi lm)) x) (Fin (of_int P))) (Fin (of_int N))
      in dbl_mul (fl fp) (sinc_value fp lm arg) (hann_value fp lm N i))"

text \<open>The two loops, from tap \<open>i\<close> with \<open>n\<close> taps left.\<close>

fun tap_loop :: "fpu \<Rightarrow> libm \<Rightarrow> (real \<Rightarrow> dbl) \<Rightarrow> int \<Rightarrow> int \<Rightarrow> nat \<Rightarrow> nat \<Rightarrow> dbl list \<Rightarrow> dbl \<Rightarrow> dbl list \<times> dbl" where
  "tap_loop fp lm fl32 N P i 0 win dc = (win, dc)"
| "tap_loop fp lm fl32 N P i (Suc n) win dc =
     (let h = tap_value fp lm N P i
      in tap_loop fp lm fl32 N P (i + 1) n (win[i := to_float fl32 h]) (dbl_add (fl fp) dc h))"

fun scale_loop :: "(real \<Rightarrow> dbl) \<Rightarrow> dbl \<Rightarrow> nat \<Rightarrow> nat \<Rightarrow> dbl list \<Rightarrow> dbl list" where
  "scale_loop fl32 dc i 0 win = win"
| "scale_loop fl32 dc i (Suc n) win = scale_loop fl32 dc (i + 1) n (win[i := dbl_div fl32 (win ! i) (to_float fl32 dc)])"

definition genPfbWin :: "fpu \<Rightarrow> libm \<Rightarrow> (real \<Rightarrow> dbl) \<Rightarrow> dbl list \<Rightarrow> int \<Rightarrow> int \<Rightarrow> dbl list result" where
  "genPfbWin fp lm fl32 win N P =
     (if int (length win) < N then Inl (Runtime_error ''win size too small!'')
      else
        case tap_loop fp lm fl32 N P 0 (nat N) win (Fin 0) of (win, dc) \<Rightarrow>
          Inr (scale_loop fl32 dc 0 (nat N) win))"

section \<open>The loops\<close>

lemma tap_loop_win:
  assumes "tap_loop fp lm fl32 N P i n win dc = (win', dc')" "i + n \<le> length win"
  shows "length win' = length win \<and> (\<forall>k < length win. win' ! k = (if i \<le> k \<and> k < i + n then to_float fl32 (tap_value fp lm N P k) else win ! k))"
  using assms
proof (induction n arbitrary: i win dc)
  case (Suc n)
  then show ?case using Suc.IH [of "i + 1"] by (auto simp: Let_def nth_list_update not_less_eq_eq le_antisym)
qed auto

lemma scale_loop_nth:
  assumes "i + n \<le> length win"
  shows "length (scale_loop fl32 dc i n win) = length win \<and> (\<forall>k < length win. scale_loop fl32 dc i n win ! k
    = (if i \<le> k \<and> k < i + n then dbl_div fl32 (win ! k) (to_float fl32 dc) else win ! k))"
  using assms
proof (induction n arbitrary: i win)
  case (Suc n)
  then show ?case using Suc.IH [of "i + 1"] by (auto simp: nth_list_update not_less_eq_eq le_antisym)
qed auto

section \<open>Exact arithmetic\<close>

definition exact_libm :: libm where
  "exact_libm = \<lparr>lm_sin = (\<lambda>x. Fin (sin x)), lm_cos = (\<lambda>x. Fin (cos x)), lm_pi = pi\<rparr>"

text \<open>The taps before the scaling: the sinc at the distance from the middle, under the Hann window.\<close>

definition sinc_arg :: "nat \<Rightarrow> int \<Rightarrow> nat \<Rightarrow> real" where
  "sinc_arg N P i = pi * (real i - (real N - 1) / 2) * of_int P / real N"

definition sinc :: "real \<Rightarrow> real" where
  "sinc x = (if \<bar>x\<bar> < 1 / 10 ^ 12 then 1 else sin x / x)"

definition hann :: "nat \<Rightarrow> nat \<Rightarrow> real" where
  "hann N i = 1 / 2 - cos (2 * pi * real i / (real N - 1)) / 2"

definition prototype :: "nat \<Rightarrow> int \<Rightarrow> nat \<Rightarrow> real" where
  "prototype N P i = sinc (sinc_arg N P i) * hann N i"

lemma lm_pi_exact: "lm_pi exact_libm = pi"
  by (simp add: exact_libm_def)

lemma fl_exact: "fl exact_fpu = Fin"
  by (simp add: exact_fpu_def)

lemma tap_value_exact:
  assumes "2 \<le> N"
  shows "tap_value exact_fpu exact_libm (int N) P i = Fin (prototype N P i)"
proof -
  have n: "real N - 1 \<noteq> 0" "real N \<noteq> 0" using assms by simp_all
  have s: "sinc_value exact_fpu exact_libm (Fin x) = Fin (sinc x)" for x
  proof (cases "\<bar>x\<bar> < 1 / 10 ^ 12")
    case False
    then have "x \<noteq> 0" by auto
    then show ?thesis using False by (simp add: sinc_value_def sinc_def fl_exact exact_libm_def dbl_fun_def)
  qed (simp add: sinc_value_def sinc_def)
  have h: "hann_value exact_fpu exact_libm (int N) i = Fin (hann N i)"
    using n by (simp add: hann_value_def hann_def fl_exact exact_libm_def dbl_fun_def)
  have "dbl_div Fin (dbl_mul Fin (dbl_mul Fin (Fin pi) (dbl_sub Fin (Fin (real i)) (dbl_mul Fin (Fin (of_int (int N - 1))) (Fin (1 / 2))))) (Fin (of_int P))) (Fin (of_int (int N)))
      = Fin (sinc_arg N P i)" using n by (simp add: sinc_arg_def)
  then show ?thesis by (simp only: tap_value_def Let_def fl_exact h prototype_def) (simp add: lm_pi_exact s)
qed

lemma tap_loop_total:
  assumes "2 \<le> N" "tap_loop exact_fpu exact_libm fl32 (int N) P i n win (Fin t) = (win', dc')"
  shows "dc' = Fin (t + (\<Sum>k = i..<i + n. prototype N P k))"
  using assms(2)
proof (induction n arbitrary: i win t)
  case (Suc n)
  have "tap_loop exact_fpu exact_libm fl32 (int N) P (i + 1) n (win[i := to_float fl32 (Fin (prototype N P i))]) (Fin (t + prototype N P i)) = (win', dc')"
    using Suc.prems by (simp add: Let_def tap_value_exact [OF assms(1)] fl_exact)
  then have "dc' = Fin (t + prototype N P i + (\<Sum>k = i + 1..<i + 1 + n. prototype N P k))" by (rule Suc.IH)
  also have "t + prototype N P i + (\<Sum>k = i + 1..<i + 1 + n. prototype N P k) = t + (\<Sum>k = i..<i + Suc n. prototype N P k)"
    by (subst sum.atLeast_Suc_lessThan [of i "i + Suc n"]) simp_all
  finally show ?case .
qed simp

lemma sinc_even: "sinc (- x) = sinc x"
  by (simp add: sinc_def)

lemma prototype_symmetric:
  assumes "2 \<le> N" "i < N"
  shows "prototype N P (N - 1 - i) = prototype N P i"
proof -
  have r: "real (N - 1 - i) = real N - 1 - real i" using assms by (simp add: of_nat_diff)
  have n: "real N - 1 \<noteq> 0" using assms(1) by simp
  have "real N - 1 - real i - (real N - 1) / 2 = - (real i - (real N - 1) / 2)" by (simp add: field_simps)
  then have "sinc_arg N P (N - 1 - i) = - sinc_arg N P i" unfolding sinc_arg_def r by (simp only: mult_minus_left mult_minus_right minus_divide_left)
  moreover have "2 * pi * (real N - 1 - real i) / (real N - 1) = 2 * pi - 2 * pi * real i / (real N - 1)" using n by (simp add: field_simps)
  then have "hann N (N - 1 - i) = hann N i" unfolding hann_def r by (simp add: cos_diff)
  ultimately show ?thesis by (simp add: prototype_def sinc_even)
qed

lemma genPfbWin_exact:
  assumes "2 \<le> N" "N \<le> length win" and "(\<Sum>k < N. prototype N P k) \<noteq> 0"
  shows "\<exists>win'. genPfbWin exact_fpu exact_libm Fin win (int N) P = Inr win' \<and> length win' = length win
    \<and> (\<forall>k < length win. win' ! k = (if k < N then Fin (prototype N P k / (\<Sum>k < N. prototype N P k)) else win ! k))"
proof -
  obtain win1 dc where t: "tap_loop exact_fpu exact_libm Fin (int N) P 0 N win (Fin 0) = (win1, dc)" by fastforce
  have dc: "dc = Fin (\<Sum>k < N. prototype N P k)" using tap_loop_total [OF assms(1) t] by (simp add: atLeast0LessThan)
  have w1: "length win1 = length win" "\<And>k. k < length win \<Longrightarrow> win1 ! k = (if k < N then Fin (prototype N P k) else win ! k)"
    using tap_loop_win [OF t] assms(1,2) by (simp_all add: to_float_def tap_value_exact)
  have s: "length (scale_loop Fin dc 0 N win1) = length win1" "\<And>k. k < length win1 \<Longrightarrow>
      scale_loop Fin dc 0 N win1 ! k = (if k < N then dbl_div Fin (win1 ! k) (to_float Fin dc) else win1 ! k)"
    using scale_loop_nth [of 0 N win1 Fin dc] assms(2) w1(1) by simp_all
  have "genPfbWin exact_fpu exact_libm Fin win (int N) P = Inr (scale_loop Fin dc 0 N win1)"
    using assms(2) t by (simp add: genPfbWin_def)
  moreover have "scale_loop Fin dc 0 N win1 ! k = (if k < N then Fin (prototype N P k / (\<Sum>k < N. prototype N P k)) else win ! k)" if "k < length win" for k
    using s(2) [of k] w1 that assms(3) by (simp add: dc to_float_def)
  ultimately show ?thesis using s(1) w1(1) by simp
qed

section \<open>Properties\<close>

text \<open>
  C24. With exact arithmetic the filter is a normalised linear-phase filter: unless the taps add up to zero, \<^verbatim>\<open>genPfbWin\<close> returns a window whose
  first \<open>N\<close> taps are symmetric about their middle and add up to one, so the filter has unit gain at zero frequency and delays by half its length; the rest of the vector is
  unchanged.
\<close>

theorem genPfbWin_linear_phase:
  assumes "2 \<le> N" "N \<le> length win" and "(\<Sum>k < N. prototype N P k) \<noteq> 0"
  shows "\<exists>win'. genPfbWin exact_fpu exact_libm Fin win (int N) P = Inr win' \<and> length win' = length win
    \<and> (\<forall>i < N. win' ! (N - 1 - i) = win' ! i) \<and> (\<Sum>i < N. real_of_dbl (win' ! i)) = 1
    \<and> (\<forall>i < N. isfinite (win' ! i)) \<and> drop N win' = drop N win"
proof -
  obtain win' where w: "genPfbWin exact_fpu exact_libm Fin win (int N) P = Inr win'" "length win' = length win"
      "\<And>k. k < length win \<Longrightarrow> win' ! k = (if k < N then Fin (prototype N P k / (\<Sum>k < N. prototype N P k)) else win ! k)"
    using genPfbWin_exact [OF assms] by blast
  have v: "win' ! i = Fin (prototype N P i / (\<Sum>k < N. prototype N P k))" if "i < N" for i using w(3) assms(2) that by simp
  have "(\<Sum>i < N. real_of_dbl (win' ! i)) = (\<Sum>i < N. prototype N P i / (\<Sum>k < N. prototype N P k))" by (rule sum.cong) (simp_all add: v)
  also have "\<dots> = 1" using assms(3) by (simp add: sum_divide_distrib [symmetric])
  finally have "(\<Sum>i < N. real_of_dbl (win' ! i)) = 1" .
  moreover have "win' ! (N - 1 - i) = win' ! i" if "i < N" for i using v [of i] v [of "N - 1 - i"] prototype_symmetric [OF assms(1) that] that by simp
  moreover have "drop N win' = drop N win" using w(2,3) assms(2) by (intro nth_equalityI) simp_all
  ultimately show ?thesis using w(1,2) v by auto
qed

theorem genPfbWin_linear_phase_witness:
  "\<exists>win'. genPfbWin exact_fpu exact_libm Fin (replicate 3 (Fin 0)) 3 1 = Inr win' \<and> win' ! 2 = win' ! 0 \<and> (\<Sum>i < 3. real_of_dbl (win' ! i)) = 1"
proof -
  have "prototype 3 1 0 = 0" "prototype 3 1 2 = 0" "prototype 3 1 1 = 1" by (simp_all add: prototype_def hann_def sinc_def sinc_arg_def)
  then have "(\<Sum>k < 3. prototype 3 1 k) \<noteq> 0" by (simp add: eval_nat_numeral)
  then obtain win' where "genPfbWin exact_fpu exact_libm Fin (replicate 3 (Fin 0)) (int 3) 1 = Inr win'"
      "\<forall>i < 3. win' ! (3 - 1 - i) = win' ! i" "(\<Sum>i < 3. real_of_dbl (win' ! i)) = 1"
    using genPfbWin_linear_phase [of 3 "replicate 3 (Fin 0)" 1] by auto
  then show ?thesis by (intro exI [of _ win']) (auto dest: spec [of _ 0])
qed

end
