(* ===== verification/Lossless_Run.thy ===== *)
theory Lossless_Run
  imports Subband_Chain
begin

text \<open>
  A receive loop on a stream without loss: the packets of consecutive ids are all stored and every complete batch is published. It
  shows that the conditions of the theorems on received packets can be met by any receive loop in spectral mode with batches of sixteen packets, with the port
  and queue it was given.
\<close>

section \<open>Packets\<close>

definition stream_packet :: "u16 \<Rightarrow> u8 \<Rightarrow> bytes" where
  "stream_packet port n = replicate 36 0 @ [ucast (drop_bit 8 port), ucast port] @ replicate 8 0 @ n # replicate 8219 0"

definition stream_info :: "rx_config \<Rightarrow> nat \<Rightarrow> packet_info" where
  "stream_info c k = packet_of_frame c (drop VDIF_HEADER_OFFSET (stream_packet (dest_port c) (of_nat k)))"

definition plain :: "rx_config \<Rightarrow> bool" where
  "plain c \<longleftrightarrow> \<not> baseband_mode c \<and> \<not> rx_cal_mode c \<and> \<not> monitor_enabled c \<and> batchsize c = 16"

lemma bytes_of_port: "push_bit 8 (ucast (ucast (drop_bit 8 port) :: u8)) OR ucast (ucast port :: u8) = (port :: u16)"
  by (rule bit_word_eqI) (auto simp: bit_simps less_diff_conv)

lemma stream_packet_frame:
  "length (stream_packet port n) = EXPECTED_PKT_LEN" "udp_dst_port (stream_packet port n) = port"
  "drop VDIF_HEADER_OFFSET (stream_packet port n) = replicate 4 0 @ n # replicate 8219 0"
  using bytes_of_port [of port]
  by (simp_all add: stream_packet_def EXPECTED_PKT_LEN_def udp_dst_port_def UDP_HEADER_OFFSET_def VDIF_HEADER_OFFSET_def nth_append nth_Cons')

lemma stream_info_sel:
  assumes "plain c" "k < 256"
  shows "recv_packet_id (stream_info c k) = of_nat k" "info_batchid (stream_info c k) = of_nat (k div 16)"
    "unat (pkt_idx_inbatch (stream_info c k)) = k mod 16"
proof -
  let ?n = "of_nat k :: u8"
  have m: "(0xffffff :: u32) = semiring_bit_operations_class.mask 24" by (simp add: mask_eq_decr_exp)
  have "(ucast ?n AND 0xffffff :: u32) = ucast ?n"
    unfolding m by (rule bit_word_eqI) (auto simp: bit_simps dest: bit_imp_le_length)
  then have meta: "readMetadata (replicate 4 0 @ ?n # replicate 8219 0) False
      = \<lparr>seconds_from_epoch = 0, frame_number = ucast ?n, noise_source_state = 0\<rparr>"
    by (simp add: readMetadata_def readLE32_def nth_append nth_Cons')
  have "ucast (ucast ?n :: u32) = (ucast ?n :: u64)" by (rule bit_word_eqI) (auto simp: bit_simps dest: bit_imp_le_length)
  moreover have "(ucast ?n :: u64) = of_nat k" using assms(2) by (simp add: word_eq_unat unat_of_nat unsigned_ucast_eq take_bit_nat_eq_self)
  ultimately have info: "recv_packet_id (stream_info c k) = of_nat k" "info_batchid (stream_info c k) = of_nat k div 16"
      "pkt_idx_inbatch (stream_info c k) = ucast ((of_nat k :: u64) mod 16)"
    using assms(1) meta by (simp_all add: stream_info_def stream_packet_frame(3) packet_of_frame_def packet_id_def plain_def Let_def)
  show "recv_packet_id (stream_info c k) = of_nat k" by (rule info(1))
  have u: "unat (of_nat k :: u64) = k" using assms(2) by (simp add: unat_of_nat)
  show "info_batchid (stream_info c k) = of_nat (k div 16)"
    unfolding info(2) using u by (simp add: word_eq_unat unat_div unat_of_nat)
  show "unat (pkt_idx_inbatch (stream_info c k)) = k mod 16"
    unfolding info(3) using u by (simp add: unat_mod unsigned_ucast_eq take_bit_nat_eq_self)
qed

lemma plain_classify:
  assumes "plain c"
  shows "rx_classify c mon now (stream_packet (dest_port c) (of_nat k)) r = sequence_check c now (stream_info c k) (r\<lparr>total_pkts := total_pkts r + 1\<rparr>)"
  using assms by (simp add: rx_classify_def stream_packet_frame(1,2) stream_info_def Let_def update_monitor_def plain_def)

lemma plain_store: "plain c \<Longrightarrow> \<exists>r'. rx_store c info r = Inr r'"
  by (simp add: rx_store_def frame_header_def plain_def Let_def)

section \<open>The run\<close>

text \<open>The receive loop after the packets \<open>0\<close> to \<open>k\<close>, with no batch taken from the queue.\<close>

definition received :: "rx_config \<Rightarrow> u64 \<Rightarrow> nat \<Rightarrow> rx_sys \<Rightarrow> bool" where
  "received c capacity k s \<longleftrightarrow> rx_reach c capacity s \<and> stored s = map (stream_info c) [0..<Suc k] \<and> rpc s = R_idle
     \<and> expected_pkt_id (rx s) = of_nat (Suc k) \<and> prebatchid (rx s) = of_nat (k div 16) \<and> length (published s) = k div 16
     \<and> cb_inv (queue (rx s)) \<and> length (queue_list (queue (rx s))) = k div 16 \<and> maxcap (queue (rx s)) = capacity"

lemma received_0:
  assumes "plain c" "0 < unat capacity" "unat capacity < 2 ^ 63"
  shows "\<exists>s. received c capacity 0 s"
proof -
  let ?s0 = "rx_init c capacity" and ?i = "stream_info c 0"
  note i = stream_info_sel [OF assms(1), of 0, simplified]
  have init: "expected_pkt_id (rx ?s0) = 0" "queue (rx ?s0) = new_buffer capacity" "rpc ?s0 = R_idle"
    by (simp_all add: rx_init_def new_receiver_def)
  have "pkt_idx_inbatch ?i = 0" using i(3) by (simp add: word_eq_unat)
  then obtain r1 where a: "rx_classify c Mon_mapped 0 (stream_packet (dest_port c) (of_nat 0)) (rx ?s0) = Rx_accept r1 ?i"
    unfolding plain_classify [OF assms(1)] using init i by (simp add: sequence_check_def Let_def)
  have f1: "prebatchid r1 = 0" "queue r1 = new_buffer capacity" "expected_pkt_id r1 = 1"
    using rx_classify_accept [OF a] init i by simp_all
  obtain r2 where st: "rx_store c ?i r1 = Inr r2" using plain_store [OF assms(1)] by blast
  note f2 = rx_store_sel [OF st, unfolded f1]
  have "rx_reach c capacity (?s0\<lparr>rx := r2, stored := [?i]\<rparr>)"
    using rx_next [OF rx_next [OF rx_start [of c capacity] rx_accept [OF init(3) a]] rx_done [of _ ?i c r2]] st f1 i
    by (simp add: rx_init_def)
  moreover have "cb_inv (new_buffer capacity :: nat circular_buffer)" "queue_list (new_buffer capacity :: nat circular_buffer) = []"
    using assms(2,3) by (auto intro: new_buffer_inv)
  moreover have "maxcap (new_buffer capacity :: nat circular_buffer) = capacity" by (simp add: new_buffer_def)
  ultimately show ?thesis using f2 init(3)
    by (intro exI [of _ "?s0\<lparr>rx := r2, stored := [?i]\<rparr>"]) (simp add: received_def rx_init_def)
qed

text \<open>The next packet is accepted; the rest of the step depends on whether it opens a new batch.\<close>

lemma received_accept:
  assumes "plain c" "received c capacity k s" "Suc k < 256"
  obtains r where "rx_reach c capacity (s\<lparr>rx := r, rpc := R_advance (stream_info c (Suc k))\<rparr>)" "prebatchid r = of_nat (k div 16)"
    "queue r = queue (rx s)" "expected_pkt_id r = of_nat (Suc (Suc k))"
proof -
  note s = assms(2) [unfolded received_def] and i = stream_info_sel [OF assms(1,3)]
  let ?i = "stream_info c (Suc k)"
  have ne: "(of_nat (Suc k) :: u64) \<noteq> 0" using assms(3) by (simp add: word_eq_unat unat_of_nat del: of_nat_Suc)
  obtain r where a: "rx_classify c Mon_mapped 0 (stream_packet (dest_port c) (of_nat (Suc k))) (rx s) = Rx_accept r ?i"
    unfolding plain_classify [OF assms(1)] using s ne i(1) by (simp add: sequence_check_def Let_def del: of_nat_Suc)
  have "prebatchid r = of_nat (k div 16)" "queue r = queue (rx s)" "expected_pkt_id r = of_nat (Suc k) + 1"
    using rx_classify_accept [OF a] s ne i(1) by (simp_all del: of_nat_Suc)
  moreover have "rx_reach c capacity (s\<lparr>rx := r, rpc := R_advance ?i\<rparr>)" using rx_next [of c capacity s] s a by (blast intro: rx_accept)
  ultimately show ?thesis using that by (simp add: add.commute)
qed

text \<open>The packet is stored once its batch is the current one.\<close>

lemma received_store:
  assumes "plain c" "Suc k < 256" and reach: "rx_reach c capacity s'" and pc: "rpc s' = R_advance (stream_info c (Suc k))"
    and "stored s' = map (stream_info c) [0..<Suc k]" "expected_pkt_id (rx s') = of_nat (Suc (Suc k))" "prebatchid (rx s') = of_nat (Suc k div 16)"
    "length (published s') = Suc k div 16" "cb_inv (queue (rx s'))" "length (queue_list (queue (rx s'))) = Suc k div 16" "maxcap (queue (rx s')) = capacity"
  shows "\<exists>s. received c capacity (Suc k) s"
proof -
  let ?i = "stream_info c (Suc k)"
  obtain r where st: "rx_store c ?i (rx s') = Inr r" using plain_store [OF assms(1)] by blast
  have "rx_reach c capacity (s'\<lparr>rx := r, rpc := R_idle, stored := stored s' @ [?i]\<rparr>)"
    using rx_next [OF reach rx_done [OF pc _ st]] stream_info_sel(2) [OF assms(1,2)] assms(7) by simp
  then show ?thesis using rx_store_sel [OF st] assms(5-)
    by (intro exI [of _ "s'\<lparr>rx := r, rpc := R_idle, stored := stored s' @ [?i]\<rparr>"]) (simp add: received_def)
qed

lemma received_Suc:
  assumes "plain c" "received c capacity k s" "Suc k < 256" "Suc k div 16 \<le> unat capacity"
  shows "\<exists>s'. received c capacity (Suc k) s'"
proof -
  note s = assms(2) [unfolded received_def] and i = stream_info_sel [OF assms(1,3)]
  let ?i = "stream_info c (Suc k)"
  obtain r where r: "rx_reach c capacity (s\<lparr>rx := r, rpc := R_advance ?i\<rparr>)" "prebatchid r = of_nat (k div 16)" "queue r = queue (rx s)"
      "expected_pkt_id r = of_nat (Suc (Suc k))" using received_accept [OF assms(1-3)] by blast
  show ?thesis
  proof (cases "Suc k div 16 = k div 16")
    case True
    show ?thesis by (rule received_store [OF assms(1,3) r(1)]) (use s r True in simp_all)
  next
    case False
    then have d: "Suc k div 16 = Suc (k div 16)" by (simp add: div_Suc split: if_splits)
    have "length (queue_list (queue (rx s))) < unat (maxcap (queue (rx s)))" "cb_inv (queue (rx s))" using s assms(4) d by simp_all
    then obtain q where q: "try_enqueue (pool_idx r) (queue (rx s)) = (True, q)" "cb_inv q" "unat (maxcap q) = unat (maxcap (queue (rx s)))"
        "length (queue_list q) = Suc (k div 16)"
      using cb.enqE [of "queue (rx s)" "pool_idx r" thesis] s by (metis length_append_singleton)
    define r2 where "r2 = next_batch c ((finish_current c r)\<lparr>queue := q\<rparr>)"
    have p: "rx_try_publish c r = (True, r2)" using q(1) r(3) by (simp add: rx_try_publish_def r2_def)
    have f: "queue r2 = q" "prebatchid r2 = of_nat (Suc (k div 16))" "expected_pkt_id r2 = of_nat (Suc (Suc k))"
      using r by (simp_all add: r2_def next_batch_def finish_current_def Let_def)
    have lt: "(of_nat (k div 16) :: u64) < of_nat (Suc (k div 16))" using assms(3) by (simp add: word_less_nat_alt unat_of_nat del: of_nat_Suc)
    let ?s2 = "s\<lparr>rpc := R_advance ?i, rx := r2, published := published s @ [current (finish_current c r)]\<rparr>"
    have s2: "rx_reach c capacity ?s2"
      using rx_next [OF r(1) rx_publish [of "s\<lparr>rx := r, rpc := R_advance ?i\<rparr>" ?i c r2]] p r(2) lt i(2) d by (simp del: of_nat_Suc)
    show ?thesis by (rule received_store [OF assms(1,3) s2]) (use s q f d in \<open>simp_all add: word_eq_unat\<close>)
  qed
qed

lemma received_run:
  assumes "plain c" "0 < unat capacity" "unat capacity < 2 ^ 63"
  shows "k < 256 \<Longrightarrow> k div 16 \<le> unat capacity \<Longrightarrow> \<exists>s. received c capacity k s"
proof (induction k)
  case 0
  show ?case by (rule received_0 [OF assms])
next
  case (Suc k)
  have "k div 16 \<le> Suc k div 16" by (rule div_le_mono) simp
  then show ?case using Suc received_Suc [OF assms(1)] by (meson Suc_lessD order_trans)
qed

section \<open>Batches of the run\<close>

lemma pid_stream: "plain c \<Longrightarrow> k < 256 \<Longrightarrow> pid (stream_info c k) = k"
  by (simp add: stream_info_sel unat_of_nat)

text \<open>All published batches are complete, so two such streams give valid pairs.\<close>

lemma received_batches:
  assumes "plain c" "thread_id c < 2 ^ 10" "0 < unat capacity" "unat capacity < 2 ^ 63" and s: "received c capacity k s" "k < 256"
  shows "consecutive 0 (published s)" "\<forall>b \<in> set (published s). batch_valid b"
proof -
  have bs: "bs c = 16" "0 < bs c" using assms(1) by (simp_all add: plain_def)
  have st: "rx_reach c capacity s" "stored s \<noteq> []" "hd (stored s) = stream_info c 0" "length (published s) = k div 16"
    using s(1) by (simp_all add: received_def hd_map del: upt_Suc)
  have "pid (stream_info c 0) = 0" using stream_info_sel(1) [OF assms(1), of 0] by simp
  then show con: "consecutive 0 (published s)"
    using published_queue [OF assms(3,4) bs(2) assms(2) st(1,2)] st(3) by simp
  show "\<forall>b \<in> set (published s). batch_valid b"
  proof
    fix b assume b: "b \<in> set (published s)"
    have "unat (batch_id b) \<in> set (map nat_id (published s))" using b by simp
    then have n: "unat (batch_id b) < k div 16" using con unfolding consecutive_def st(4) by (metis add_0 atLeastLessThan_iff set_upt)
    have "\<exists>i \<in> set (stored s). pid i = unat (batch_id b) * 16 + m" if "m < 16" for m
    proof -
      let ?j = "unat (batch_id b) * 16 + m"
      have j: "?j < Suc k" using n that by linarith
      then have "stream_info c ?j \<in> set (stored s)" using s(1) unfolding received_def set_map set_upt by (metis atLeastLessThan_iff imageI le0 set_map set_upt)
      moreover have "pid (stream_info c ?j) = ?j" by (rule pid_stream [OF assms(1)]) (use j s(2) in linarith)
      ultimately show ?thesis by blast
    qed
    then show "batch_valid b" unfolding published_valid_iff [OF assms(3,4) bs(2) assms(2) st(1) b] bs(1) by blast
  qed
qed

lemma received_pairs:
  assumes "consecutive 0 qA" "consecutive 0 qB" "length qA = n" "length qB = n" and "\<forall>b \<in> set qA \<union> set qB. batch_valid b"
  shows "length (pair_up qA qB) = n" "\<forall>p \<in> set (pair_up qA qB). pair_valid p"
proof -
  note paired = pair_up_consecutive [OF assms(1,2)]
  show "length (pair_up qA qB) = n" using arg_cong [OF paired, of length] assms(3,4) by simp
  show "\<forall>p \<in> set (pair_up qA qB). pair_valid p"
  proof
    fix p assume p: "p \<in> set (pair_up qA qB)"
    obtain a b gap where q: "p = (a, b, gap)" by (cases p)
    have "(nat_id a, nat_id b, gap) \<in> set (map (\<lambda>(a, b, gap). (nat_id a, nat_id b, gap)) (pair_up qA qB))" using p q by force
    then have "\<not> gap" unfolding paired by auto
    then show "pair_valid p" using assms(5) pair_up_members [of a b gap] p q by (simp add: pair_valid_def input_valid_def)
  qed
qed

end
