(* ===== verification/Started_System.thy ===== *)
theory Started_System
  imports Startup Lossless_Run
begin

text \<open>
  The started program as a whole: the receive loops run with the parameters that the start gave them, on the packet memory that
  \<^verbatim>\<open>init\<close> laid out. A started program meets the conditions under which the receiver is correct.
\<close>

section \<open>Parameters of a receive loop\<close>

text \<open>What \<^verbatim>\<open>recv2mem\<close> reads from the configuration and from its parameter; \<open>hz\<close> is \<^verbatim>\<open>rte_get_timer_hz()\<close>.\<close>

definition recv2mem_config :: "u64 \<Rightarrow> GlobalConfig \<Rightarrow> lcore_param \<Rightarrow> rx_config" where
  "recv2mem_config hz cfg p =
     \<lparr>baseband_mode = (cfg_observation_mode cfg = BASEBAND), rx_cal_mode = cfg_cal_mode cfg, monitor_enabled = cfg_subband_monitor cfg,
      batchsize = of_int (cfg_batchsize cfg), dest_port = lp_dest_port p, Baseband_bits = of_int (cfg_Baseband_bits cfg),
      thread_id = of_int (cfg_ServerID cfg * 16 + int (unat (lp_ring_id p))), loss_report_interval_cycles = hz * 2\<rparr>"

text \<open>The receive loop of stream \<open>s\<close>.\<close>

definition stream_config :: "u64 \<Rightarrow> running \<Rightarrow> nat \<Rightarrow> rx_config" where
  "stream_config hz r s = recv2mem_config hz (run_cfg r) (snd (run_workers r ! s))"

text \<open>The packets of batch \<open>b\<close> of a stream, and the batches of a stream that some thread uses: the one being filled, the queued ones and the one the consumer holds.\<close>

definition batch_packets :: "running \<Rightarrow> nat \<Rightarrow> nat \<Rightarrow> nat set" where
  "batch_packets r s b =
     (let first = unat (sc_pool (in_streams (run_init r) ! s) ! b) in {first ..< first + nat (cfg_batchsize (run_cfg r))})"

definition owned :: "rx_sys \<Rightarrow> nat list" where
  "owned t = pool_idx (rx t) # queue_list (queue (rx t)) @ (case held t of None \<Rightarrow> [] | Some h \<Rightarrow> [h])"

section \<open>A started program\<close>

lemma main_parts:
  assumes "main fp cv env file removable shm alloc dk = Inr r"
  obtains cfg meta where "initFromYaml fp cv env file new_GlobalConfig = Some (cfg, meta)" "init alloc (baseband_nfft cfg) = Inr (run_init r)"
    "dpdk dk (baseband_nfft cfg) = Inr (run_workers r, run_ports r)" "run_cfg r = baseband_nfft cfg"
  using assms by (auto simp: main_def Let_def split: option.splits sum.splits prod.splits)

text \<open>The pool of a stream keeps its size.\<close>

lemma pool_length_step:
  assumes "rx_step cfg s s'"
  shows "length (pool (rx s')) = length (pool (rx s))"
  using assms
proof cases
  case (rx_discard mon now pkt r)
  then show ?thesis using rx_classify_discard [of cfg mon now pkt "rx s" r] by simp
next
  case (rx_stop mon now pkt r)
  then show ?thesis using rx_classify_discard [of cfg mon now pkt "rx s" r] by simp
next
  case (rx_accept mon now pkt r info)
  then show ?thesis using rx_classify_accept [of cfg mon now pkt "rx s" r info] by (auto split: if_splits)
next
  case (rx_publish info r)
  then show ?thesis by (auto simp: rx_try_publish_def Let_def split: prod.splits bool.splits)
next
  case (rx_full info r)
  then show ?thesis by (auto simp: rx_try_publish_def Let_def split: prod.splits bool.splits)
next
  case (rx_wait info r)
  then show ?thesis by (auto simp: rx_wait_publish_def split: prod.splits bool.splits)
next
  case (rx_done info r)
  then show ?thesis using rx_store_sel [of cfg info "rx s" r] by auto
qed simp_all

lemma pool_length_reach:
  assumes "rx_reach cfg capacity t"
  shows "length (pool (rx t)) = unat capacity + 2"
  using assms by induction (simp_all add: rx_init_def new_receiver_def pool_length_step)

text \<open>The receive loops of a started program meet the conditions of the receiver theorems.\<close>

lemma stream_config_ok:
  assumes "main fp cv env file removable shm alloc dk = Inr r" and "\<forall>args e. dk_init dk args = Some e \<longrightarrow> distinct (ea_lcores e)"
    and "s < max_streams"
  shows "unat (batchsize (stream_config hz r s)) = nat (cfg_batchsize (run_cfg r))" "0 < unat (batchsize (stream_config hz r s))"
    "thread_id (stream_config hz r s) < 2 ^ 10"
proof -
  obtain cfg meta where c: "initFromYaml fp cv env file new_GlobalConfig = Some (cfg, meta)"
      "dpdk dk (baseband_nfft cfg) = Inr (run_workers r, run_ports r)" "run_cfg r = baseband_nfft cfg"
    using main_parts [OF assms(1)] by metis
  have b: "16 \<le> cfg_batchsize (run_cfg r)" "cfg_batchsize (run_cfg r) \<le> 4096" using baseband_nfft_batch [OF c(1)] by (simp_all add: c(3))
  have "batchsize (stream_config hz r s) = of_nat (nat (cfg_batchsize (run_cfg r)))" using b(1) by (simp add: stream_config_def recv2mem_config_def)
  moreover have "nat (cfg_batchsize (run_cfg r)) < 2 ^ 32" using b(2) by simp
  ultimately show n: "unat (batchsize (stream_config hz r s)) = nat (cfg_batchsize (run_cfg r))" by (simp only: unat_of_nat) simp
  show "0 < unat (batchsize (stream_config hz r s))" unfolding n using b by simp
  have ring: "lp_ring_id (snd (run_workers r ! s)) = of_nat s"
    using workers_launched [OF c(2) assms(2), of s] assms(3) by (simp add: max_streams_def)
  have srv: "0 \<le> cfg_ServerID (run_cfg r)" "cfg_ServerID (run_cfg r) \<le> 7"
    using initFromYaml_ok(1) [OF c(1)] by (simp_all add: layout_ok_def c(3) baseband_nfft_def)
  have u: "unat (of_nat s :: u16) = s" using assms(3) by (simp add: unat_of_nat max_streams_def)
  let ?v = "cfg_ServerID (run_cfg r) * 16 + int s"
  have v: "0 \<le> ?v" "?v < 128" using srv assms(3) by (simp_all add: max_streams_def)
  have id: "(of_int x :: u16) < 2 ^ 10" if "0 \<le> x" "x < 128" for x
  proof -
    have "uint (of_int x :: u16) = x" using that by (simp add: uint_word_of_int)
    then show ?thesis using that(2) by (simp add: word_less_def)
  qed
  have "thread_id (stream_config hz r s) = of_int ?v" by (simp only: stream_config_def recv2mem_config_def rx_config.simps ring u)
  then show "thread_id (stream_config hz r s) < 2 ^ 10" using id [OF v] by (simp only:)
qed

lemma started_capacity_eq:
  assumes "main fp cv env file removable shm alloc dk = Inr r"
  shows "in_QUEUE_CAPACITY (run_init r) = calc_pool_size (run_cfg r) - 2"
  using main_parts [OF assms] init_streams(4) by metis

lemma started_capacity:
  assumes "main fp cv env file removable shm alloc dk = Inr r" and "unat (cfg_Memory_pool_per_stream (run_cfg r)) \<le> 2 ^ 20"
  shows "0 < unat (in_QUEUE_CAPACITY (run_init r))" "unat (in_QUEUE_CAPACITY (run_init r)) < 2 ^ 63"
proof -
  obtain cfg meta where c: "initFromYaml fp cv env file new_GlobalConfig = Some (cfg, meta)" "init alloc (baseband_nfft cfg) = Inr (run_init r)"
      "run_cfg r = baseband_nfft cfg"
    using main_parts [OF assms(1)] by metis
  have b: "16 \<le> cfg_batchsize (run_cfg r)" "cfg_batchsize (run_cfg r) \<le> 4096" using baseband_nfft_batch [OF c(1)] by (simp_all add: c(3))
  note z = pool_size_bounds [OF assms(2) b]
  note q = started_capacity_eq [OF assms(1)]
  have "unat (calc_pool_size (run_cfg r) - 2) = unat (calc_pool_size (run_cfg r)) - 2" using z(1) by (subst unat_sub_exact) simp_all
  moreover have "unat (calc_pool_size (run_cfg r)) * 1 \<le> unat (calc_pool_size (run_cfg r)) * nat (cfg_batchsize (run_cfg r))"
    using b(1) by (intro mult_le_mono2) simp
  then have "unat (calc_pool_size (run_cfg r)) \<le> 2 ^ 37" using z(2) by (simp only: mult_1_right)
  ultimately show "0 < unat (in_QUEUE_CAPACITY (run_init r))" "unat (in_QUEUE_CAPACITY (run_init r)) < 2 ^ 63" unfolding q using z(1) by simp_all
qed

section \<open>Property\<close>

text \<open>
  C12. In a started program no two threads ever work on the same packet memory: take any two of its enabled streams, or one, in any states that their receive loops
  and consumers can reach. The batch a receive loop fills, the batches in its queue and the batch its consumer holds are different batches
  of the pool of the stream, each lies inside the allocated memory, and any two of them, of the same or of different streams, have no packet in common. The
  memory of a stream is assumed to be at most 2 to the 20 GiB, and EAL to report each lcore once.
\<close>

theorem started_memory_safe:
  assumes "main fp cv env file removable shm alloc dk = Inr r" and "\<forall>args e. dk_init dk args = Some e \<longrightarrow> distinct (ea_lcores e)"
    and "unat (cfg_Memory_pool_per_stream (run_cfg r)) \<le> 2 ^ 20"
    and s: "s < max_streams" "sc_enable (in_streams (run_init r) ! s)" "rx_reach (stream_config hz r s) (in_QUEUE_CAPACITY (run_init r)) t"
    and s': "s' < max_streams" "sc_enable (in_streams (run_init r) ! s')" "rx_reach (stream_config hz r s') (in_QUEUE_CAPACITY (run_init r)) t'"
    and "s = s' \<longrightarrow> t = t'" "i < length (owned t)" "i' < length (owned t')" "(s, i) \<noteq> (s', i')"
  shows "owned t ! i < length (sc_pool (in_streams (run_init r) ! s))
    \<and> length (pool (rx t)) = length (sc_pool (in_streams (run_init r) ! s))
    \<and> batch_packets r s (owned t ! i) \<subseteq> {..<unat (in_total_packets (run_init r))}
    \<and> batch_packets r s (owned t ! i) \<inter> batch_packets r s' (owned t' ! i') = {}"
proof -
  obtain cfg meta where c: "initFromYaml fp cv env file new_GlobalConfig = Some (cfg, meta)" "init alloc (baseband_nfft cfg) = Inr (run_init r)"
      "run_cfg r = baseband_nfft cfg"
    using main_parts [OF assms(1)] by metis
  note cap = started_capacity [OF assms(1,3)]
  have mem: "unat (cfg_Memory_pool_per_stream cfg) \<le> 2 ^ 20" using assms(3) by (simp add: c(3) baseband_nfft_keeps)
  have len: "length (sc_pool (in_streams (run_init r) ! x)) = length (pool (rx y))"
    if "x < max_streams" "sc_enable (in_streams (run_init r) ! x)" "rx_reach (stream_config hz r x) (in_QUEUE_CAPACITY (run_init r)) y" for x y
  proof -
    have "16 \<le> cfg_batchsize (baseband_nfft cfg)" "cfg_batchsize (baseband_nfft cfg) \<le> 4096" using baseband_nfft_batch [OF c(1)] by simp_all
    then show ?thesis using pool_offset(1) [OF c(2) assms(3) [unfolded c(3)] _ _ that(1,2)] pool_length_reach [OF that(3)] by simp
  qed
  have own: "distinct (owned t)" "owned t ! i < length (pool (rx t))" "owned t' ! i' < length (pool (rx t'))"
    using pool_ownership [OF cap s(3)] pool_ownership [OF cap s'(3)] assms(11,12) nth_mem [of i "owned t"] nth_mem [of i' "owned t'"]
    unfolding owned_def by blast+
  have b: "owned t ! i < length (sc_pool (in_streams (run_init r) ! s))" "owned t' ! i' < length (sc_pool (in_streams (run_init r) ! s'))"
    using own(2,3) by (simp_all only: len [OF s] len [OF s'])
  have "(s, owned t ! i) \<noteq> (s', owned t' ! i')" using assms(10-13) own(1) by (auto simp: nth_eq_iff_index_eq)
  then have m: "unat (sc_pool (in_streams (run_init r) ! s) ! (owned t ! i)) + nat (cfg_batchsize (run_cfg r)) \<le> unat (in_total_packets (run_init r))"
      "unat (sc_pool (in_streams (run_init r) ! s) ! (owned t ! i)) + nat (cfg_batchsize (run_cfg r)) \<le> unat (sc_pool (in_streams (run_init r) ! s') ! (owned t' ! i'))
       \<or> unat (sc_pool (in_streams (run_init r) ! s') ! (owned t' ! i')) + nat (cfg_batchsize (run_cfg r)) \<le> unat (sc_pool (in_streams (run_init r) ! s) ! (owned t ! i))"
    using packet_memory_disjoint [OF c(1,2) mem s(1,2) b(1) s'(1,2) b(2)] unfolding c(3) by blast+
  then have "batch_packets r s (owned t ! i) \<subseteq> {..<unat (in_total_packets (run_init r))}"
      "batch_packets r s (owned t ! i) \<inter> batch_packets r s' (owned t' ! i') = {}"
    by (auto simp: batch_packets_def Let_def)
  then show ?thesis using b(1) len [OF s] by simp
qed

text \<open>The program of the demonstration file, with its receive loops and the worker of its first subband.\<close>

lemma demo_started:
  obtains r where "main exact_fpu demo_conv demo_dirs (Some demo_file) (\<lambda>_. True) {} (\<lambda>_. None) demo_dpdk = Inr r"
    "unat (cfg_Memory_pool_per_stream (run_cfg r)) \<le> 2 ^ 20" "sc_enable (in_streams (run_init r) ! 0)" "sc_enable (in_streams (run_init r) ! 3)"
    "cfg_observation_mode (run_cfg r) = SPECTRAL" "\<not> cfg_cal_mode (run_cfg r)" "\<not> cfg_subband_monitor (run_cfg r)"
    "cfg_total_nfft (run_cfg r) = 65536" "cfg_integration_t (run_cfg r) = Fin 0" "cfg_Memory_pool_per_stream (run_cfg r) = 64"
proof -
  obtain cfg st where c: "initFromYaml exact_fpu demo_conv demo_dirs (Some demo_file) new_GlobalConfig = Some (cfg, None)" "init (\<lambda>_. None) (baseband_nfft cfg) = Inr st"
      "unat (cfg_Memory_pool_per_stream cfg) \<le> 2 ^ 20" "\<not> cfg_local_sdfits_enabled cfg" "sc_enable (in_streams st ! 0)" "sc_enable (in_streams st ! 3)"
      "cfg_integration_t cfg = Fin 0" "cfg_total_nfft cfg = 65536" "cfg_observation_mode cfg = SPECTRAL" "cfg_cal_mode cfg = False" "cfg_subband_monitor cfg = False" "cfg_Memory_pool_per_stream cfg = 64"
    using demo_program by blast
  obtain ws ports where d: "dpdk demo_dpdk (baseband_nfft cfg) = Inr (ws, ports)" using demo_dpdk_starts by blast
  obtain r where r: "main exact_fpu demo_conv demo_dirs (Some demo_file) (\<lambda>_. True) {} (\<lambda>_. None) demo_dpdk = Inr r" "run_init r = st" "run_cfg r = baseband_nfft cfg"
    using c(1,2,4) d by (simp add: main_def configure_def Let_def)
  have "run_cfg r = cfg" using c(9) r(3) by (simp add: baseband_nfft_def)
  then show ?thesis using that [of r] r(1,2) c by simp
qed

theorem started_memory_safe_witness:
  "\<exists>r. main exact_fpu demo_conv demo_dirs (Some demo_file) (\<lambda>_. True) {} (\<lambda>_. None) demo_dpdk = Inr r
     \<and> batch_packets r 0 0 \<subseteq> {..<unat (in_total_packets (run_init r))} \<and> batch_packets r 0 0 \<inter> batch_packets r 3 0 = {}"
proof -
  obtain r where r: "main exact_fpu demo_conv demo_dirs (Some demo_file) (\<lambda>_. True) {} (\<lambda>_. None) demo_dpdk = Inr r"
      "unat (cfg_Memory_pool_per_stream (run_cfg r)) \<le> 2 ^ 20" "sc_enable (in_streams (run_init r) ! 0)" "sc_enable (in_streams (run_init r) ! 3)" by (rule demo_started)
  have e: "\<forall>args e. dk_init demo_dpdk args = Some e \<longrightarrow> distinct (ea_lcores e)" by (simp add: demo_dpdk_def demo_eal_def)
  have en: "0 < max_streams" "3 < max_streams" by (simp_all add: max_streams_def)
  let ?t = "\<lambda>s. rx_init (stream_config 0 r s) (in_QUEUE_CAPACITY (run_init r))"
  have o: "0 < length (owned (?t s))" "owned (?t s) ! 0 = 0" for s by (simp_all add: owned_def rx_init_def new_receiver_def)
  note m = started_memory_safe [OF r(1) e r(2) en(1) r(3) rx_start en(2) r(4) rx_start, of 0 0]
  have ne: "(0 :: nat) = 3 \<longrightarrow> ?t 0 = ?t 3" "(0 :: nat, 0 :: nat) \<noteq> (3, 0)" by simp_all
  show ?thesis using m [OF ne(1) o(1) o(1) ne(2)] r(1) unfolding o(2) by blast
qed

section \<open>Results of a started program\<close>


lemma shortest_integration:
  assumes "cfg_integration_t cfg = Fin 0" "0 < cfg_total_nfft cfg"
  shows "\<exists>g. new_GpuPfbFft exact_fpu cfg taps = Inr g \<and> m_acc_len g = 1"
proof -
  have "fft_period exact_fpu cfg = Fin (of_int (cfg_total_nfft cfg) / 256000000)" by (simp add: fft_period_def exact_fpu_def sampling_rate_def)
  moreover have "integration_time exact_fpu cfg = fft_period exact_fpu cfg"
    using assms calculation by (simp add: integration_time_def exact_fpu_def trunc_def)
  ultimately have "llround (real_of_dbl (dbl_div (fl exact_fpu) (integration_time exact_fpu cfg) (fft_period exact_fpu cfg))) = 1"
    using llround_of_int [of 1] assms(2) by (simp add: exact_fpu_def)
  then show ?thesis by (simp add: new_GpuPfbFft_def Let_def)
qed


end
