(* ===== verification/Spec2Isabelle.thy ===== *)
theory Spec2Isabelle
  imports Vdif Vdif_Time Baseband_Quantize Spectrum_Transport Observation_Id Spsc_Concurrent Receiver_Delivery Baseband_Recorder Subband_Chain
    Result_Sender Startup Pfb_Window Started_System
begin

text \<open>
  A verification library of the Spectral\_line backend, the program of a radio telescope that receives digitised samples over
  Ethernet and either integrates spectra on GPUs or records the samples.

  \<^bold>\<open>The program.\<close> A process serves eight subband entries, four physical subbands with beams A and B, of two polarisations each: sixteen
  sample streams. \<^verbatim>\<open>main\<close> (\<^verbatim>\<open>src/main.cu\<close>) reads \<^verbatim>\<open>config.yaml\<close> (\<^verbatim>\<open>include/Globalcfg.hpp\<close>), configures the local SDFITS sink, allocates the
  packet memory and starts the worker threads (\<^verbatim>\<open>src/init.cu\<close>), and runs DPDK (\<^verbatim>\<open>src/dpdk.cpp\<close>). Sixteen receive loops (\<^verbatim>\<open>recv2mem\<close>) store VDIF
  packets (\<^verbatim>\<open>include/vdif.hpp\<close>) into batches of a pool and hand them over through a lock-free circular buffer
  (\<^verbatim>\<open>include/readerwritercircularbuffer.h\<close>, \<^verbatim>\<open>include/atomicops.h\<close>). In baseband mode a recorder thread of each stream converts the samples
  (\<^verbatim>\<open>include/baseband_quantize.hpp\<close>) and writes them to files (\<^verbatim>\<open>include/baseband.hpp\<close>). In the other modes a worker of each subband
  (\<^verbatim>\<open>include/DoPFBFFT.hpp\<close>) aligns the two polarisations, applies a polyphase filter bank and an FFT, integrates, and publishes results in a
  ring of host slots, from which \<^verbatim>\<open>send_data\<close> sends them over ZeroMQ (\<^verbatim>\<open>include/SpectrumSender.hpp\<close>, \<^verbatim>\<open>include/SpectrumTransport.hpp\<close>) and queues
  them for local SDFITS files (\<^verbatim>\<open>src/LocalSdfitsWriter.cpp\<close>, \<^verbatim>\<open>src/sdfits.cpp\<close>).

  \<^bold>\<open>Theories.\<close> Each opens with what it models; definitions keep the names of the source.
  \<^item> \<open>SL_Prelude\<close>: types, the error type (one constructor for each exception class), the result type and shared lemmas on words and lists. \<open>Floating\<close>:
    doubles as reals, infinities and NaN, with the rounding as an argument.
  \<^item> \<open>Vdif\<close>, \<open>Vdif_Time\<close>: the 32-byte header with every accessor, packet ids, the baseband rewriting; epochs and leap seconds. The
    accessors are instances of the locale \<open>header_field\<close>, whose laws give what one setter does to each getter.
  \<^item> \<open>Circular_Buffer\<close>: the buffer called from one thread at a time; the locale \<open>bounded_queue\<close> is its contract, interpreted
    on the model, and used by the receiver theories. \<open>Spsc_Concurrent\<close>: producer and consumer threads interleaved at
    each atomic operation, the semaphores included.
  \<^item> \<open>Packet_Receiver\<close>: the receive loop. \<open>Receiver_Pool\<close>: its executions together with the consumer, and the ownership of batches.
    \<open>Receiver_Content\<close>, \<open>Receiver_Batches\<close>, \<open>Receiver_Delivery\<close>: what the batches hold, in which order they are published and
    that they arrive unchanged; loss accounting.
  \<^item> \<open>Baseband_Quantize\<close>: scalar and AVX-512 converters; the locale \<open>in_place_pack\<close> treats the in-place loops of both widths at once.
    \<open>Baseband_Recorder\<close>: files, rotation, the gathered write with its retry loop, the recording thread.
  \<^item> \<open>Gpu_Kernels\<close>: the CUDA kernels, one function application for each thread of a launch. \<open>Gpu_Pipeline\<close>: the state and the methods of the GPU worker.
    \<open>Gpu_Input\<close>, \<open>Gpu_Integration\<close>, \<open>Gpu_Run\<close>: alignment and filter input, the integration against an abstract specification, whole runs.
    \<open>Subband_Chain\<close>: the worker behind two receivers. \<open>Lossless_Run\<close>: a receive loop on a stream without loss. \<open>Pfb_Window\<close>: the prototype filter.
  \<^item> \<open>Global_Config\<close>, \<open>Config_Reader\<close>: configuration data and \<^verbatim>\<open>initFromYaml\<close>, section by section. \<open>Observation_Id\<close>: observation and directory ids.
  \<^item> \<open>Spectrum_Transport\<close>, \<open>Spectrum_Sender\<close>, \<open>Result_Time\<close>, \<open>Result_Sender\<close>: wire format and checksum, the socket
    state machine, time stamps, and the sending thread interleaved with the GPU worker.
  \<^item> \<open>Sdfits\<close>, \<open>Local_Sdfits_Writer\<close>: SDFITS files over the status convention of CFITSIO; the bounded queue, the worker and the
    band files of the local sink.
  \<^item> \<open>Dpdk_Setup\<close>, \<open>Startup\<close>, \<open>Started_System\<close>: flow rules, lcores and launch; memory layout, threads and \<^verbatim>\<open>main\<close>; the started program
    as a whole, in which the conditions of the receiver and worker theorems hold.

  \<^bold>\<open>What is shown.\<close>
  \<^item> Reception: published batches are consecutive, hold each stored packet at its place and are marked valid exactly when complete; no batch is
    filled while another thread uses it; a consumer gets each batch once, in order and unchanged; the loss counter is exact.
  \<^item> Queue: first in first out with at most the capacity outstanding, no access to a cell the other thread uses, no lost wake-up,
    in every interleaving; sequentially a refinement of a bounded list.
  \<^item> Integration: the slots published are those of the specification; each integrates the configured number of blocks of one noise
    state, all of them and the three before each completely received on both polarisations, in any started program; with exact arithmetic a
    slot holds the plain sums.
  \<^item> Recording: the parts of a recording joined are exactly the frames of the batches, however writes are split or interrupted; lost packets are
    marked; part sizes are bounded; the converters equal their reference; the retry loop terminates.
  \<^item> Delivery: results leave in order with the time stamps and channels of their slot, a lost one is a gap in the sequence, a
    message reads back, one changed byte changes its checksum; the local sink writes what it accepted, in order, one file for each band.
  \<^item> Start: what an accepted configuration guarantees; ids that tell the windows of all servers apart; packets steered to their stream; packet
    memory without overlap between any two batches in use; a thread for each stream, and a wait that ends.

  \<^bold>\<open>Parameters and assumptions.\<close> Code outside the repository is an argument: the outcome of each call of ZeroMQ, CFITSIO, DPDK, CUDA, yaml-cpp and the
  operating system, the transform of cuFFT, the rounding of each floating-point unit. Threads interleave at atomic operations and critical sections under
  sequential consistency; the fences of the sources are taken to give it. Kernels of one worker run in the order of the
  source, and the threads of a warp in lockstep in the last folds of the power reduction. In \<open>Result_Sender\<close> the worker proceeds only while the slot at
  the head of the ring is free; the source overwrites it otherwise. Sizes are bounded where 64-bit arithmetic could wrap: at most 2 to the 20 GiB of
  packet memory a stream, queues below half the address space. Loops over data are total functions; the receive, worker and sender loops are step relations or
  functions of their finite input; the retry loop of the gathered write follows a schedule of answers of the
  kernel, and a theorem shows which schedules are long enough.

  \<^bold>\<open>Not modelled.\<close> \<^verbatim>\<open>include/readerwriterqueue.h\<close> (third-party, included but never instantiated) and \<^verbatim>\<open>include/Writer.h\<close> (included nowhere); the platform parts of
  \<^verbatim>\<open>include/atomicops.h\<close>; log and debug output; the constructors with arguments of \<^verbatim>\<open>include/sdfits.h\<close>, which have no caller, and the hash of
  the band files, which only selects a bucket; the Python, shell and deployment tools around the program.
\<close>

end
